(* ===== verification/Rust_Prelude.thy ===== *)
theory Rust_Prelude
  imports Main "HOL-Library.Word" "HOL-Library.Multiset"
begin

text \<open>
  Shared vocabulary of the development: the machine integers of the Rust sources, the outcome
  type of code that may panic, the arithmetic of the debug build (the build scripts under
  \<^verbatim>\<open>src/tools\<close> use the dev profile, in which an overflowing \<open>+\<close>, \<open>-\<close> or \<open>*\<close> panics), the
  saturating operations of \<^verbatim>\<open>core\<close>, bounds-checked array access, and the power-of-two alignment
  helpers that \<^verbatim>\<open>pmm.rs\<close>, \<^verbatim>\<open>paging.rs\<close>, \<^verbatim>\<open>user.rs\<close> and \<^verbatim>\<open>heap.rs\<close> each carry a copy of.
\<close>

unbundle bit_operations_syntax

section \<open>Machine integers\<close>

type_synonym u8 = "8 word"
type_synonym u16 = "16 word"
type_synonym u32 = "32 word"
type_synonym u64 = "64 word"
type_synonym usize = "64 word"

abbreviation u64_max :: u64 where
  "u64_max \<equiv> - 1"

named_theorems outcome_simps \<open>evaluation of the panic-propagating combinators\<close>
named_theorems word_nat \<open>machine arithmetic read as arithmetic on natural numbers\<close>

section \<open>Code that may panic\<close>

text \<open>
  The panic handler of the kernel halts the machine, so a panicking computation has no result
  and no successor state. \<open>Expect\<close> and \<open>Explicit\<close> carry the message of the source.
\<close>

datatype panic =
    ArithOverflow
  | IndexOutOfBounds
  | SliceOutOfRange
  | Expect string
  | Explicit string

type_synonym 'a outcome = "panic + 'a"

fun and_then :: "'a outcome \<Rightarrow> ('a \<Rightarrow> 'b outcome) \<Rightarrow> 'b outcome" where
  "and_then (Inl e) f = Inl e"
| "and_then (Inr x) f = f x"

lemma and_then_eq_Inr_iff:
  "and_then m f = Inr y \<longleftrightarrow> (\<exists>x. m = Inr x \<and> f x = Inr y)"
  by (cases m) auto

lemma and_then_InrE [elim]:
  assumes "and_then m f = Inr y"
  obtains x where "m = Inr x" "f x = Inr y"
  using assms by (auto simp: and_then_eq_Inr_iff)

lemma and_then_assoc:
  "and_then (and_then m f) g = and_then m (\<lambda>x. and_then (f x) g)"
  by (cases m) simp_all

lemma and_then_cong [fundef_cong]:
  "m = m' \<Longrightarrow> (\<And>x. m' = Inr x \<Longrightarrow> f x = f' x) \<Longrightarrow> and_then m f = and_then m' f'"
  by (cases m') simp_all

lemma outcome_some_caseE:
  assumes "case x of Inl e \<Rightarrow> False | Inr (r, s) \<Rightarrow> (case r of None \<Rightarrow> False | Some a \<Rightarrow> P a s)"
  obtains a s where "x = Inr (Some a, s)" "P a s"
  using assms by (auto split: sum.splits prod.splits option.splits)

definition expect :: "string \<Rightarrow> 'a option \<Rightarrow> 'a outcome" where
  "expect msg r = (case r of None \<Rightarrow> Inl (Expect msg) | Some x \<Rightarrow> Inr x)"

lemma expect_simps [simp, outcome_simps]:
  "expect msg None = Inl (Expect msg)"
  "expect msg (Some x) = Inr x"
  by (simp_all add: expect_def)

lemma expect_eq_Inr [simp]: "expect msg r = Inr x \<longleftrightarrow> r = Some x"
  by (cases r) auto

lemma find_Some_split:
  "find P xs = Some r \<Longrightarrow> \<exists>ys zs. xs = ys @ r # zs \<and> P r \<and> (\<forall>y \<in> set ys. \<not> P y)"
proof (induction xs)
  case Nil
  then show ?case by simp
next
  case (Cons x xs)
  show ?case
  proof (cases "P x")
    case True
    with Cons.prems show ?thesis by (intro exI [of _ "[]"] exI [of _ xs]) simp
  next
    case False
    with Cons obtain ys zs where "xs = ys @ r # zs" "P r" "\<forall>y \<in> set ys. \<not> P y" by auto
    with False show ?thesis by (intro exI [of _ "x # ys"] exI [of _ zs]) simp
  qed
qed

text \<open>The index at which a loop over the entries of an array first finds what it looks for.\<close>

fun find_slot :: "('a \<Rightarrow> bool) \<Rightarrow> 'a list \<Rightarrow> nat option" where
  "find_slot P [] = None"
| "find_slot P (x # xs) = (if P x then Some 0 else map_option Suc (find_slot P xs))"

lemma find_slot_None_iff: "find_slot P xs = None \<longleftrightarrow> (\<forall>x \<in> set xs. \<not> P x)"
  by (induction xs) auto

lemma find_slot_Some:
  "find_slot P xs = Some i \<Longrightarrow> i < length xs \<and> P (xs ! i) \<and> (\<forall>j < i. \<not> P (xs ! j))"
  by (induction xs arbitrary: i) (auto split: if_splits simp: nth_Cons split: nat.splits)

lemma find_slot_Some_iff:
  "find_slot P xs = Some i \<longleftrightarrow> i < length xs \<and> P (xs ! i) \<and> (\<forall>j < i. \<not> P (xs ! j))"
proof
  assume r: "i < length xs \<and> P (xs ! i) \<and> (\<forall>j < i. \<not> P (xs ! j))"
  then obtain k where k: "find_slot P xs = Some k"
    by (metis find_slot_None_iff nth_mem option.exhaust)
  with find_slot_Some [OF k] r show "find_slot P xs = Some i" by (metis nat_neq_iff)
qed (rule find_slot_Some)

section \<open>Arithmetic of the debug build\<close>

text \<open>
  The overflow tests compare the unsigned integer values, so that the definitions evaluate; the
  lemmas restate them over natural numbers.
\<close>

definition add_chk :: "'a::len word \<Rightarrow> 'a word \<Rightarrow> 'a word outcome" where
  "add_chk x y = (if uint x + uint y < 2 ^ LENGTH('a) then Inr (x + y) else Inl ArithOverflow)"

definition sub_chk :: "'a::len word \<Rightarrow> 'a word \<Rightarrow> 'a word outcome" where
  "sub_chk x y = (if y \<le> x then Inr (x - y) else Inl ArithOverflow)"

definition mul_chk :: "'a::len word \<Rightarrow> 'a word \<Rightarrow> 'a word outcome" where
  "mul_chk x y = (if uint x * uint y < 2 ^ LENGTH('a) then Inr (x * y) else Inl ArithOverflow)"

definition saturating_add :: "'a::len word \<Rightarrow> 'a word \<Rightarrow> 'a word" where
  "saturating_add x y = (if uint x + uint y < 2 ^ LENGTH('a) then x + y else - 1)"

definition saturating_sub :: "'a::len word \<Rightarrow> 'a word \<Rightarrow> 'a word" where
  "saturating_sub x y = (if y \<le> x then x - y else 0)"

definition saturating_mul :: "'a::len word \<Rightarrow> 'a word \<Rightarrow> 'a word" where
  "saturating_mul x y = (if uint x * uint y < 2 ^ LENGTH('a) then x * y else - 1)"

definition checked_add :: "'a::len word \<Rightarrow> 'a word \<Rightarrow> 'a word option" where
  "checked_add x y = (if uint x + uint y < 2 ^ LENGTH('a) then Some (x + y) else None)"

lemma uint_add_bound:
  "uint x + uint y < 2 ^ LENGTH('a) \<longleftrightarrow> unat x + unat y < 2 ^ LENGTH('a)"
  for x y :: "'a::len word"
  by (simp only: uint_nat of_nat_add [symmetric] of_nat_less_iff
      of_nat_numeral [symmetric, where 'a = int] of_nat_power [symmetric])

lemma uint_mul_bound:
  "uint x * uint y < 2 ^ LENGTH('a) \<longleftrightarrow> unat x * unat y < 2 ^ LENGTH('a)"
  for x y :: "'a::len word"
  by (simp only: uint_nat of_nat_mult [symmetric] of_nat_less_iff
      of_nat_numeral [symmetric, where 'a = int] of_nat_power [symmetric])

lemmas add_chk_nat = add_chk_def [unfolded uint_add_bound]
lemmas mul_chk_nat = mul_chk_def [unfolded uint_mul_bound]
lemmas saturating_add_nat = saturating_add_def [unfolded uint_add_bound]
lemmas saturating_mul_nat = saturating_mul_def [unfolded uint_mul_bound]
lemmas checked_add_nat = checked_add_def [unfolded uint_add_bound]

lemma unat_add_no_wrap:
  "unat x + unat y < 2 ^ LENGTH('a) \<Longrightarrow> unat (x + y) = unat x + unat (y :: 'a::len word)"
  by (simp add: unat_add_lem)

lemma unat_mul_no_wrap:
  "unat x * unat y < 2 ^ LENGTH('a) \<Longrightarrow> unat (x * y) = unat x * unat (y :: 'a::len word)"
  by (simp add: unat_mult_lem)

lemma unat_minus_one_max: "unat (- 1 :: 'a::len word) = 2 ^ LENGTH('a) - 1"
  by (simp add: unsigned_minus_1_eq_mask mask_eq_exp_minus_1)

lemma unat_saturating_add [word_nat]:
  "unat (saturating_add x y) = min (unat x + unat y) (2 ^ LENGTH('a) - 1)"
  for x y :: "'a::len word"
  by (auto simp: saturating_add_nat unat_add_no_wrap unat_minus_one_max min_def)

lemma unat_saturating_sub [word_nat]: "unat (saturating_sub x y) = unat x - unat y"
  by (auto simp: saturating_sub_def unat_sub word_le_nat_alt)

lemma unat_saturating_mul [word_nat]:
  "unat (saturating_mul x y) = min (unat x * unat y) (2 ^ LENGTH('a) - 1)"
  for x y :: "'a::len word"
proof (cases "unat x * unat y < 2 ^ LENGTH('a)")
  case True
  then show ?thesis by (simp add: saturating_mul_nat unat_mul_no_wrap)
next
  case False
  then have "2 ^ LENGTH('a) - 1 \<le> unat x * unat y" by linarith
  with False show ?thesis by (simp add: saturating_mul_nat unat_minus_one_max min_absorb2)
qed

lemma add_chk_eq_Inr:
  "add_chk x y = Inr z \<longleftrightarrow> unat x + unat y < 2 ^ LENGTH('a) \<and> z = x + y"
  for x y z :: "'a::len word"
  by (auto simp: add_chk_nat)

lemma sub_chk_eq_Inr: "sub_chk x y = Inr z \<longleftrightarrow> y \<le> x \<and> z = x - y"
  by (auto simp: sub_chk_def)

lemma u64_less_iff [word_nat]: "(x :: u64) < y \<longleftrightarrow> unat x < unat y"
  by (rule word_less_nat_alt)

lemma u64_le_iff [word_nat]: "(x :: u64) \<le> y \<longleftrightarrow> unat x \<le> unat y"
  by (rule word_le_nat_alt)

lemma unat_u64_bound: "unat (x :: u64) < 2 ^ 64"
  using unsigned_less [of x] by simp

lemma unat_u64_lt: "unat (x :: u64) < 18446744073709551616"
  using unat_u64_bound [of x] by simp

section \<open>Bounds-checked arrays\<close>

definition aget :: "'a list \<Rightarrow> nat \<Rightarrow> 'a outcome" where
  "aget xs i = (if i < length xs then Inr (xs ! i) else Inl IndexOutOfBounds)"

definition aset :: "'a list \<Rightarrow> nat \<Rightarrow> 'a \<Rightarrow> 'a list outcome" where
  "aset xs i v = (if i < length xs then Inr (xs[i := v]) else Inl IndexOutOfBounds)"

lemma aget_in [simp, outcome_simps]: "i < length xs \<Longrightarrow> aget xs i = Inr (xs ! i)"
  by (simp add: aget_def)

lemma aset_in [simp, outcome_simps]: "i < length xs \<Longrightarrow> aset xs i v = Inr (xs[i := v])"
  by (simp add: aset_def)

section \<open>Power-of-two alignment\<close>

text \<open>\<open>(x + (a - 1)) & !(a - 1)\<close>, whose addition panics when it overflows.\<close>

definition align_up :: "u64 \<Rightarrow> u64 \<Rightarrow> u64 outcome" where
  "align_up x a =
     (if a = 0 then Inr x
      else and_then (add_chk x (a - 1)) (\<lambda>y. Inr (y AND NOT (a - 1))))"

definition align_down :: "u64 \<Rightarrow> u64 \<Rightarrow> u64" where
  "align_down x a = (if a = 0 then x else x AND NOT (a - 1))"

lemma and_not_mask_eq: "x AND NOT (mask n) = x - take_bit n x" for x :: "'a::len word"
proof -
  have "x = (x AND NOT (mask n)) OR take_bit n x"
    by (rule bit_eqI) (auto simp: bit_simps)
  also have "\<dots> = (x AND NOT (mask n)) + take_bit n x"
    by (rule disjunctive_add_eq_or [symmetric], rule bit_eqI) (auto simp: bit_simps)
  finally show ?thesis by (simp add: eq_diff_eq)
qed

lemma unat_take_bit_word: "unat (take_bit n x) = unat x mod 2 ^ n" for x :: "'a::len word"
  by (simp only: unsigned_take_bit_eq) (simp add: take_bit_eq_mod)

lemma unat_and_not_mask:
  "unat (x AND NOT (mask n)) = unat x - unat x mod 2 ^ n" for x :: "'a::len word"
proof -
  have "take_bit n x \<le> x"
    by (simp add: word_le_nat_alt unat_take_bit_word)
  then show ?thesis
    by (simp add: and_not_mask_eq unat_sub unat_take_bit_word)
qed

lemma pow2_minus_1_mask: "n < LENGTH('a) \<Longrightarrow> 2 ^ n - 1 = (mask n :: 'a::len word)"
  by (simp add: mask_eq_exp_minus_1)

lemma u64_pow2_neq_0: "n < 64 \<Longrightarrow> (2 :: u64) ^ n \<noteq> 0"
  by simp

lemma unat_pow2_u64: "n < 64 \<Longrightarrow> unat ((2 :: u64) ^ n) = 2 ^ n"
  using unat_of_nat [of "2 ^ n", where 'a = 64] power_strict_increasing [of n 64 "2 :: nat"]
  by simp

lemma unat_mask_u64: "n < 64 \<Longrightarrow> unat (mask n :: u64) = 2 ^ n - 1"
  by (simp add: pow2_minus_1_mask [symmetric] unat_sub unat_pow2_u64 word_le_nat_alt)

lemma unat_align_down_pow2:
  "n < 64 \<Longrightarrow> unat (align_down x (2 ^ n)) = unat x div 2 ^ n * 2 ^ n"
  by (simp add: align_down_def u64_pow2_neq_0 pow2_minus_1_mask unat_and_not_mask
      minus_mod_eq_div_mult)

lemma align_up_pow2_eq:
  assumes "n < 64"
  shows "align_up x (2 ^ n) =
    (if unat x + (2 ^ n - 1) < 2 ^ 64 then Inr ((x + mask n) AND NOT (mask n))
     else Inl ArithOverflow)"
  using assms
  by (simp add: align_up_def add_chk_nat u64_pow2_neq_0 pow2_minus_1_mask unat_mask_u64)

lemma align_up_pow2_Inr:
  assumes "n < 64" "align_up x (2 ^ n) = Inr y"
  shows "unat y = (unat x + (2 ^ n - 1)) div 2 ^ n * 2 ^ n" "unat x + (2 ^ n - 1) < 2 ^ 64"
  using assms
  by (auto simp: align_up_pow2_eq unat_and_not_mask minus_mod_eq_div_mult unat_add_no_wrap
      unat_mask_u64 split: if_splits)

abbreviation PAGE_SIZE :: u64 where
  "PAGE_SIZE \<equiv> 4096"

lemma unat_align_down_page [word_nat]: "unat (align_down x PAGE_SIZE) = unat x div 4096 * 4096"
  using unat_align_down_pow2 [of 12 x] by simp

lemma align_up_page_Inr:
  assumes "align_up x PAGE_SIZE = Inr y"
  shows "unat y = (unat x + 4095) div 4096 * 4096" "unat x + 4095 < 2 ^ 64"
  using align_up_pow2_Inr [of 12 x y] assms by simp_all

lemma align_up_page_Inl:
  "align_up x PAGE_SIZE = Inl e \<longleftrightarrow> e = ArithOverflow \<and> 2 ^ 64 \<le> unat x + 4095"
  using align_up_pow2_eq [of 12 x] by (auto split: if_splits)

end
