(* ===== verification/Machine.thy ===== *)
theory Machine
  imports Rust_Prelude
begin

text \<open>
  The part of the x86-64 machine the kernel code manipulates: byte-addressed physical memory with
  little-endian 64-bit accesses, the page-table root in CR3, the ring-0 stack pointer of the TSS,
  the bytes sent to the serial port and the writes to every other port. Other theories extend this record by the statics of
  their Rust module, so that an operation of a lower component applies to every later state.
\<close>

type_synonym memory = "u64 \<Rightarrow> u8"

record machine =
  mem :: memory
  cr3 :: u64
  tss_rsp0 :: u64
  serial_out :: "u8 list"
  port_writes :: "(u16 \<times> u8) list"

section \<open>64-bit accesses\<close>

definition rd64 :: "memory \<Rightarrow> u64 \<Rightarrow> u64" where
  "rd64 m a =
     ucast (m a) OR push_bit 8 (ucast (m (a + 1))) OR push_bit 16 (ucast (m (a + 2)))
     OR push_bit 24 (ucast (m (a + 3))) OR push_bit 32 (ucast (m (a + 4)))
     OR push_bit 40 (ucast (m (a + 5))) OR push_bit 48 (ucast (m (a + 6)))
     OR push_bit 56 (ucast (m (a + 7)))"

definition wr64 :: "memory \<Rightarrow> u64 \<Rightarrow> u64 \<Rightarrow> memory" where
  "wr64 m a v = m(a := ucast v, a + 1 := ucast (drop_bit 8 v), a + 2 := ucast (drop_bit 16 v),
     a + 3 := ucast (drop_bit 24 v), a + 4 := ucast (drop_bit 32 v),
     a + 5 := ucast (drop_bit 40 v), a + 6 := ucast (drop_bit 48 v),
     a + 7 := ucast (drop_bit 56 v))"

lemma ucast_u8_u64: "ucast (ucast x :: u8) = take_bit 8 (x :: u64)"
  by (rule bit_eqI) (auto simp: bit_simps)

lemma take_bit_extend:
  "take_bit n v OR push_bit n (take_bit 8 (drop_bit n v)) = take_bit (n + 8) (v :: u64)"
  by (rule bit_eqI) (auto simp: bit_simps)

lemma rd64_wr64_same [simp]: "rd64 (wr64 m a v) a = v"
proof -
  have "rd64 (wr64 m a v) a = take_bit 8 v OR push_bit 8 (take_bit 8 (drop_bit 8 v))
     OR push_bit 16 (take_bit 8 (drop_bit 16 v)) OR push_bit 24 (take_bit 8 (drop_bit 24 v))
     OR push_bit 32 (take_bit 8 (drop_bit 32 v)) OR push_bit 40 (take_bit 8 (drop_bit 40 v))
     OR push_bit 48 (take_bit 8 (drop_bit 48 v)) OR push_bit 56 (take_bit 8 (drop_bit 56 v))"
    by (simp add: rd64_def wr64_def ucast_u8_u64)
  also have "\<dots> = take_bit 64 v"
    using take_bit_extend [of 8 v] take_bit_extend [of 16 v] take_bit_extend [of 24 v]
      take_bit_extend [of 32 v] take_bit_extend [of 40 v] take_bit_extend [of 48 v]
      take_bit_extend [of 56 v]
    by (simp only: numeral_plus_numeral add_num_simps or.assoc [symmetric])
  finally show ?thesis by (simp add: take_bit_word_eq_self)
qed

text \<open>A write touches exactly the eight bytes from its address on.\<close>

definition span8 :: "u64 \<Rightarrow> u64 set" where
  "span8 a = {a, a + 1, a + 2, a + 3, a + 4, a + 5, a + 6, a + 7}"

lemma wr64_outside: "x \<notin> span8 a \<Longrightarrow> wr64 m a v x = m x"
  by (simp add: wr64_def span8_def)

lemma rd64_cong: "(\<And>x. x \<in> span8 a \<Longrightarrow> m x = m' x) \<Longrightarrow> rd64 m a = rd64 m' a"
  by (simp add: rd64_def span8_def)

lemma rd64_wr64_disjoint: "span8 a \<inter> span8 b = {} \<Longrightarrow> rd64 (wr64 m a v) b = rd64 m b"
  by (rule rd64_cong, rule wr64_outside) blast

definition aligned8 :: "u64 \<Rightarrow> bool" where
  "aligned8 a \<longleftrightarrow> unat a mod 8 = 0"

lemma span8_aligned:
  assumes "aligned8 a" "x \<in> span8 a"
  shows "unat x div 8 * 8 = unat a"
proof -
  have *: "unat (a + k) div 8 * 8 = unat a" if "unat k < 8" for k
  proof -
    have "unat a + 8 \<le> 2 ^ 64"
      using assms(1) unat_u64_lt [of a] unfolding aligned8_def by simp presburger
    then have "unat (a + k) = unat a + unat k"
      using that by (intro unat_add_no_wrap) simp
    then show ?thesis using assms(1) that unfolding aligned8_def by presburger
  qed
  from assms(2) obtain k where "x = a + k" "k \<in> {0, 1, 2, 3, 4, 5, 6, 7}"
    unfolding span8_def by fastforce
  moreover from this(2) have "unat k < 8" by auto
  ultimately show ?thesis by (simp only: *)
qed

lemma span8_disjoint: "aligned8 a \<Longrightarrow> aligned8 b \<Longrightarrow> a \<noteq> b \<Longrightarrow> span8 a \<inter> span8 b = {}"
  by (metis disjoint_iff span8_aligned word_unat_eq_iff)

lemma rd64_wr64:
  "aligned8 a \<Longrightarrow> aligned8 b \<Longrightarrow> rd64 (wr64 m a v) b = (if a = b then v else rd64 m b)"
  by (simp add: rd64_wr64_disjoint span8_disjoint)

end
