(* ===== verification/PageTable.thy ===== *)
theory PageTable
  imports Machine
begin

text \<open>
  Page tables in memory. A table is a page-aligned frame of 512 entries; the lemmas view memory
  through its entries, so that a write to one entry and the clearing of one frame become updates of
  the entry view. \<open>mmu_walk\<close> and \<open>mmu_user_walk\<close> are the address translation of the processor
  (4-level paging, 2 MiB and 1 GiB leaves, canonical addresses), the reference against which the
  mapping code of \<^verbatim>\<open>paging.rs\<close> and \<^verbatim>\<open>user.rs\<close> is verified.
\<close>

section \<open>Entries\<close>

definition PTE_P :: u64 where
  "PTE_P = 1"

definition PTE_RW :: u64 where
  "PTE_RW = 2"

definition PTE_U :: u64 where
  "PTE_U = 4"

definition PTE_PS :: u64 where
  "PTE_PS = 0x80"

definition ADDR_MASK :: u64 where
  "ADDR_MASK = 0x000ffffffffff000"

definition entry :: "u64 \<Rightarrow> u64 \<Rightarrow> u64" where
  "entry table i = table + 8 * i"

definition te :: "memory \<Rightarrow> u64 \<Rightarrow> u64 \<Rightarrow> u64" where
  "te m table i = rd64 m (entry table i)"

definition zero_frame :: "u64 \<Rightarrow> memory \<Rightarrow> memory" where
  "zero_frame p m = (\<lambda>a. if a - p < 4096 then 0 else m a)"

definition frame_ok :: "u64 \<Rightarrow> bool" where
  "frame_ok p \<longleftrightarrow> 4096 dvd unat p \<and> unat p < 2 ^ 52"

lemma frame_okE:
  assumes "frame_ok p"
  obtains k where "unat p = 4096 * k" "k < 2 ^ 40"
  using assms by (auto simp: frame_ok_def)

lemma frame_ok_room: "frame_ok p \<Longrightarrow> unat p + 4096 \<le> 2 ^ 52"
  by (erule frame_okE) simp

lemma page_split_unique:
  assumes "4096 * k + r = 4096 * k' + r'" "r < 4096" "r' < (4096 :: nat)"
  shows "k = k'" "r = r'"
  using assms by (metis add.commute div_mult_self2 div_less zero_neq_numeral add_0,
      metis mod_less mod_mult_self4)

lemma unat_entry:
  assumes "frame_ok t" "i < 512"
  shows "unat (entry t i) = unat t + 8 * unat i"
proof -
  have i: "unat i < 512" using assms(2) by (simp add: word_less_nat_alt)
  then have "unat (8 * i) = 8 * unat i" by (subst unat_mul_no_wrap) simp_all
  moreover have "unat t + 8 * unat i < 2 ^ 64"
    using frame_ok_room [OF assms(1)] i by simp
  ultimately show ?thesis by (simp add: entry_def unat_add_no_wrap)
qed

lemma entry_aligned: "frame_ok t \<Longrightarrow> i < 512 \<Longrightarrow> aligned8 (entry t i)"
  by (erule frame_okE) (simp add: aligned8_def unat_entry frame_ok_def mod_eq_0_iff_dvd)

lemma entry_inject:
  assumes "frame_ok t" "i < 512" "frame_ok t'" "i' < 512"
  shows "entry t i = entry t' i' \<longleftrightarrow> t = t' \<and> i = i'"
proof
  assume "entry t i = entry t' i'"
  then have eq: "unat t + 8 * unat i = unat t' + 8 * unat i'"
    using assms by (metis unat_entry)
  have "unat i < 512" "unat i' < 512" using assms by (simp_all add: word_less_nat_alt)
  moreover obtain k k' where "unat t = 4096 * k" "unat t' = 4096 * k'"
    using assms by (metis frame_okE)
  ultimately have "unat t = unat t'" "unat i = unat i'"
    using eq page_split_unique [of k "8 * unat i" k' "8 * unat i'"] by simp_all
  then show "t = t' \<and> i = i'" by (simp add: word_unat_eq_iff)
qed simp

lemma te_wr64:
  assumes "frame_ok t" "i < 512" "frame_ok t'" "i' < 512"
  shows "te (wr64 m (entry t i) v) t' i' = (if t = t' \<and> i = i' then v else te m t' i')"
  using assms by (simp add: te_def rd64_wr64 entry_aligned entry_inject)

lemma entry_span_frame:
  assumes "frame_ok t" "i < 512" "a \<in> span8 (entry t i)"
  shows "unat a div 4096 * 4096 = unat t"
proof -
  have "unat a div 8 * 8 = unat t + 8 * unat i"
    using span8_aligned [OF entry_aligned [OF assms(1,2)] assms(3)] unat_entry [OF assms(1,2)] by simp
  moreover have i: "unat i < 512" using assms(2) by (simp add: word_less_nat_alt)
  moreover obtain k where k: "unat t = 4096 * k" using assms(1) by (rule frame_okE)
  ultimately have "unat a = 4096 * k + (8 * unat i + unat a mod 8)"
    using div_mult_mod_eq [of "unat a" 8] by simp
  moreover have "8 * unat i + unat a mod 8 < 4096"
    using i mod_less_divisor [of 8 "unat a"] by linarith
  ultimately have "unat a div 4096 = k" by (metis add.commute div_less div_mult_self2 add_0 zero_neq_numeral)
  with k show ?thesis by simp
qed

lemma in_frame_iff:
  assumes "frame_ok p"
  shows "a - p < 4096 \<longleftrightarrow> unat a div 4096 * 4096 = unat p"
proof -
  obtain k where k: "unat p = 4096 * k" using assms by (rule frame_okE)
  have split: "unat a = 4096 * (unat a div 4096) + unat a mod 4096" by simp
  show ?thesis
  proof (cases "p \<le> a")
    case True
    then have "unat (a - p) = unat a - unat p" and le: "unat p \<le> unat a"
      by (simp_all add: unat_sub word_le_nat_alt)
    then have "a - p < 4096 \<longleftrightarrow> unat a < 4096 * k + 4096" by (auto simp: word_less_nat_alt k)
    also have "\<dots> \<longleftrightarrow> unat a div 4096 \<le> k" 
      by (simp add: less_Suc_eq_le [symmetric] div_less_iff_less_mult algebra_simps)
    finally show ?thesis using div_le_mono [OF le, of 4096] k by auto
  next
    case False
    then have lt: "unat a < unat p" by (simp add: word_le_nat_alt)
    then have "unat (a - p) = 2 ^ 64 + unat a - unat p"
      by (simp add: unat_sub_if')
    with lt frame_ok_room [OF assms] have "\<not> a - p < 4096" by (simp add: word_less_nat_alt)
    moreover have "unat a div 4096 * 4096 \<noteq> unat p"
      using lt div_times_less_eq_dividend [of "unat a" 4096] by linarith
    ultimately show ?thesis by simp
  qed
qed

lemma te_zero_frame:
  assumes "frame_ok p" "frame_ok t" "i < 512"
  shows "te (zero_frame p m) t i = (if t = p then 0 else te m t i)"
proof (cases "t = p")
  case True
  have "zero_frame p m a = 0" if "a \<in> span8 (entry t i)" for a
    using entry_span_frame [OF assms(2,3) that] in_frame_iff [OF assms(1), of a] True
    by (simp add: zero_frame_def)
  then have "te (zero_frame p m) t i = rd64 (\<lambda>_. 0) (entry t i)"
    unfolding te_def by (intro rd64_cong) simp
  with True show ?thesis by (simp add: rd64_def)
next
  case False
  have "zero_frame p m a = m a" if "a \<in> span8 (entry t i)" for a
    using entry_span_frame [OF assms(2,3) that] in_frame_iff [OF assms(1), of a] False
    by (auto simp: zero_frame_def word_unat_eq_iff)
  with False show ?thesis unfolding te_def by (auto intro: rd64_cong)
qed

section \<open>Address translation\<close>

definition pt_index :: "nat \<Rightarrow> u64 \<Rightarrow> u64" where
  "pt_index shift virt = drop_bit shift virt AND 0x1ff"

lemma pt_index_bound [simp]: "pt_index shift virt < 512"
proof -
  have "pt_index shift virt \<le> 0x1ff" unfolding pt_index_def by (rule word_and_le1)
  then show ?thesis by (simp add: word_le_nat_alt word_less_nat_alt)
qed

definition canonical :: "u64 \<Rightarrow> bool" where
  "canonical v \<longleftrightarrow> v < 0x800000000000 \<or> 0xffff800000000000 \<le> v"

text \<open>A translation that requires the bits \<open>req\<close> in every entry it passes.\<close>

definition mmu_walk_req :: "u64 \<Rightarrow> memory \<Rightarrow> u64 \<Rightarrow> u64 \<Rightarrow> u64 option" where
  "mmu_walk_req req m root virt =
     (let e4 = te m (root AND ADDR_MASK) (pt_index 39 virt) in
      if \<not> canonical virt \<or> e4 AND req \<noteq> req then None
      else let e3 = te m (e4 AND ADDR_MASK) (pt_index 30 virt) in
      if e3 AND req \<noteq> req then None
      else if e3 AND PTE_PS \<noteq> 0
      then Some ((e3 AND 0x000fffffc0000000) + (virt AND 0x3fffffff))
      else let e2 = te m (e3 AND ADDR_MASK) (pt_index 21 virt) in
      if e2 AND req \<noteq> req then None
      else if e2 AND PTE_PS \<noteq> 0
      then Some ((e2 AND 0x000fffffffe00000) + (virt AND 0x1fffff))
      else let e1 = te m (e2 AND ADDR_MASK) (pt_index 12 virt) in
      if e1 AND req \<noteq> req then None
      else Some ((e1 AND ADDR_MASK) + (virt AND 0xfff)))"

definition mmu_walk :: "memory \<Rightarrow> u64 \<Rightarrow> u64 \<Rightarrow> u64 option" where
  "mmu_walk = mmu_walk_req PTE_P"

definition mmu_user_walk :: "memory \<Rightarrow> u64 \<Rightarrow> u64 \<Rightarrow> u64 option" where
  "mmu_user_walk = mmu_walk_req (PTE_P OR PTE_U)"

lemma bit_ADDR_MASK: "bit ADDR_MASK n \<longleftrightarrow> 12 \<le> n \<and> n < 52"
proof -
  have eq: "ADDR_MASK = push_bit 12 (mask 40)"
    by (simp add: ADDR_MASK_def mask_eq_exp_minus_1 push_bit_eq_mult)
  show ?thesis unfolding eq by (auto simp: bit_simps)
qed

lemma frame_ok_bit:
  assumes "frame_ok p" "bit p n"
  shows "12 \<le> n \<and> n < 52"
proof -
  have "take_bit 12 p = 0"
    using assms(1) by (simp add: word_unat_eq_iff unat_take_bit_word frame_ok_def dvd_eq_mod_eq_0)
  then have "\<not> n < 12" using assms(2) by (metis bit_0_eq bit_take_bit_iff bot_apply bot_bool_def)
  moreover have "take_bit 52 p = p"
    using assms(1) by (simp add: word_unat_eq_iff unat_take_bit_word frame_ok_def)
  then have "n < 52" using assms(2) by (metis bit_take_bit_iff)
  ultimately show ?thesis by simp
qed

lemma frame_and_mask [simp]: "frame_ok p \<Longrightarrow> p AND ADDR_MASK = p"
  by (rule bit_eqI) (auto simp: bit_simps bit_ADDR_MASK dest: frame_ok_bit)

text \<open>Flag bits below 4096 do not disturb the address.\<close>

lemma frame_or_flags_addr:
  assumes "frame_ok p" "flags < 4096"
  shows "(p OR flags) AND ADDR_MASK = p"
proof -
  have "take_bit 12 flags = flags"
    using assms(2) by (simp add: word_unat_eq_iff unat_take_bit_word word_less_nat_alt)
  then have low: "bit flags n \<Longrightarrow> n < 12" for n by (metis bit_take_bit_iff)
  show ?thesis
    by (intro bit_eqI)
      (auto simp: bit_simps bit_ADDR_MASK dest: frame_ok_bit [OF assms(1)] dest!: low)
qed

lemma frame_or_flags_low:
  assumes "frame_ok p" "req < 4096"
  shows "(p OR flags) AND req = flags AND req"
proof -
  have "take_bit 12 req = req"
    using assms(2) by (simp add: word_unat_eq_iff unat_take_bit_word word_less_nat_alt)
  then have low: "bit req n \<Longrightarrow> n < 12" for n by (metis bit_take_bit_iff)
  show ?thesis
    by (intro bit_eqI) (fastforce simp: bit_simps dest: frame_ok_bit [OF assms(1)] low)
qed

end
