(* ===== verification/BootInfo.thy ===== *)
theory BootInfo
  imports Rust_Prelude
begin

text \<open>
  The boot protocol of \<^verbatim>\<open>libs/bootinfo/src/lib.rs\<close>: the record the loader hands to the kernel,
  the pixel formats and the memory map entries with their kinds, each kind with the \<open>u32\<close>
  discriminant its \<^verbatim>\<open>repr(u32)\<close> fixes.
\<close>

record BootInfo =
  bi_magic :: u32
  bi_version :: u32
  fb_base :: u64
  fb_size :: u64
  fb_width :: u32
  fb_height :: u32
  fb_stride :: u32
  fb_format :: u32
  regions_ptr :: u64
  regions_len :: u32
  kernel_phys_base :: u64
  kernel_phys_end :: u64

definition BOOTINFO_MAGIC :: u32 where
  "BOOTINFO_MAGIC = 0x4D414E54"

definition BOOTINFO_VERSION :: u32 where
  "BOOTINFO_VERSION = 2"

datatype PixelFormat = PixUnknown | PixRgb | PixBgr

fun pixel_as_u32 :: "PixelFormat \<Rightarrow> u32" where
  "pixel_as_u32 PixUnknown = 0"
| "pixel_as_u32 PixRgb = 1"
| "pixel_as_u32 PixBgr = 2"

datatype RegionKind =
    KUnknown | KUsable | KReserved | KAcpiReclaim | KAcpiNvs | KMmio | KKernel | KBoot
  | KFramebuffer

fun kind_as_u32 :: "RegionKind \<Rightarrow> u32" where
  "kind_as_u32 KUnknown = 0"
| "kind_as_u32 KUsable = 1"
| "kind_as_u32 KReserved = 2"
| "kind_as_u32 KAcpiReclaim = 3"
| "kind_as_u32 KAcpiNvs = 4"
| "kind_as_u32 KMmio = 5"
| "kind_as_u32 KKernel = 6"
| "kind_as_u32 KBoot = 7"
| "kind_as_u32 KFramebuffer = 8"

record MemoryRegion =
  mr_base :: u64
  mr_len :: u64
  mr_kind :: u32

lemma kind_as_u32_inject [simp]: "kind_as_u32 a = kind_as_u32 b \<longleftrightarrow> a = b"
  by (cases a; cases b) simp_all

end
