(* ===== verification/Pmm.thy ===== *)
theory Pmm
  imports BootInfo Machine
begin

text \<open>
  The physical memory manager, \<^verbatim>\<open>kernel/src/pmm.rs\<close>: a table of at most 128 page-aligned free
  ranges, built once from the boot memory map and consumed by a bump cursor. The array loops are
  translated with their indices and bounds checks; the lemmas relate them to functions on the
  list of live entries and to the set of byte addresses that list covers.
\<close>

section \<open>State and operations\<close>

record Range =
  r_base :: u64
  r_end :: u64

record PmmStats =
  usable_bytes :: u64
  free_bytes :: u64
  range_count :: nat

record Pmm =
  ranges :: "Range list"
  pm_len :: nat
  cursor :: nat

definition MAX_RANGES :: nat where
  "MAX_RANGES = 128"

definition overlaps :: "u64 \<Rightarrow> u64 \<Rightarrow> u64 \<Rightarrow> u64 \<Rightarrow> bool" where
  "overlaps a0 a1 b0 b1 \<longleftrightarrow> a0 < b1 \<and> b0 < a1"

subsection \<open>Insertion sort\<close>

fun sort_shift :: "Range \<Rightarrow> nat \<Rightarrow> Range list \<Rightarrow> (Range list \<times> nat) outcome" where
  "sort_shift key 0 rs = Inr (rs, 0)"
| "sort_shift key (Suc j) rs =
     and_then (aget rs j) (\<lambda>p.
       if r_base key < r_base p
       then and_then (aset rs (Suc j) p) (\<lambda>rs'. sort_shift key j rs')
       else Inr (rs, Suc j))"

function sort_from :: "nat \<Rightarrow> nat \<Rightarrow> Range list \<Rightarrow> Range list outcome" where
  "sort_from i len rs =
     (if i < len
      then and_then (aget rs i) (\<lambda>key.
             and_then (sort_shift key i rs) (\<lambda>(rs1, j).
               and_then (aset rs1 j key) (\<lambda>rs2. sort_from (Suc i) len rs2)))
      else Inr rs)"
  by pat_completeness auto
termination
  by (relation "measure (\<lambda>(i, len, rs). len - i)") auto

definition sort_by_base :: "Range list \<Rightarrow> nat \<Rightarrow> Range list outcome" where
  "sort_by_base rs len = sort_from 1 len rs"

subsection \<open>Merging\<close>

function merge_absorb :: "nat \<Rightarrow> Range \<Rightarrow> nat \<Rightarrow> Range list \<Rightarrow> (Range \<times> nat) outcome" where
  "merge_absorb len cur i rs =
     (if i < len
      then and_then (aget rs i) (\<lambda>r.
             if r_base r \<le> r_end cur
             then merge_absorb len (cur\<lparr>r_end := max (r_end cur) (r_end r)\<rparr>) (Suc i) rs
             else Inr (cur, i))
      else Inr (cur, i))"
  by pat_completeness auto
termination
  by (relation "measure (\<lambda>(len, cur, i, rs). len - i)") auto

declare sort_from.simps [simp del] merge_absorb.simps [simp del]

lemma merge_absorb_index_le: "merge_absorb len cur i rs = Inr (c, k) \<Longrightarrow> i \<le> k"
proof (induction len cur i rs rule: merge_absorb.induct)
  case (1 len cur i rs)
  from "1.prems" show ?case
    by (subst (asm) merge_absorb.simps)
      (auto simp: and_then_eq_Inr_iff split: if_splits dest: "1.IH")
qed

function merge_from ::
  "nat \<Rightarrow> nat \<Rightarrow> nat \<Rightarrow> Range list \<Rightarrow> (Range list \<times> nat) outcome" where
  "merge_from len out i rs =
     (if i < len
      then and_then (aget rs i) (\<lambda>cur.
             and_then (merge_absorb len cur (Suc i) rs) (\<lambda>(cur', i').
               and_then (aset rs out cur') (\<lambda>rs'. merge_from len (Suc out) i' rs')))
      else Inr (rs, out))"
  by pat_completeness auto
termination
  by (relation "measure (\<lambda>(len, out, i, rs). len - i)")
    (auto dest!: merge_absorb_index_le)

declare merge_from.simps [simp del]

definition merge_adjacent :: "Range list \<Rightarrow> nat \<Rightarrow> (Range list \<times> nat) outcome" where
  "merge_adjacent rs len = (if len = 0 then Inr (rs, len) else merge_from len 0 0 rs)"

subsection \<open>Subtracting a reserved range\<close>

function shift_left :: "nat \<Rightarrow> nat \<Rightarrow> Range list \<Rightarrow> Range list outcome" where
  "shift_left j len rs =
     (if j < len
      then and_then (aget rs j) (\<lambda>r.
             and_then (aset rs (j - 1) r) (\<lambda>rs'. shift_left (Suc j) len rs'))
      else Inr rs)"
  by pat_completeness auto
termination
  by (relation "measure (\<lambda>(j, len, rs). len - j)") auto

declare shift_left.simps [simp del]

fun shift_right :: "nat \<Rightarrow> nat \<Rightarrow> Range list \<Rightarrow> Range list outcome" where
  "shift_right stop 0 rs = Inr rs"
| "shift_right stop (Suc j) rs =
     (if stop < Suc j
      then and_then (aget rs j) (\<lambda>r.
             and_then (aset rs (Suc j) r) (\<lambda>rs'. shift_right stop j rs'))
      else Inr rs)"

function subtract_from ::
  "u64 \<Rightarrow> u64 \<Rightarrow> nat \<Rightarrow> nat \<Rightarrow> Range list \<Rightarrow> (bool \<times> Range list \<times> nat) outcome" where
  "subtract_from res_base res_end i len rs =
     (if i < len
      then and_then (aget rs i) (\<lambda>r.
        if \<not> overlaps (r_base r) (r_end r) res_base res_end
        then subtract_from res_base res_end (Suc i) len rs
        else if res_base \<le> r_base r \<and> r_end r \<le> res_end
        then and_then (shift_left (Suc i) len rs) (\<lambda>rs'.
               subtract_from res_base res_end i (len - 1) rs')
        else if res_base \<le> r_base r \<and> res_end < r_end r
        then and_then (aset rs i (r\<lparr>r_base := res_end\<rparr>)) (\<lambda>rs'.
               subtract_from res_base res_end (Suc i) len rs')
        else if r_base r < res_base \<and> r_end r \<le> res_end
        then and_then (aset rs i (r\<lparr>r_end := res_base\<rparr>)) (\<lambda>rs'.
               subtract_from res_base res_end (Suc i) len rs')
        else if length rs \<le> len
        then Inr (False, rs, len)
        else and_then (aset rs i \<lparr>r_base = r_base r, r_end = res_base\<rparr>) (\<lambda>rs1.
               and_then (shift_right (Suc i) len rs1) (\<lambda>rs2.
                 and_then (aset rs2 (Suc i) \<lparr>r_base = res_end, r_end = r_end r\<rparr>) (\<lambda>rs3.
                   subtract_from res_base res_end (i + 2) (Suc len) rs3))))
      else Inr (True, rs, len))"
  by pat_completeness auto
termination
  by (relation "measure (\<lambda>(rb, re, i, len, rs). len - i)") auto

declare subtract_from.simps [simp del]

definition subtract_reserved ::
  "Range list \<Rightarrow> nat \<Rightarrow> u64 \<Rightarrow> u64 \<Rightarrow> (bool \<times> Range list \<times> nat) outcome" where
  "subtract_reserved rs len res_base res_end = subtract_from res_base res_end 0 len rs"

subsection \<open>Initialisation\<close>

text \<open>The result of \<open>Err(())\<close> is \<open>None\<close>.\<close>

fun collect_usable ::
  "MemoryRegion list \<Rightarrow> Range list \<Rightarrow> nat \<Rightarrow> u64 \<Rightarrow> (Range list \<times> nat \<times> u64) option outcome"
where
  "collect_usable [] rs len acc = Inr (Some (rs, len, acc))"
| "collect_usable (r # regions) rs len acc =
     (if mr_kind r \<noteq> kind_as_u32 KUsable then collect_usable regions rs len acc
      else and_then (align_up (mr_base r) PAGE_SIZE) (\<lambda>base.
        let end' = align_down (saturating_add (mr_base r) (mr_len r)) PAGE_SIZE in
        if end' \<le> base then collect_usable regions rs len acc
        else let acc' = saturating_add acc (end' - base) in
        if length rs \<le> len then Inr None
        else and_then (aset rs len \<lparr>r_base = base, r_end = end'\<rparr>) (\<lambda>rs'.
               collect_usable regions rs' (Suc len) acc')))"

fun subtract_regions ::
  "MemoryRegion list \<Rightarrow> Range list \<Rightarrow> nat \<Rightarrow> (Range list \<times> nat) option outcome" where
  "subtract_regions [] rs len = Inr (Some (rs, len))"
| "subtract_regions (r # regions) rs len =
     (if mr_kind r = kind_as_u32 KUsable then subtract_regions regions rs len
      else if mr_len r = 0 then subtract_regions regions rs len
      else let res_base = align_down (mr_base r) PAGE_SIZE in
        and_then (align_up (saturating_add (mr_base r) (mr_len r)) PAGE_SIZE) (\<lambda>res_end.
        if res_end \<le> res_base then subtract_regions regions rs len
        else and_then (subtract_reserved rs len res_base res_end) (\<lambda>(ok, rs', len').
               if \<not> ok then Inr None else subtract_regions regions rs' len')))"

function drop_empty :: "nat \<Rightarrow> nat \<Rightarrow> nat \<Rightarrow> Range list \<Rightarrow> (Range list \<times> nat) outcome" where
  "drop_empty i len out rs =
     (if i < len
      then and_then (aget rs i) (\<lambda>r.
             if r_base r < r_end r
             then and_then (aset rs out r) (\<lambda>rs'. drop_empty (Suc i) len (Suc out) rs')
             else drop_empty (Suc i) len out rs)
      else Inr (rs, out))"
  by pat_completeness auto
termination
  by (relation "measure (\<lambda>(i, len, out, rs). len - i)") auto

function sum_free :: "nat \<Rightarrow> nat \<Rightarrow> u64 \<Rightarrow> Range list \<Rightarrow> u64 outcome" where
  "sum_free i len acc rs =
     (if i < len
      then and_then (aget rs i) (\<lambda>r.
             and_then (sub_chk (r_end r) (r_base r)) (\<lambda>d.
               sum_free (Suc i) len (saturating_add acc d) rs))
      else Inr acc)"
  by pat_completeness auto
termination
  by (relation "measure (\<lambda>(i, len, acc, rs). len - i)") auto

declare drop_empty.simps [simp del] sum_free.simps [simp del]

definition pmm_build ::
  "MemoryRegion list \<Rightarrow> (Pmm \<times> PmmStats) option outcome" where
  "pmm_build regions =
     and_then (collect_usable regions (replicate MAX_RANGES \<lparr>r_base = 0, r_end = 0\<rparr>) 0 0)
       (\<lambda>c. case c of None \<Rightarrow> Inr None
        | Some (rs0, len0, usable) \<Rightarrow>
     if len0 = 0 then Inr None
     else and_then (sort_by_base rs0 len0) (\<lambda>rs1.
          and_then (merge_adjacent rs1 len0) (\<lambda>(rs2, len2).
          and_then (subtract_regions regions rs2 len2)
       (\<lambda>c. case c of None \<Rightarrow> Inr None
        | Some (rs3, len3) \<Rightarrow>
          and_then (subtract_reserved rs3 len3 0 0x100000) (\<lambda>(ok, rs4, len4).
     if \<not> ok then Inr None
     else and_then (drop_empty 0 len4 0 rs4) (\<lambda>(rs5, len5).
     if len5 = 0 then Inr None
     else and_then (sum_free 0 len5 0 rs5) (\<lambda>free.
          Inr (Some (\<lparr>ranges = rs5, pm_len = len5, cursor = 0\<rparr>,
            \<lparr>usable_bytes = usable, free_bytes = free, range_count = len5\<rparr>)))))))))"

subsection \<open>Allocation\<close>

function alloc_scan :: "u64 \<Rightarrow> Pmm \<Rightarrow> (u64 option \<times> Pmm) outcome" where
  "alloc_scan pages pmm =
     (if cursor pmm < pm_len pmm
      then and_then (aget (ranges pmm) (cursor pmm)) (\<lambda>r.
        if r_end r \<le> r_base r
        then alloc_scan pages (pmm\<lparr>cursor := Suc (cursor pmm)\<rparr>)
        else let need = saturating_mul pages PAGE_SIZE;
                 avail = saturating_sub (r_end r) (r_base r) in
        if avail < need
        then alloc_scan pages (pmm\<lparr>cursor := Suc (cursor pmm)\<rparr>)
        else let base' = saturating_add (r_base r) need;
                 pmm' = pmm\<lparr>ranges := (ranges pmm)[cursor pmm := r\<lparr>r_base := base'\<rparr>]\<rparr> in
        Inr (Some (r_base r),
             if r_end r \<le> base' then pmm'\<lparr>cursor := Suc (cursor pmm)\<rparr> else pmm'))
      else Inr (None, pmm))"
  by pat_completeness auto
termination
  by (relation "measure (\<lambda>(pages, pmm). pm_len pmm - cursor pmm)") auto

declare alloc_scan.simps [simp del]

text \<open>The static \<open>PMM\<close>.\<close>

record pmm_state = machine +
  PMM :: "Pmm option"

definition pmm_init ::
  "MemoryRegion list \<Rightarrow> 'z pmm_state_scheme \<Rightarrow> (PmmStats option \<times> 'z pmm_state_scheme) outcome"
where
  "pmm_init regions s =
     and_then (pmm_build regions) (\<lambda>r. case r of
       None \<Rightarrow> Inr (None, s)
     | Some (pmm, stats) \<Rightarrow> Inr (Some stats, s\<lparr>PMM := Some pmm\<rparr>))"

definition alloc_pages ::
  "u64 \<Rightarrow> 'z pmm_state_scheme \<Rightarrow> (u64 option \<times> 'z pmm_state_scheme) outcome" where
  "alloc_pages pages s =
     (if pages = 0 then Inr (None, s)
      else case PMM s of
        None \<Rightarrow> Inr (None, s)
      | Some pmm \<Rightarrow>
          and_then (alloc_scan pages pmm) (\<lambda>(r, pmm'). Inr (r, s\<lparr>PMM := Some pmm'\<rparr>)))"

definition alloc_frame ::
  "'z pmm_state_scheme \<Rightarrow> (u64 option \<times> 'z pmm_state_scheme) outcome" where
  "alloc_frame s = alloc_pages 1 s"

end
