(* ===== verification/Pmm_Init.thy ===== *)
theory Pmm_Init
  imports Pmm
begin

text \<open>
  Correctness of the construction of the free-range table (\<^verbatim>\<open>pmm::init\<close>). Each array loop is
  related to a function on the list of live entries; the list functions are related to the set of
  byte addresses the entries cover. The result: the free addresses are exactly the page-rounded
  usable regions minus the page-rounded other regions minus the first MiB, the table is sorted,
  disjoint and page-aligned, and a map of at most 128 regions is never refused.
\<close>

section \<open>Sorting\<close>

lemma sort_shift_spec:
  assumes "j < length rs"
  shows "\<exists>k \<le> j. sort_shift key j rs =
      Inr (take (Suc k) rs @ drop k (take j rs) @ drop (Suc j) rs, k)
    \<and> (\<forall>r \<in> set (drop k (take j rs)). r_base key < r_base r)
    \<and> (k = 0 \<or> r_base (rs ! (k - 1)) \<le> r_base key)"
  using assms
proof (induction j arbitrary: rs)
  case 0
  then show ?case by (simp add: Cons_nth_drop_Suc take_Suc_conv_app_nth)
next
  case (Suc j)
  show ?case
  proof (cases "r_base key < r_base (rs ! j)")
    case True
    let ?rs = "rs[Suc j := rs ! j]"
    from Suc.prems Suc.IH [of ?rs] obtain k where k: "k \<le> j"
      "sort_shift key j ?rs = Inr (take (Suc k) ?rs @ drop k (take j ?rs) @ drop (Suc j) ?rs, k)"
      "\<forall>r \<in> set (drop k (take j ?rs)). r_base key < r_base r"
      "k = 0 \<or> r_base (?rs ! (k - 1)) \<le> r_base key"
      by auto
    have eqs: "take (Suc k) ?rs = take (Suc k) rs" "take j ?rs = take j rs"
      "drop (Suc j) ?rs = rs ! j # drop (Suc (Suc j)) rs"
      "drop k (take (Suc j) rs) = drop k (take j rs) @ [rs ! j]"
      using k(1) Suc.prems
      by (simp_all add: take_Suc_conv_app_nth drop_update_swap
          Cons_nth_drop_Suc [symmetric])
    show ?thesis
      using k True Suc.prems
      by (intro exI [of _ k]) (auto simp: eqs)
  next
    case False
    with Suc.prems show ?thesis
      by (intro exI [of _ "Suc j"]) (auto simp: linorder_not_less)
  qed
qed

abbreviation bases_sorted :: "Range list \<Rightarrow> bool" where
  "bases_sorted rs \<equiv> sorted (map r_base rs)"

lemma insert_step:
  assumes "i < length rs" "bases_sorted (take i rs)"
  shows "\<exists>rs1 k rs2. sort_shift (rs ! i) i rs = Inr (rs1, k) \<and> aset rs1 k (rs ! i) = Inr rs2
    \<and> length rs2 = length rs \<and> mset (take (Suc i) rs2) = mset (take (Suc i) rs)
    \<and> drop (Suc i) rs2 = drop (Suc i) rs \<and> bases_sorted (take (Suc i) rs2)"
proof -
  from sort_shift_spec [OF assms(1), of "rs ! i"] obtain k where k: "k \<le> i"
    "sort_shift (rs ! i) i rs = Inr (take (Suc k) rs @ drop k (take i rs) @ drop (Suc i) rs, k)"
    "\<forall>r \<in> set (drop k (take i rs)). r_base (rs ! i) < r_base r"
    "k = 0 \<or> r_base (rs ! (k - 1)) \<le> r_base (rs ! i)" by auto
  let ?rs1 = "take (Suc k) rs @ drop k (take i rs) @ drop (Suc i) rs"
  let ?pre = "take k rs @ rs ! i # drop k (take i rs)"
  have upd: "?rs1[k := rs ! i] = ?pre @ drop (Suc i) rs"
    using k(1) assms(1) by (simp add: take_Suc_conv_app_nth list_update_append)
  have len: "length ?pre = Suc i" using k(1) assms(1) by simp
  have split: "take i rs = take k rs @ drop k (take i rs)"
    using k(1) by (metis append_take_drop_id min.absorb1 take_take)
  have parts: "bases_sorted (take k rs)" "bases_sorted (drop k (take i rs))"
    "\<forall>a \<in> set (take k rs). \<forall>b \<in> set (drop k (take i rs)). r_base a \<le> r_base b"
    using assms(2) by (subst (asm) split, simp add: sorted_append)+
  have low: "r_base r \<le> r_base (rs ! i)" if "r \<in> set (take k rs)" for r
  proof -
    from that have "k \<noteq> 0" by (cases k) auto
    with that parts(1) have "r_base r \<le> r_base (rs ! (k - 1))"
      using k(1) assms(1) by (auto simp: in_set_conv_nth sorted_iff_nth_mono)
    with k(4) \<open>k \<noteq> 0\<close> show ?thesis by auto
  qed
  have sorted: "bases_sorted ?pre"
    using parts low k(3) by (auto simp: sorted_append intro: less_imp_le)
  have "mset (take i rs) = mset (take k rs) + mset (drop k (take i rs))"
    by (subst split) simp
  then have ms: "mset ?pre = mset (take (Suc i) rs)"
    using assms(1) by (simp add: take_Suc_conv_app_nth)
  define pre where "pre = ?pre"
  have "aset ?rs1 k (rs ! i) = Inr (pre @ drop (Suc i) rs)"
    using upd k(1) assms(1) by (simp add: pre_def)
  moreover have "length pre = Suc i" "mset pre = mset (take (Suc i) rs)" "bases_sorted pre"
    unfolding pre_def by (rule len, rule ms, rule sorted)
  ultimately show ?thesis using k(2) assms(1)
    by (intro exI [of _ ?rs1] exI [of _ k] exI [of _ "pre @ drop (Suc i) rs"]) simp
qed

lemma sort_from_spec:
  assumes "i \<le> len" "len \<le> length rs" "bases_sorted (take i rs)"
  shows "\<exists>rs'. sort_from i len rs = Inr rs' \<and> length rs' = length rs
    \<and> mset (take len rs') = mset (take len rs) \<and> drop len rs' = drop len rs
    \<and> bases_sorted (take len rs')"
  using assms
proof (induction "len - i" arbitrary: i rs)
  case 0
  then show ?case by (subst sort_from.simps) simp
next
  case (Suc d)
  then have i: "i < len" "i < length rs" by auto
  from insert_step [OF i(2) Suc.prems(3)] obtain rs1 k rs2 where s:
    "sort_shift (rs ! i) i rs = Inr (rs1, k)" "aset rs1 k (rs ! i) = Inr rs2"
    "length rs2 = length rs" "mset (take (Suc i) rs2) = mset (take (Suc i) rs)"
    "drop (Suc i) rs2 = drop (Suc i) rs" "bases_sorted (take (Suc i) rs2)" by blast
  have "d = len - Suc i" using Suc.hyps(2) by linarith
  from Suc.hyps(1) [OF this, of rs2] Suc.prems i s obtain rs' where r:
    "sort_from (Suc i) len rs2 = Inr rs'" "length rs' = length rs2"
    "mset (take len rs') = mset (take len rs2)" "drop len rs' = drop len rs2"
    "bases_sorted (take len rs')" by auto
  have tk: "take len xs = take (Suc i) xs @ take (len - Suc i) (drop (Suc i) xs)" for xs :: "Range list"
    using i(1) by (metis Suc_leI le_add_diff_inverse take_add)
  have "mset (take len rs2) = mset (take len rs)"
    by (subst (1 2) tk) (simp add: s)
  moreover have "drop len rs2 = drop len rs"
    using s(5) i(1) by (metis Suc_leI drop_drop le_add_diff_inverse2)
  ultimately show ?case
    using r s i by (subst sort_from.simps) simp
qed

lemma sort_by_base_spec:
  assumes "len \<le> length rs"
  shows "\<exists>rs'. sort_by_base rs len = Inr rs' \<and> length rs' = length rs
    \<and> mset (take len rs') = mset (take len rs) \<and> drop len rs' = drop len rs
    \<and> bases_sorted (take len rs')"
proof (cases "len = 0")
  case True
  then show ?thesis by (simp add: sort_by_base_def sort_from.simps)
next
  case False
  have "bases_sorted (take 1 rs)" by (cases rs) simp_all
  with False assms sort_from_spec [of 1 len rs] show ?thesis
    by (simp add: sort_by_base_def)
qed

section \<open>Address sets\<close>

definition span :: "Range \<Rightarrow> nat set" where
  "span r = {unat (r_base r)..<unat (r_end r)}"

definition cover :: "Range list \<Rightarrow> nat set" where
  "cover rs = (\<Union>r \<in> set rs. span r)"

lemma cover_simps [simp]:
  "cover [] = {}"
  "cover (r # rs) = span r \<union> cover rs"
  "cover (rs @ rs') = cover rs \<union> cover rs'"
  by (auto simp: cover_def)

lemma cover_mset: "mset rs = mset rs' \<Longrightarrow> cover rs = cover rs'"
  unfolding cover_def by (metis set_mset_mset)

definition nonempty :: "Range \<Rightarrow> bool" where
  "nonempty r \<longleftrightarrow> r_base r < r_end r"

definition separated :: "Range list \<Rightarrow> bool" where
  "separated rs \<longleftrightarrow> sorted_wrt (\<lambda>a b. r_end a \<le> r_base b) rs"

definition page_aligned :: "Range \<Rightarrow> bool" where
  "page_aligned r \<longleftrightarrow> 4096 dvd unat (r_base r) \<and> 4096 dvd unat (r_end r)"

section \<open>Merging\<close>

fun absorb :: "Range \<Rightarrow> Range list \<Rightarrow> Range \<times> Range list" where
  "absorb cur [] = (cur, [])"
| "absorb cur (r # rs) =
     (if r_base r \<le> r_end cur then absorb (cur\<lparr>r_end := max (r_end cur) (r_end r)\<rparr>) rs
      else (cur, r # rs))"

lemma absorb_length: "absorb cur rs = (c, rest) \<Longrightarrow> length rest \<le> length rs"
  by (induction cur rs rule: absorb.induct) (auto split: if_splits)

function merge_runs :: "Range list \<Rightarrow> Range list" where
  "merge_runs [] = []"
| "merge_runs (r # rs) = (case absorb r rs of (c, rest) \<Rightarrow> c # merge_runs rest)"
  by pat_completeness auto
termination
  by (relation "measure length") (auto dest!: absorb_length [OF sym])

lemma merge_absorb_eq:
  assumes "i \<le> len" "len \<le> length rs"
  shows "\<exists>c k. merge_absorb len cur i rs = Inr (c, k) \<and> i \<le> k \<and> k \<le> len
    \<and> absorb cur (drop i (take len rs)) = (c, drop k (take len rs))"
  using assms
proof (induction "len - i" arbitrary: i cur)
  case 0
  then show ?case by (subst merge_absorb.simps) simp
next
  case (Suc d)
  then have i: "i < len" "i < length rs" by auto
  then have dr: "drop i (take len rs) = rs ! i # drop (Suc i) (take len rs)"
    by (metis Cons_nth_drop_Suc length_take min_less_iff_conj nth_take)
  show ?case
  proof (cases "r_base (rs ! i) \<le> r_end cur")
    case True
    have "d = len - Suc i" using Suc.hyps(2) by linarith
    from Suc.hyps(1) [OF this, of "cur\<lparr>r_end := max (r_end cur) (r_end (rs ! i))\<rparr>"] Suc.prems i
    obtain c k where
      "merge_absorb len (cur\<lparr>r_end := max (r_end cur) (r_end (rs ! i))\<rparr>) (Suc i) rs = Inr (c, k)"
      "Suc i \<le> k" "k \<le> len"
      "absorb (cur\<lparr>r_end := max (r_end cur) (r_end (rs ! i))\<rparr>) (drop (Suc i) (take len rs))
        = (c, drop k (take len rs))" by auto
    with True i show ?thesis
      by (subst merge_absorb.simps) (auto simp: dr)
  next
    case False
    with i show ?thesis by (subst merge_absorb.simps) (simp add: dr)
  qed
qed

lemma merge_from_eq:
  assumes "out \<le> i" "i \<le> len" "len \<le> length rs"
  shows "\<exists>rs' n. merge_from len out i rs = Inr (rs', n) \<and> n \<le> len \<and> length rs' = length rs
    \<and> take n rs' = take out rs @ merge_runs (drop i (take len rs))"
  using assms
proof (induction "len - i" arbitrary: i out rs rule: less_induct)
  case less
  show ?case
  proof (cases "i < len")
    case False
    with less.prems show ?thesis by (subst merge_from.simps) simp
  next
    case True
    with less.prems have i: "i < length rs" "out < length rs" by auto
    then have dr: "drop i (take len rs) = rs ! i # drop (Suc i) (take len rs)"
      using True by (metis Cons_nth_drop_Suc length_take min_less_iff_conj nth_take)
    from merge_absorb_eq [of "Suc i" len rs "rs ! i"] True less.prems obtain c k where k:
      "merge_absorb len (rs ! i) (Suc i) rs = Inr (c, k)" "Suc i \<le> k" "k \<le> len"
      "absorb (rs ! i) (drop (Suc i) (take len rs)) = (c, drop k (take len rs))" by auto
    let ?rs = "rs[out := c]"
    have same: "drop k (take len ?rs) = drop k (take len rs)"
      using k(2) less.prems(1) by (simp add: drop_take drop_update_cancel)
    have "len - k < len - i" using True k(2,3) by linarith
    from less.hyps [OF this, of "Suc out" ?rs] k less.prems True obtain rs' n where r:
      "merge_from len (Suc out) k ?rs = Inr (rs', n)" "n \<le> len" "length rs' = length rs"
      "take n rs' = take (Suc out) ?rs @ merge_runs (drop k (take len rs))"
      by (auto simp: same)
    then show ?thesis
      using True i k by (subst merge_from.simps)
        (simp add: dr take_Suc_conv_app_nth)
  qed
qed

lemma merge_adjacent_eq:
  assumes "len \<le> length rs"
  shows "\<exists>rs' n. merge_adjacent rs len = Inr (rs', n) \<and> n \<le> len \<and> length rs' = length rs
    \<and> take n rs' = merge_runs (take len rs)"
  using merge_from_eq [of 0 0 len rs] assms by (auto simp: merge_adjacent_def)

lemma span_extend:
  assumes "r_base cur \<le> r_base r" "r_base r \<le> r_end cur"
  shows "span (cur\<lparr>r_end := max (r_end cur) (r_end r)\<rparr>) = span cur \<union> span r"
proof -
  have "unat (max (r_end cur) (r_end r)) = max (unat (r_end cur)) (unat (r_end r))"
    by (auto simp: max_def word_nat)
  with assms show ?thesis by (auto simp: span_def word_nat)
qed

lemma absorb_spec:
  assumes "absorb cur rs = (c, rest)" "bases_sorted (cur # rs)"
    "\<forall>r \<in> set (cur # rs). nonempty r"
  shows "span c \<union> cover rest = span cur \<union> cover rs \<and> nonempty c \<and> bases_sorted rest
    \<and> (\<forall>r \<in> set rest. nonempty r \<and> r_end c < r_base r) \<and> r_base c = r_base cur"
  using assms
proof (induction cur rs rule: absorb.induct)
  case (1 cur)
  then show ?case by simp
next
  case (2 cur r rs)
  let ?cur = "cur\<lparr>r_end := max (r_end cur) (r_end r)\<rparr>"
  show ?case
  proof (cases "r_base r \<le> r_end cur")
    case True
    have "span ?cur = span cur \<union> span r"
      using True "2.prems" by (intro span_extend) auto
    moreover have "bases_sorted (?cur # rs)" using "2.prems"(2) by simp
    moreover have "\<forall>r \<in> set (?cur # rs). nonempty r"
      using "2.prems"(3) by (auto simp: nonempty_def max_def)
    ultimately show ?thesis using "2.IH" [OF True] "2.prems"(1) True by auto
  next
    case False
    then have "\<forall>q \<in> set (r # rs). r_end cur < r_base q"
      using "2.prems"(2) less_le_trans by (fastforce simp: linorder_not_le)
    with False "2.prems" show ?thesis by auto
  qed
qed

lemma merge_runs_spec:
  assumes "bases_sorted rs" "\<forall>r \<in> set rs. nonempty r"
  shows "cover (merge_runs rs) = cover rs \<and> (\<forall>r \<in> set (merge_runs rs). nonempty r)
    \<and> sorted_wrt (\<lambda>a b. r_end a < r_base b) (merge_runs rs)
    \<and> (\<forall>lo. (\<forall>r \<in> set rs. lo < r_base r) \<longrightarrow> (\<forall>r \<in> set (merge_runs rs). lo < r_base r))"
  using assms
proof (induction rs rule: merge_runs.induct)
  case 1
  then show ?case by simp
next
  case (2 r rs)
  obtain c rest where a: "absorb r rs = (c, rest)" by fastforce
  from absorb_spec [OF a "2.prems"] have c: "span c \<union> cover rest = span r \<union> cover rs"
    "nonempty c" "bases_sorted rest" "\<forall>r \<in> set rest. nonempty r \<and> r_end c < r_base r"
    "r_base c = r_base r"
    by auto
  from "2.IH" [OF a [symmetric]] c have IH: "cover (merge_runs rest) = cover rest"
    "\<forall>r \<in> set (merge_runs rest). nonempty r"
    "sorted_wrt (\<lambda>a b. r_end a < r_base b) (merge_runs rest)"
    "\<And>lo. \<forall>r \<in> set rest. lo < r_base r \<Longrightarrow> \<forall>r \<in> set (merge_runs rest). lo < r_base r"
    by auto
  from IH(4) [of "r_end c"] c(4) have above: "\<forall>r \<in> set (merge_runs rest). r_end c < r_base r"
    by blast
  have "\<forall>q \<in> set (merge_runs (r # rs)). lo < r_base q" if "\<forall>q \<in> set (r # rs). lo < r_base q" for lo
    using that above c(2,5) by (auto simp: a nonempty_def intro: less_trans)
  moreover have "cover (merge_runs (r # rs)) = cover (r # rs)" using IH(1) c(1) by (simp add: a)
  moreover have "sorted_wrt (\<lambda>a b. r_end a < r_base b) (merge_runs (r # rs))"
    using IH(3) above by (simp add: a)
  moreover have "\<forall>q \<in> set (merge_runs (r # rs)). nonempty q"
    using IH(2) c(2) by (simp add: a)
  ultimately show ?case by blast
qed

section \<open>Subtracting a reserved range\<close>

definition carve :: "u64 \<Rightarrow> u64 \<Rightarrow> Range \<Rightarrow> Range list" where
  "carve rb re r =
     (if \<not> overlaps (r_base r) (r_end r) rb re then [r]
      else if rb \<le> r_base r \<and> r_end r \<le> re then []
      else if rb \<le> r_base r \<and> re < r_end r then [r\<lparr>r_base := re\<rparr>]
      else if r_base r < rb \<and> r_end r \<le> re then [r\<lparr>r_end := rb\<rparr>]
      else [\<lparr>r_base = r_base r, r_end = rb\<rparr>, \<lparr>r_base = re, r_end = r_end r\<rparr>])"

lemma shift_left_eq:
  assumes "0 < j" "j \<le> len" "len \<le> length rs"
  shows "shift_left j len rs =
    Inr (take (j - 1) rs @ drop j (take len rs) @ drop (len - 1) rs)"
  using assms
proof (induction "len - j" arbitrary: j rs)
  case 0
  then have "j = len" by simp
  then show ?case using 0 by (subst shift_left.simps) (simp add: drop_take)
next
  case (Suc d)
  then have j: "j < len" "j < length rs" "d = len - Suc j" by auto
  let ?rs = "rs[j - 1 := rs ! j]"
  have "shift_left (Suc j) len ?rs =
    Inr (take j ?rs @ drop (Suc j) (take len ?rs) @ drop (len - 1) ?rs)"
    using Suc.hyps(1) [OF j(3), of ?rs] Suc.prems j by simp
  moreover have "take j ?rs = take (j - 1) rs @ [rs ! j]"
    using Suc.prems(1) j(2) by (cases j) (simp_all add: take_Suc_conv_app_nth)
  moreover have "drop (Suc j) (take len ?rs) = drop (Suc j) (take len rs)"
    by (simp add: drop_take)
  moreover have "drop (len - 1) ?rs = drop (len - 1) rs"
    using j(1) Suc.prems(1) by simp
  moreover have "drop j (take len rs) = rs ! j # drop (Suc j) (take len rs)"
    using j by (metis Cons_nth_drop_Suc length_take min_less_iff_conj nth_take)
  ultimately show ?case using j by (subst shift_left.simps) simp
qed

lemma shift_right_eq:
  assumes "stop \<le> j" "j < length rs"
  shows "shift_right stop j rs =
    Inr (take (Suc stop) rs @ drop stop (take j rs) @ drop (Suc j) rs)"
  using assms
proof (induction j arbitrary: rs)
  case 0
  then show ?case by (cases rs) simp_all
next
  case (Suc j)
  show ?case
  proof (cases "stop < Suc j")
    case True
    let ?rs = "rs[Suc j := rs ! j]"
    have eqs: "take (Suc stop) ?rs = take (Suc stop) rs" "take j ?rs = take j rs"
      "drop (Suc j) ?rs = rs ! j # drop (Suc (Suc j)) rs"
      "drop stop (take (Suc j) rs) = drop stop (take j rs) @ [rs ! j]"
      using True Suc.prems
      by (simp_all add: take_Suc_conv_app_nth Cons_nth_drop_Suc [symmetric])
    show ?thesis
      using True Suc.prems Suc.IH [of ?rs] by (simp add: eqs)
  next
    case False
    with Suc.prems have "stop = Suc j" by simp
    with Suc.prems show ?thesis by simp
  qed
qed

lemma subtract_from_eq:
  assumes "i \<le> len" "len \<le> length rs"
  shows "\<exists>ok rs' n. subtract_from rb re i len rs = Inr (ok, rs', n) \<and> n \<le> length rs
    \<and> length rs' = length rs
    \<and> (ok \<longrightarrow> take n rs' = take i rs @ concat (map (carve rb re) (drop i (take len rs))))
    \<and> (\<not> ok \<longrightarrow> n = length rs)"
  using assms
proof (induction "len - i" arbitrary: i len rs rule: less_induct)
  case less
  show ?case
  proof (cases "i < len")
    case False
    with less.prems show ?thesis by (subst subtract_from.simps) auto
  next
    case True
    with less.prems have i: "i < length rs" by simp
    let ?r = "rs ! i"
    let ?P = "\<lambda>i len rs. \<exists>ok rs' n. subtract_from rb re i len rs = Inr (ok, rs', n)
      \<and> n \<le> length rs \<and> length rs' = length rs
      \<and> (ok \<longrightarrow> take n rs' = take i rs @ concat (map (carve rb re) (drop i (take len rs))))
      \<and> (\<not> ok \<longrightarrow> n = length rs)"
    have dr: "drop i (take len rs) = ?r # drop (Suc i) (take len rs)"
      using True i by (metis Cons_nth_drop_Suc length_take min_less_iff_conj nth_take)
    consider (apart) "\<not> overlaps (r_base ?r) (r_end ?r) rb re"
      | (inside) "overlaps (r_base ?r) (r_end ?r) rb re" "rb \<le> r_base ?r \<and> r_end ?r \<le> re"
      | (head) "overlaps (r_base ?r) (r_end ?r) rb re" "rb \<le> r_base ?r \<and> re < r_end ?r"
      | (rear) "overlaps (r_base ?r) (r_end ?r) rb re" "r_base ?r < rb \<and> r_end ?r \<le> re"
      | (full) "overlaps (r_base ?r) (r_end ?r) rb re" "r_base ?r < rb \<and> re < r_end ?r"
          "length rs \<le> len"
      | (middle) "overlaps (r_base ?r) (r_end ?r) rb re" "r_base ?r < rb \<and> re < r_end ?r"
          "len < length rs"
      by fastforce
    then show ?thesis
    proof cases
      case apart
      have "?P (Suc i) len rs" using less.hyps [of len "Suc i" rs] True less.prems by simp
      with apart True i show ?thesis
        by (subst subtract_from.simps) (auto simp: dr carve_def take_Suc_conv_app_nth)
    next
      case inside
      let ?rs = "take i rs @ drop (Suc i) (take len rs) @ drop (len - 1) rs"
      have sh: "shift_left (Suc i) len rs = Inr ?rs"
        using shift_left_eq [of "Suc i" len rs] True less.prems by simp
      have len': "length ?rs = length rs" using True less.prems by simp
      have tk: "take i ?rs = take i rs" using i by simp
      have "take (len - 1) ?rs = take i rs @ drop (Suc i) (take len rs)"
        using True less.prems by simp
      then have rest: "drop i (take (len - 1) ?rs) = drop (Suc i) (take len rs)"
        using i by simp
      have "?P i (len - 1) ?rs"
        using less.hyps [of "len - 1" i ?rs] True less.prems len' by simp
      with inside True i sh len' tk rest show ?thesis
        by (subst subtract_from.simps) (auto simp: dr carve_def)
    next
      case head
      let ?rs = "rs[i := ?r\<lparr>r_base := re\<rparr>]"
      have "drop (Suc i) (take len ?rs) = drop (Suc i) (take len rs)" by (simp add: drop_take)
      moreover have "?P (Suc i) len ?rs"
        using less.hyps [of len "Suc i" ?rs] True less.prems by simp
      ultimately show ?thesis
        using head True i
        by (subst subtract_from.simps) (auto simp: dr carve_def take_Suc_conv_app_nth)
    next
      case rear
      let ?rs = "rs[i := ?r\<lparr>r_end := rb\<rparr>]"
      have "drop (Suc i) (take len ?rs) = drop (Suc i) (take len rs)" by (simp add: drop_take)
      moreover have "?P (Suc i) len ?rs"
        using less.hyps [of len "Suc i" ?rs] True less.prems by simp
      ultimately show ?thesis
        using rear True i
        by (subst subtract_from.simps) (auto simp: dr carve_def take_Suc_conv_app_nth)
    next
      case full
      with True i less.prems show ?thesis
        by (subst subtract_from.simps) auto
    next
      case middle
      let ?l = "\<lparr>r_base = r_base ?r, r_end = rb\<rparr>"
      let ?h = "\<lparr>r_base = re, r_end = r_end ?r\<rparr>"
      let ?rs1 = "rs[i := ?l]"
      let ?rs2 = "take (i + 2) ?rs1 @ drop (Suc i) (take len rs) @ drop (Suc len) rs"
      let ?rs3 = "?rs2[Suc i := ?h]"
      have sh: "shift_right (Suc i) len ?rs1 = Inr ?rs2"
        using shift_right_eq [of "Suc i" len ?rs1] True middle(3) by (simp add: drop_take)
      have len': "length ?rs2 = length rs" using True middle(3) less.prems by simp
      have tk: "take (i + 2) ?rs3 = take i rs @ [?l, ?h]"
        using True middle(3) i by (simp add: take_update_swap take_Suc_conv_app_nth list_update_append)
      have rest: "drop (i + 2) (take (Suc len) ?rs3) = drop (Suc i) (take len rs)"
        using True middle(3) i by (simp add: drop_take)
      have "?P (i + 2) (Suc len) ?rs3"
        using less.hyps [of "Suc len" "i + 2" ?rs3] True middle(3) less.prems len' by simp
      with middle True i sh len' tk rest show ?thesis
        by (subst subtract_from.simps) (auto simp: dr carve_def)
    qed
  qed
qed

lemma subtract_reserved_eq:
  assumes "len \<le> length rs"
  obtains ok rs' n where "subtract_reserved rs len rb re = Inr (ok, rs', n)"
    "n \<le> length rs" "length rs' = length rs"
    "ok \<Longrightarrow> take n rs' = concat (map (carve rb re) (take len rs))"
    "\<not> ok \<Longrightarrow> n = length rs"
  using subtract_from_eq [of 0 len rs rb re] assms by (auto simp: subtract_reserved_def)

lemma carve_cover: "rb < re \<Longrightarrow> cover (carve rb re r) = span r - {unat rb..<unat re}"
  unfolding carve_def by (auto simp: span_def overlaps_def word_nat)

lemma carve_piece:
  assumes "p \<in> set (carve rb re r)" "nonempty r" "rb < re"
  shows "nonempty p" "r_base r \<le> r_base p" "r_end p \<le> r_end r"
  using assms unfolding carve_def by (auto simp: nonempty_def overlaps_def split: if_splits)

lemma carve_aligned:
  assumes "p \<in> set (carve rb re r)" "page_aligned r" "4096 dvd unat rb" "4096 dvd unat re"
  shows "page_aligned p"
  using assms unfolding carve_def by (auto simp: page_aligned_def split: if_splits)

lemma carve_separated: "rb < re \<Longrightarrow> separated (carve rb re r)"
  unfolding carve_def by (auto simp: separated_def)

text \<open>What the table satisfies between the steps of the initialisation.\<close>

definition good :: "Range list \<Rightarrow> bool" where
  "good rs \<longleftrightarrow> separated rs \<and> (\<forall>r \<in> set rs. nonempty r \<and> page_aligned r)"

lemma carve_all_cover:
  "rb < re \<Longrightarrow> cover (concat (map (carve rb re) rs)) = cover rs - {unat rb..<unat re}"
  by (induction rs) (auto simp: carve_cover)

lemma carve_all_good:
  assumes "good rs" "rb < re" "4096 dvd unat rb" "4096 dvd unat re"
  shows "good (concat (map (carve rb re) rs))"
  using assms(1)
proof (induction rs)
  case Nil
  then show ?case by (simp add: good_def)
next
  case (Cons r rs)
  from Cons.prems have r: "nonempty r" "page_aligned r" "\<forall>q \<in> set rs. r_end r \<le> r_base q"
    "\<forall>q \<in> set rs. nonempty q" "good rs"
    by (auto simp: good_def separated_def)
  have cross: "r_end p \<le> r_base q"
    if "p \<in> set (carve rb re r)" "q \<in> set (concat (map (carve rb re) rs))" for p q
  proof -
    from that(2) obtain q' where "q' \<in> set rs" "q \<in> set (carve rb re q')" by auto
    with carve_piece(2) [of q rb re q'] carve_piece(3) [OF that(1)] r assms(2) show ?thesis
      by (meson order_trans)
  qed
  have "good (carve rb re r)"
    using carve_separated [OF assms(2)] carve_piece(1) [OF _ r(1) assms(2)]
      carve_aligned [OF _ r(2) assms(3,4)] by (simp add: good_def)
  then show ?case
    using Cons.IH [OF r(5)] cross unfolding good_def separated_def
    by (simp add: sorted_wrt_append) blast
qed

section \<open>Initialisation\<close>

text \<open>The address sets the memory map describes, rounded to pages as the code rounds them.\<close>

definition region_end :: "MemoryRegion \<Rightarrow> nat" where
  "region_end r = min (unat (mr_base r) + unat (mr_len r)) (2 ^ 64 - 1)"

definition usable_span :: "MemoryRegion \<Rightarrow> nat set" where
  "usable_span r = {(unat (mr_base r) + 4095) div 4096 * 4096 ..< region_end r div 4096 * 4096}"

definition reserved_span :: "MemoryRegion \<Rightarrow> nat set" where
  "reserved_span r = {unat (mr_base r) div 4096 * 4096 ..< (region_end r + 4095) div 4096 * 4096}"

definition is_usable :: "MemoryRegion \<Rightarrow> bool" where
  "is_usable r \<longleftrightarrow> mr_kind r = kind_as_u32 KUsable"

definition usable_addrs :: "MemoryRegion list \<Rightarrow> nat set" where
  "usable_addrs regions = (\<Union>r \<in> {r \<in> set regions. is_usable r}. usable_span r)"

definition reserved_addrs :: "MemoryRegion list \<Rightarrow> nat set" where
  "reserved_addrs regions =
     (\<Union>r \<in> {r \<in> set regions. \<not> is_usable r \<and> mr_len r \<noteq> 0}. reserved_span r)"

lemma unat_region_end: "unat (saturating_add (mr_base r) (mr_len r)) = region_end r"
  by (simp add: word_nat region_end_def)

lemma usable_addrs_Cons:
  "usable_addrs (r # regions) =
     (if is_usable r then usable_span r else {}) \<union> usable_addrs regions"
  by (auto simp: usable_addrs_def)

lemma reserved_addrs_Cons:
  "reserved_addrs (r # regions) =
     (if \<not> is_usable r \<and> mr_len r \<noteq> 0 then reserved_span r else {}) \<union> reserved_addrs regions"
  by (auto simp: reserved_addrs_def)

lemma usable_addrs_Nil [simp]: "usable_addrs [] = {}"
  by (simp add: usable_addrs_def)

lemma reserved_addrs_Nil [simp]: "reserved_addrs [] = {}"
  by (simp add: reserved_addrs_def)

lemma collect_usable_spec:
  assumes "collect_usable regions rs len acc = Inr (Some (rs', len', acc'))" "len \<le> length rs"
    "\<forall>r \<in> set (take len rs). nonempty r \<and> page_aligned r"
  shows "length rs' = length rs \<and> len' \<le> length rs
    \<and> (\<forall>r \<in> set (take len' rs'). nonempty r \<and> page_aligned r)
    \<and> cover (take len' rs') = cover (take len rs) \<union> usable_addrs regions"
  using assms
proof (induction regions arbitrary: rs len acc)
  case Nil
  then show ?case by simp
next
  case (Cons r regions)
  show ?case
  proof (cases "is_usable r")
    case False
    with Cons.prems(1) have "collect_usable regions rs len acc = Inr (Some (rs', len', acc'))"
      by (simp add: is_usable_def)
    from Cons.IH [OF this Cons.prems(2,3)] False show ?thesis by (simp add: usable_addrs_Cons)
  next
    case True
    then have k: "mr_kind r = kind_as_u32 KUsable" by (simp add: is_usable_def)
    let ?e = "align_down (saturating_add (mr_base r) (mr_len r)) PAGE_SIZE"
    from Cons.prems(1) k obtain base where b: "align_up (mr_base r) PAGE_SIZE = Inr base"
      by (auto simp: and_then_eq_Inr_iff)
    note ub = align_up_page_Inr(1) [OF b]
    have us: "usable_span r = {unat base ..< unat ?e}"
      by (simp add: usable_span_def ub unat_align_down_page unat_region_end)
    show ?thesis
    proof (cases "?e \<le> base")
      case True
      with Cons.prems(1) k b have "collect_usable regions rs len acc = Inr (Some (rs', len', acc'))"
        by simp
      from Cons.IH [OF this Cons.prems(2,3)] True us \<open>is_usable r\<close> show ?thesis
        by (simp add: usable_addrs_Cons word_le_nat_alt)
    next
      case False
      let ?r = "\<lparr>r_base = base, r_end = ?e\<rparr>"
      from Cons.prems(1) k b False have l: "len < length rs"
        and rec: "collect_usable regions (rs[len := ?r]) (Suc len)
          (saturating_add acc (?e - base)) = Inr (Some (rs', len', acc'))"
        by (auto simp: Let_def split: if_splits)
      have tk: "take (Suc len) (rs[len := ?r]) = take len rs @ [?r]"
        using l by (simp add: take_Suc_conv_app_nth)
      have "nonempty ?r" using False by (simp add: nonempty_def)
      moreover have "page_aligned ?r"
        by (simp add: page_aligned_def ub unat_align_down_page)
      ultimately have "\<forall>q \<in> set (take (Suc len) (rs[len := ?r])). nonempty q \<and> page_aligned q"
        using Cons.prems(3) unfolding tk by auto
      from Cons.IH [OF rec _ this] l us \<open>is_usable r\<close> show ?thesis
        unfolding tk by (auto simp: usable_addrs_Cons span_def)
    qed
  qed
qed

lemma subtract_regions_spec:
  assumes "subtract_regions regions rs len = Inr (Some (rs', len'))" "len \<le> length rs"
    "good (take len rs)"
  shows "length rs' = length rs \<and> len' \<le> length rs \<and> good (take len' rs')
    \<and> cover (take len' rs') = cover (take len rs) - reserved_addrs regions"
  using assms
proof (induction regions arbitrary: rs len)
  case Nil
  then show ?case by simp
next
  case (Cons r regions)
  show ?case
  proof (cases "is_usable r \<or> mr_len r = 0")
    case True
    with Cons.prems(1) have "subtract_regions regions rs len = Inr (Some (rs', len'))"
      by (auto simp: is_usable_def split: if_splits)
    from Cons.IH [OF this Cons.prems(2,3)] True show ?thesis by (auto simp: reserved_addrs_Cons)
  next
    case False
    then have k: "mr_kind r \<noteq> kind_as_u32 KUsable" "mr_len r \<noteq> 0" by (auto simp: is_usable_def)
    let ?b = "align_down (mr_base r) PAGE_SIZE"
    from Cons.prems(1) k obtain e where
      e: "align_up (saturating_add (mr_base r) (mr_len r)) PAGE_SIZE = Inr e"
      by (auto simp: Let_def and_then_eq_Inr_iff)
    note ue = align_up_page_Inr(1) [OF e]
    have rs_eq: "reserved_span r = {unat ?b ..< unat e}"
      by (simp add: reserved_span_def ue unat_align_down_page unat_region_end)
    show ?thesis
    proof (cases "e \<le> ?b")
      case True
      with Cons.prems(1) k e have "subtract_regions regions rs len = Inr (Some (rs', len'))"
        by (simp add: Let_def)
      from Cons.IH [OF this Cons.prems(2,3)] True rs_eq show ?thesis
        by (auto simp: reserved_addrs_Cons word_le_nat_alt)
    next
      case False
      obtain ok rs1 n where s: "subtract_reserved rs len ?b e = Inr (ok, rs1, n)"
        "n \<le> length rs" "length rs1 = length rs"
        "ok \<Longrightarrow> take n rs1 = concat (map (carve ?b e) (take len rs))"
        using subtract_reserved_eq [OF Cons.prems(2)] by metis
      from Cons.prems(1) k e False s(1) have ok: ok
        and rec: "subtract_regions regions rs1 n = Inr (Some (rs', len'))"
        by (auto simp: Let_def split: if_splits)
      have lt: "?b < e" using False by simp
      have dvd: "4096 dvd unat ?b" "4096 dvd unat e" by (simp_all add: unat_align_down_page ue)
      have "good (take n rs1)"
        unfolding s(4) [OF ok] by (rule carve_all_good [OF Cons.prems(3) lt dvd])
      from Cons.IH [OF rec _ this] s(2,3) show ?thesis
        using \<open>\<not> (is_usable r \<or> mr_len r = 0)\<close> lt
        by (auto simp: s(4) [OF ok] carve_all_cover rs_eq reserved_addrs_Cons)
    qed
  qed
qed

lemma drop_empty_eq:
  assumes "out \<le> i" "i \<le> len" "len \<le> length rs"
  shows "\<exists>rs' n. drop_empty i len out rs = Inr (rs', n) \<and> n \<le> len \<and> length rs' = length rs
    \<and> take n rs' = take out rs @ filter nonempty (drop i (take len rs))"
  using assms
proof (induction "len - i" arbitrary: i out rs)
  case 0
  then show ?case by (subst drop_empty.simps) simp
next
  case (Suc d)
  then have i: "i < len" "i < length rs" "out < length rs" "d = len - Suc i" by auto
  then have dr: "drop i (take len rs) = rs ! i # drop (Suc i) (take len rs)"
    by (metis Cons_nth_drop_Suc length_take min_less_iff_conj nth_take)
  show ?case
  proof (cases "nonempty (rs ! i)")
    case True
    let ?rs = "rs[out := rs ! i]"
    have same: "drop (Suc i) (take len ?rs) = drop (Suc i) (take len rs)"
      using Suc.prems(1) by (simp add: drop_take)
    from Suc.hyps(1) [OF i(4), of "Suc out" ?rs] Suc.prems i True same show ?thesis
      by (subst drop_empty.simps) (auto simp: dr take_Suc_conv_app_nth nonempty_def)
  next
    case False
    from Suc.hyps(1) [OF i(4), of out rs] Suc.prems i False show ?thesis
      by (subst drop_empty.simps) (auto simp: dr nonempty_def)
  qed
qed

lemma finite_cover [simp]: "finite (cover rs)"
  by (simp add: cover_def span_def)

lemma cover_below: "cover rs \<subseteq> {..<2 ^ 64 - 1}"
proof
  fix a
  assume "a \<in> cover rs"
  then obtain r :: Range where "a < unat (r_end r)" by (auto simp: cover_def span_def)
  then show "a \<in> {..<2 ^ 64 - 1}" using unat_u64_lt [of "r_end r"] by simp
qed

lemma card_cover_bound: "card (cover rs) < 2 ^ 64"
  using card_mono [OF _ cover_below, of rs] by simp

lemma card_cover_Cons:
  assumes "separated (r # rs)" "\<forall>q \<in> set (r # rs). nonempty q"
  shows "card (cover (r # rs)) = (unat (r_end r) - unat (r_base r)) + card (cover rs)"
proof -
  have "span r \<inter> cover rs = {}"
    using assms by (fastforce simp: separated_def cover_def span_def word_nat)
  moreover have "finite (span r)" "card (span r) = unat (r_end r) - unat (r_base r)"
    by (simp_all add: span_def)
  ultimately show ?thesis by (simp add: card_Un_disjoint)
qed

lemma absorb_aligned:
  assumes "absorb cur rs = (c, rest)" "\<forall>r \<in> set (cur # rs). page_aligned r"
  shows "page_aligned c \<and> (\<forall>r \<in> set rest. page_aligned r)"
  using assms
proof (induction cur rs rule: absorb.induct)
  case (2 cur r rs)
  then show ?case
    by (auto simp: page_aligned_def max_def split: if_splits)
qed simp

lemma merge_runs_aligned:
  "\<forall>r \<in> set rs. page_aligned r \<Longrightarrow> \<forall>r \<in> set (merge_runs rs). page_aligned r"
proof (induction rs rule: merge_runs.induct)
  case (2 r rs)
  obtain c rest where a: "absorb r rs = (c, rest)" by fastforce
  with absorb_aligned [OF a "2.prems"] "2.IH" [OF a [symmetric]] show ?case by simp
qed simp

lemma merge_adjacent_good:
  assumes "len \<le> length rs" "bases_sorted (take len rs)"
    "\<forall>r \<in> set (take len rs). nonempty r \<and> page_aligned r"
  obtains rs' n where "merge_adjacent rs len = Inr (rs', n)" "n \<le> len" "length rs' = length rs"
    "good (take n rs')" "cover (take n rs') = cover (take len rs)"
proof -
  from merge_adjacent_eq [OF assms(1)] obtain rs' n where m:
    "merge_adjacent rs len = Inr (rs', n)" "n \<le> len" "length rs' = length rs"
    "take n rs' = merge_runs (take len rs)" by blast
  note spec = merge_runs_spec [OF assms(2)]
  have "separated (merge_runs (take len rs))"
    using spec assms(3) unfolding separated_def
    by (auto elim!: sorted_wrt_mono_rel [rotated] intro: less_imp_le)
  then have "good (take n rs')"
    using spec merge_runs_aligned [of "take len rs"] assms(3) by (simp add: good_def m(4))
  with m spec assms(3) that show thesis by simp
qed

lemma sum_free_eq:
  assumes "i \<le> len" "len \<le> length rs" "good (drop i (take len rs))"
    "unat acc + card (cover (drop i (take len rs))) < 2 ^ 64"
  shows "\<exists>x. sum_free i len acc rs = Inr x
    \<and> unat x = unat acc + card (cover (drop i (take len rs)))"
  using assms
proof (induction "len - i" arbitrary: i acc)
  case 0
  then show ?case by (subst sum_free.simps) simp
next
  case (Suc d)
  then have i: "i < len" "i < length rs" "d = len - Suc i" by auto
  let ?r = "rs ! i" and ?rest = "drop (Suc i) (take len rs)"
  have dr: "drop i (take len rs) = ?r # ?rest"
    using i by (metis Cons_nth_drop_Suc length_take min_less_iff_conj nth_take)
  have good: "nonempty ?r" "good ?rest" and
    card: "card (cover (?r # ?rest)) = (unat (r_end ?r) - unat (r_base ?r)) + card (cover ?rest)"
    using Suc.prems(3) card_cover_Cons [of ?r ?rest] unfolding dr
    by (auto simp: good_def separated_def)
  have le: "r_base ?r \<le> r_end ?r" using good(1) by (simp add: nonempty_def)
  let ?acc = "saturating_add acc (r_end ?r - r_base ?r)"
  have ua: "unat ?acc = unat acc + (unat (r_end ?r) - unat (r_base ?r))"
    using Suc.prems(4) card by (simp add: dr word_nat unat_sub [OF le])
  from Suc.hyps(1) [OF i(3), of ?acc] Suc.prems(2,4) good(2) i ua card
  obtain x where "sum_free (Suc i) len ?acc rs = Inr x" "unat x = unat ?acc + card (cover ?rest)"
    by (auto simp: dr)
  then show ?case
    using i le ua card by (subst sum_free.simps) (simp add: dr sub_chk_def)
qed

section \<open>The manager after initialisation\<close>

definition live :: "Pmm \<Rightarrow> Range list" where
  "live p = drop (cursor p) (take (pm_len p) (ranges p))"

definition free_addrs :: "Pmm \<Rightarrow> nat set" where
  "free_addrs p = cover (live p)"

definition pmm_wf :: "Pmm \<Rightarrow> bool" where
  "pmm_wf p \<longleftrightarrow> length (ranges p) = MAX_RANGES \<and> pm_len p \<le> MAX_RANGES \<and> cursor p \<le> pm_len p
     \<and> separated (live p) \<and> (\<forall>r \<in> set (live p). r_base r \<le> r_end r \<and> page_aligned r)"

section \<open>Initialisation succeeds on maps that fit the table\<close>

lemma subtract_from_apart:
  assumes "i \<le> len" "len \<le> length rs"
    "\<forall>r \<in> set (drop i (take len rs)). \<not> overlaps (r_base r) (r_end r) rb re"
  shows "subtract_from rb re i len rs = Inr (True, rs, len)"
  using assms
proof (induction "len - i" arbitrary: i)
  case 0
  then show ?case by (subst subtract_from.simps) simp
next
  case (Suc d)
  then have i: "i < len" "i < length rs" "d = len - Suc i" by auto
  then have "drop i (take len rs) = rs ! i # drop (Suc i) (take len rs)"
    by (metis Cons_nth_drop_Suc length_take min_less_iff_conj nth_take)
  with Suc.prems Suc.hyps(1) [OF i(3)] i show ?case by (subst subtract_from.simps) simp
qed

lemma subtract_from_fits:
  assumes "i \<le> len" "len < length rs" "rb < re" "separated (drop i (take len rs))"
    "\<forall>r \<in> set (drop i (take len rs)). nonempty r"
  shows "\<exists>rs' n. subtract_from rb re i len rs = Inr (True, rs', n) \<and> n \<le> Suc len"
  using assms
proof (induction "len - i" arbitrary: i len rs rule: less_induct)
  case less
  show ?case
  proof (cases "i < len")
    case False
    with less.prems show ?thesis by (subst subtract_from.simps) auto
  next
    case True
    with less.prems have i: "i < length rs" by simp
    let ?r = "rs ! i"
    have dr: "drop i (take len rs) = ?r # drop (Suc i) (take len rs)"
      using True i by (metis Cons_nth_drop_Suc length_take min_less_iff_conj nth_take)
    from less.prems(4,5) have r: "nonempty ?r" "separated (drop (Suc i) (take len rs))"
      "\<forall>q \<in> set (drop (Suc i) (take len rs)). nonempty q \<and> r_end ?r \<le> r_base q"
      unfolding dr by (auto simp: separated_def)
    consider (apart) "\<not> overlaps (r_base ?r) (r_end ?r) rb re"
      | (inside) "overlaps (r_base ?r) (r_end ?r) rb re" "rb \<le> r_base ?r \<and> r_end ?r \<le> re"
      | (head) "overlaps (r_base ?r) (r_end ?r) rb re" "rb \<le> r_base ?r \<and> re < r_end ?r"
      | (rear) "overlaps (r_base ?r) (r_end ?r) rb re" "r_base ?r < rb \<and> r_end ?r \<le> re"
      | (middle) "overlaps (r_base ?r) (r_end ?r) rb re" "r_base ?r < rb \<and> re < r_end ?r"
      by fastforce
    then show ?thesis
    proof cases
      case apart
      with less.hyps [of len "Suc i" rs] less.prems True i r show ?thesis
        by (subst subtract_from.simps) auto
    next
      case inside
      let ?rs = "take i rs @ drop (Suc i) (take len rs) @ drop (len - 1) rs"
      have sh: "shift_left (Suc i) len rs = Inr ?rs"
        using shift_left_eq [of "Suc i" len rs] True less.prems by simp
      have "take (len - 1) ?rs = take i rs @ drop (Suc i) (take len rs)"
        using True less.prems by simp
      then have rest: "drop i (take (len - 1) ?rs) = drop (Suc i) (take len rs)"
        using i by simp
      have "len - 1 - i < len - i" "i \<le> len - 1" "len - 1 < length ?rs"
        using True less.prems by simp_all
      from less.hyps [OF this less.prems(3)] r(2,3) rest True
      have "\<exists>rs' n. subtract_from rb re i (len - 1) ?rs = Inr (True, rs', n) \<and> n \<le> Suc len"
        by (metis Suc_diff_1 le_SucI less_nat_zero_code neq0_conv)
      with True inside sh i show ?thesis
        by (subst subtract_from.simps) auto
    next
      case head
      let ?rs = "rs[i := ?r\<lparr>r_base := re\<rparr>]"
      have "drop (Suc i) (take len ?rs) = drop (Suc i) (take len rs)" by (simp add: drop_take)
      with less.hyps [of len "Suc i" ?rs] less.prems True i r head show ?thesis
        by (subst subtract_from.simps) auto
    next
      case rear
      let ?rs = "rs[i := ?r\<lparr>r_end := rb\<rparr>]"
      have "drop (Suc i) (take len ?rs) = drop (Suc i) (take len rs)" by (simp add: drop_take)
      with less.hyps [of len "Suc i" ?rs] less.prems True i r rear show ?thesis
        by (subst subtract_from.simps) auto
    next
      case middle
      let ?l = "\<lparr>r_base = r_base ?r, r_end = rb\<rparr>"
      let ?h = "\<lparr>r_base = re, r_end = r_end ?r\<rparr>"
      let ?rs1 = "rs[i := ?l]"
      let ?rs2 = "take (i + 2) ?rs1 @ drop (Suc i) (take len rs) @ drop (Suc len) rs"
      let ?rs3 = "?rs2[Suc i := ?h]"
      have sh: "shift_right (Suc i) len ?rs1 = Inr ?rs2"
        using shift_right_eq [of "Suc i" len ?rs1] True less.prems(2) by (simp add: drop_take)
      have rest: "drop (i + 2) (take (Suc len) ?rs3) = drop (Suc i) (take len rs)"
        using True less.prems(2) i by (simp add: drop_take)
      have "subtract_from rb re (i + 2) (Suc len) ?rs3 = Inr (True, ?rs3, Suc len)"
      proof (rule subtract_from_apart)
        show "\<forall>q \<in> set (drop (i + 2) (take (Suc len) ?rs3)).
          \<not> overlaps (r_base q) (r_end q) rb re"
          unfolding rest using r(3) middle(2) by (fastforce simp: overlaps_def)
      qed (use True less.prems(2) in simp_all)
      with middle True i sh less.prems(2) show ?thesis
        by (subst subtract_from.simps) auto
    qed
  qed
qed

lemma collect_usable_fits:
  assumes "len + length (filter is_usable regions) \<le> length rs"
    "\<forall>r \<in> set regions. unat (mr_base r) + 4095 < 2 ^ 64"
  shows "\<exists>rs' n acc'. collect_usable regions rs len acc = Inr (Some (rs', n, acc'))
    \<and> n \<le> len + length (filter is_usable regions)"
  using assms
proof (induction regions arbitrary: rs len acc)
  case Nil
  then show ?case by simp
next
  case (Cons r regions)
  show ?case
  proof (cases "is_usable r")
    case False
    with Cons show ?thesis by (simp add: is_usable_def)
  next
    case True
    from Cons.prems(2) obtain base where b: "align_up (mr_base r) PAGE_SIZE = Inr base"
      using align_up_page_Inl [of "mr_base r"] by (cases "align_up (mr_base r) PAGE_SIZE") auto
    let ?e = "align_down (saturating_add (mr_base r) (mr_len r)) PAGE_SIZE"
    let ?acc = "saturating_add acc (?e - base)"
    let ?rs = "rs[len := \<lparr>r_base = base, r_end = ?e\<rparr>]"
    from Cons.IH [of len rs acc] Cons.prems True
    have skip: "\<exists>rs' n acc'. collect_usable regions rs len acc = Inr (Some (rs', n, acc'))
      \<and> n \<le> len + length (filter is_usable (r # regions))" by fastforce
    from Cons.IH [of "Suc len" ?rs ?acc] Cons.prems True
    have add: "\<exists>rs' n acc'. collect_usable regions ?rs (Suc len) ?acc = Inr (Some (rs', n, acc'))
      \<and> n \<le> len + length (filter is_usable (r # regions))" by fastforce
    from Cons.prems(1) True have "len < length rs" by simp
    moreover from True have "mr_kind r = kind_as_u32 KUsable" by (simp add: is_usable_def)
    ultimately show ?thesis using skip add b by (auto simp: Let_def)
  qed
qed

lemma subtract_regions_fits:
  assumes "len + length (filter (Not \<circ> is_usable) regions) \<le> length rs" "good (take len rs)"
    "\<forall>r \<in> set regions. region_end r + 4095 < 2 ^ 64"
  shows "\<exists>x. subtract_regions regions rs len = Inr (Some x)"
  using assms
proof (induction regions arbitrary: rs len)
  case Nil
  then show ?case by simp
next
  case (Cons r regions)
  show ?case
  proof (cases "is_usable r")
    case True
    with Cons show ?thesis by (simp add: is_usable_def)
  next
    case False
    from Cons.prems(3) obtain e where
      e: "align_up (saturating_add (mr_base r) (mr_len r)) PAGE_SIZE = Inr e"
      using align_up_page_Inl [of "saturating_add (mr_base r) (mr_len r)"]
      by (cases "align_up (saturating_add (mr_base r) (mr_len r)) PAGE_SIZE")
        (auto simp: unat_region_end)
    let ?b = "align_down (mr_base r) PAGE_SIZE"
    from Cons.prems(1) False have len: "len < length rs" by simp
    from Cons.IH [of len rs] Cons.prems False
    have skip: "\<exists>x. subtract_regions regions rs len = Inr (Some x)" by simp
    show ?thesis
    proof (cases "?b < e")
      case True
      from Cons.prems(2) have g: "separated (take len rs)" "\<forall>q \<in> set (take len rs). nonempty q"
        by (auto simp: good_def)
      from subtract_from_fits [of 0 len rs ?b e] len True g obtain rs1 n where
        s: "subtract_reserved rs len ?b e = Inr (True, rs1, n)" "n \<le> Suc len"
        by (auto simp: subtract_reserved_def)
      have l1: "length rs1 = length rs" "take n rs1 = concat (map (carve ?b e) (take len rs))"
        using subtract_reserved_eq [of len rs ?b e] len s(1) by (metis Inr_inject less_imp_le prod.inject)+
      have "good (take n rs1)"
        unfolding l1(2) using align_up_page_Inr(1) [OF e]
        by (intro carve_all_good [OF Cons.prems(2) True]) (simp_all add: unat_align_down_page)
      with Cons.IH [of n rs1] Cons.prems False s(2) l1(1)
      have "\<exists>x. subtract_regions regions rs1 n = Inr (Some x)" by simp
      with skip s(1) e show ?thesis by (auto simp: Let_def)
    next
      case False
      with skip e show ?thesis by (auto simp: Let_def)
    qed
  qed
qed

text \<open>A memory map the manager can always represent.\<close>

definition map_fits :: "MemoryRegion list \<Rightarrow> bool" where
  "map_fits regions \<longleftrightarrow> length regions \<le> MAX_RANGES
     \<and> (\<forall>r \<in> set regions. unat (mr_base r) + 4095 < 2 ^ 64 \<and> region_end r + 4095 < 2 ^ 64)"

lemma sub_low_ok:
  assumes "len \<le> length rs"
  shows "\<exists>rs' n. subtract_from 0 re i len rs = Inr (True, rs', n)"
  using assms
proof (induction "len - i" arbitrary: i len rs rule: less_induct)
  case less
  show ?case
  proof (cases "i < len")
    case False
    then show ?thesis by (subst subtract_from.simps) simp
  next
    case True
    with less.prems have i: "i < length rs" by simp
    have IH: "\<exists>rs' n. subtract_from 0 re (Suc i) len xs = Inr (True, rs', n)"
      if "length xs = length rs" for xs
      using less.hyps [of len "Suc i" xs] that True less.prems by simp
    have sh: "shift_left (Suc i) len rs =
      Inr (take i rs @ drop (Suc i) (take len rs) @ drop (len - 1) rs)" (is "_ = Inr ?rs")
      using shift_left_eq [of "Suc i" len rs] True less.prems by simp
    have "len - 1 - i < len - i" "len - 1 \<le> length ?rs" using True less.prems by simp_all
    from less.hyps [OF this] have "\<exists>rs' n. subtract_from 0 re i (len - 1) ?rs = Inr (True, rs', n)" .
    with True i IH [of rs] IH [of "rs[i := (rs ! i)\<lparr>r_base := re\<rparr>]"] sh show ?thesis
      by (subst subtract_from.simps) (auto simp: linorder_not_le)
  qed
qed

lemma length_filter_split:
  "length (filter P xs) + length (filter (Not \<circ> P) xs) = length xs"
  by (induction xs) auto

subsection \<open>The stages put together\<close>

lemma sorted_merged_stage:
  assumes "length rs0 = MAX_RANGES" "len0 \<le> MAX_RANGES"
    "\<forall>r \<in> set (take len0 rs0). nonempty r \<and> page_aligned r"
  obtains rs1 rs2 len2 where "sort_by_base rs0 len0 = Inr rs1"
    "merge_adjacent rs1 len0 = Inr (rs2, len2)" "len2 \<le> len0" "length rs2 = MAX_RANGES"
    "good (take len2 rs2)" "cover (take len2 rs2) = cover (take len0 rs0)"
proof -
  from sort_by_base_spec [of len0 rs0] assms obtain rs1 where s: "sort_by_base rs0 len0 = Inr rs1"
    "length rs1 = MAX_RANGES" "mset (take len0 rs1) = mset (take len0 rs0)"
    "bases_sorted (take len0 rs1)" by auto
  then have "set (take len0 rs1) = set (take len0 rs0)" by (metis set_mset_mset)
  then have s': "\<forall>r \<in> set (take len0 rs1). nonempty r \<and> page_aligned r"
    "cover (take len0 rs1) = cover (take len0 rs0)"
    using assms by (simp_all add: cover_def)
  show thesis
    using merge_adjacent_good [OF _ s(4) s'(1)] assms(2) s s'(2) that by metis
qed

lemma low_memory_stage:
  assumes "length rs3 = MAX_RANGES" "len3 \<le> MAX_RANGES" "good (take len3 rs3)"
  obtains rs4 len4 rs5 len5 free where
    "subtract_reserved rs3 len3 0 0x100000 = Inr (True, rs4, len4)"
    "drop_empty 0 len4 0 rs4 = Inr (rs5, len5)" "sum_free 0 len5 0 rs5 = Inr free"
    "length rs5 = MAX_RANGES" "len5 \<le> MAX_RANGES" "good (take len5 rs5)"
    "cover (take len5 rs5) = cover (take len3 rs3) - {0..<0x100000}"
    "unat free = card (cover (take len5 rs5))"
proof -
  from sub_low_ok [of len3 rs3] assms obtain rs4 len4 where
    x: "subtract_reserved rs3 len3 0 0x100000 = Inr (True, rs4, len4)"
    by (fastforce simp: subtract_reserved_def)
  with subtract_reserved_eq [of len3 rs3 0 "0x100000"] assms
  have x': "len4 \<le> MAX_RANGES" "length rs4 = MAX_RANGES"
    "take len4 rs4 = concat (map (carve 0 0x100000) (take len3 rs3))" by force+
  have g4: "good (take len4 rs4)"
    unfolding x'(3) by (rule carve_all_good [OF assms(3)]) simp_all
  from drop_empty_eq [of 0 0 len4 rs4] x' obtain rs5 len5 where d:
    "drop_empty 0 len4 0 rs4 = Inr (rs5, len5)" "len5 \<le> MAX_RANGES" "length rs5 = MAX_RANGES"
    "take len5 rs5 = filter nonempty (take len4 rs4)" by auto
  have fl: "take len5 rs5 = take len4 rs4"
    using g4 unfolding d(4) good_def by (auto simp: filter_id_conv)
  from sum_free_eq [of 0 len5 rs5 0] d(2,3) g4 fl card_cover_bound [of "take len4 rs4"]
  obtain free where f: "sum_free 0 len5 0 rs5 = Inr free"
    "unat free = card (cover (take len5 rs5))" by auto
  have g5: "good (take len5 rs5)" using g4 by (simp only: fl)
  have c5: "cover (take len5 rs5) = cover (take len3 rs3) - {0..<0x100000}"
    by (simp add: fl x'(3) carve_all_cover)
  show thesis by (rule that [OF x d(1) f(1) d(3,2) g5 c5 f(2)])
qed

lemma pmm_build_spec:
  assumes "pmm_build regions = Inr (Some (p, st))"
  shows "pmm_wf p \<and> cursor p = 0 \<and> pm_len p \<noteq> 0
    \<and> free_addrs p = usable_addrs regions - reserved_addrs regions - {0..<0x100000}
    \<and> unat (free_bytes st) = card (free_addrs p) \<and> range_count st = pm_len p"
proof -
  let ?z = "replicate MAX_RANGES \<lparr>r_base = 0, r_end = 0\<rparr> :: Range list"
  from assms obtain rs0 len0 usable where c:
    "collect_usable regions ?z 0 0 = Inr (Some (rs0, len0, usable))"
    by (auto simp: pmm_build_def and_then_eq_Inr_iff split: option.splits)
  from collect_usable_spec [OF c] have c': "length rs0 = MAX_RANGES" "len0 \<le> MAX_RANGES"
    "\<forall>r \<in> set (take len0 rs0). nonempty r \<and> page_aligned r"
    "cover (take len0 rs0) = usable_addrs regions" by auto
  obtain rs1 rs2 len2 where m: "sort_by_base rs0 len0 = Inr rs1"
    "merge_adjacent rs1 len0 = Inr (rs2, len2)" "len2 \<le> len0" "length rs2 = MAX_RANGES"
    "good (take len2 rs2)" "cover (take len2 rs2) = usable_addrs regions"
    using sorted_merged_stage [OF c'(1-3)] c'(4) by metis
  from assms c m obtain rs3 len3 where
    r: "subtract_regions regions rs2 len2 = Inr (Some (rs3, len3))"
    by (auto simp: pmm_build_def and_then_eq_Inr_iff split: option.splits if_splits)
  from subtract_regions_spec [OF r] m c'(2) have r': "length rs3 = MAX_RANGES" "len3 \<le> MAX_RANGES"
    "good (take len3 rs3)" "cover (take len3 rs3) = usable_addrs regions - reserved_addrs regions"
    by auto
  obtain rs4 len4 rs5 len5 free where
    x: "subtract_reserved rs3 len3 0 0x100000 = Inr (True, rs4, len4)"
    "drop_empty 0 len4 0 rs4 = Inr (rs5, len5)" "sum_free 0 len5 0 rs5 = Inr free"
    "length rs5 = MAX_RANGES" "len5 \<le> MAX_RANGES" "good (take len5 rs5)"
    "cover (take len5 rs5) = cover (take len3 rs3) - {0..<0x100000}"
    "unat free = card (cover (take len5 rs5))"
    using low_memory_stage [OF r'(1-3)] by metis
  from assms c m r x
  have p: "p = \<lparr>ranges = rs5, pm_len = len5, cursor = 0\<rparr>" "len5 \<noteq> 0"
    "free_bytes st = free" "range_count st = len5"
    by (auto simp: pmm_build_def split: if_splits)
  have "live p = take len5 rs5" by (simp add: live_def p)
  with p x(4-8) r'(4) show ?thesis
    by (auto simp: pmm_wf_def free_addrs_def good_def nonempty_def intro: less_imp_le)
qed

lemma pmm_build_total:
  assumes "map_fits regions"
    "usable_addrs regions - reserved_addrs regions - {0..<0x100000} \<noteq> {}"
  shows "\<exists>p st. pmm_build regions = Inr (Some (p, st))"
proof -
  let ?z = "replicate MAX_RANGES \<lparr>r_base = 0, r_end = 0\<rparr> :: Range list"
  have split: "length (filter is_usable regions) + length (filter (Not \<circ> is_usable) regions)
    \<le> MAX_RANGES"
    using assms(1) by (simp add: map_fits_def length_filter_split)
  from collect_usable_fits [of 0 regions ?z 0] split assms(1) obtain rs0 len0 usable where c:
    "collect_usable regions ?z 0 0 = Inr (Some (rs0, len0, usable))"
    "len0 \<le> length (filter is_usable regions)"
    by (fastforce simp: map_fits_def)
  from collect_usable_spec [OF c(1)] have c': "length rs0 = MAX_RANGES" "len0 \<le> MAX_RANGES"
    "\<forall>r \<in> set (take len0 rs0). nonempty r \<and> page_aligned r"
    "cover (take len0 rs0) = usable_addrs regions" by auto
  from assms(2) c'(4) have len0: "len0 \<noteq> 0" by (cases len0) auto
  obtain rs1 rs2 len2 where m: "sort_by_base rs0 len0 = Inr rs1"
    "merge_adjacent rs1 len0 = Inr (rs2, len2)" "len2 \<le> len0" "length rs2 = MAX_RANGES"
    "good (take len2 rs2)" "cover (take len2 rs2) = usable_addrs regions"
    using sorted_merged_stage [OF c'(1-3)] c'(4) by metis
  from subtract_regions_fits [of len2 regions rs2] m c(2) split assms(1) obtain rs3 len3 where
    r: "subtract_regions regions rs2 len2 = Inr (Some (rs3, len3))"
    by (auto simp: map_fits_def)
  from subtract_regions_spec [OF r] m c'(2) have r': "length rs3 = MAX_RANGES" "len3 \<le> MAX_RANGES"
    "good (take len3 rs3)" "cover (take len3 rs3) = usable_addrs regions - reserved_addrs regions"
    by auto
  obtain rs4 len4 rs5 len5 free where
    x: "subtract_reserved rs3 len3 0 0x100000 = Inr (True, rs4, len4)"
    "drop_empty 0 len4 0 rs4 = Inr (rs5, len5)" "sum_free 0 len5 0 rs5 = Inr free"
    "cover (take len5 rs5) = cover (take len3 rs3) - {0..<0x100000}"
    using low_memory_stage [OF r'(1-3)] by metis
  from x(4) r'(4) assms(2) have "len5 \<noteq> 0" by (cases len5) auto
  with c m r x(1-3) len0 show ?thesis by (simp add: pmm_build_def)
qed

end
