(* ===== verification/Pmm_Alloc.thy ===== *)
theory Pmm_Alloc
  imports Pmm_Init
begin

text \<open>
  Allocation from the free-range table (\<^verbatim>\<open>pmm::alloc_pages\<close>, \<^verbatim>\<open>pmm::alloc_frame\<close>): a first-fit scan
  from a cursor that never moves back. The locale \<open>frame_source\<close> is the contract the rest of the
  kernel relies on; it is interpreted on the model of \<open>alloc_pages\<close>.
\<close>

section \<open>The interface\<close>

definition block :: "u64 \<Rightarrow> u64 \<Rightarrow> nat set" where
  "block p pages = {unat p ..< unat p + unat pages * 4096}"

text \<open>A run of requests, collecting the granted blocks.\<close>

fun run_allocs ::
  "('q \<Rightarrow> 's \<Rightarrow> (u64 option \<times> 's) outcome) \<Rightarrow> 'q list \<Rightarrow> 's \<Rightarrow> ((u64 \<times> 'q) list \<times> 's) outcome"
where
  "run_allocs alloc [] s = Inr ([], s)"
| "run_allocs alloc (n # ns) s =
     and_then (alloc n s) (\<lambda>(r, s1).
       and_then (run_allocs alloc ns s1) (\<lambda>(bs, s2).
         Inr (case r of None \<Rightarrow> bs | Some p \<Rightarrow> (p, n) # bs, s2)))"

locale frame_source =
  fixes alloc :: "u64 \<Rightarrow> 's \<Rightarrow> (u64 option \<times> 's) outcome"
    and inv :: "'s \<Rightarrow> bool"
    and free :: "'s \<Rightarrow> nat set"
  assumes alloc_total: "inv s \<Longrightarrow> \<exists>r s'. alloc n s = Inr (r, s') \<and> inv s'"
    and alloc_grant: "inv s \<Longrightarrow> alloc n s = Inr (Some p, s') \<Longrightarrow>
      block p n \<subseteq> free s \<and> free s' \<subseteq> free s - block p n \<and> 4096 dvd unat p"
    and alloc_deny: "inv s \<Longrightarrow> alloc n s = Inr (None, s') \<Longrightarrow> free s' \<subseteq> free s"
begin

lemma alloc_inv: "inv s \<Longrightarrow> alloc n s = Inr (r, s') \<Longrightarrow> inv s'"
  using alloc_total [of s n] by auto

lemma alloc_free_subset: "inv s \<Longrightarrow> alloc n s = Inr (r, s') \<Longrightarrow> free s' \<subseteq> free s"
  by (cases r) (auto dest: alloc_grant alloc_deny)

lemma run_total: "inv s \<Longrightarrow> \<exists>bs s'. run_allocs alloc ns s = Inr (bs, s') \<and> inv s'"
proof (induction ns arbitrary: s)
  case Nil
  then show ?case by simp
next
  case (Cons n ns)
  from alloc_total [OF Cons.prems] obtain r s1 where "alloc n s = Inr (r, s1)" "inv s1" by blast
  with Cons.IH [of s1] show ?case by auto
qed

lemma run_blocks:
  assumes "inv s" "run_allocs alloc ns s = Inr (bs, s')"
  shows "(\<forall>(p, n) \<in> set bs. block p n \<subseteq> free s \<and> 4096 dvd unat p)
    \<and> sorted_wrt (\<lambda>(p, n) (q, m). block p n \<inter> block q m = {}) bs \<and> free s' \<subseteq> free s"
  using assms
proof (induction ns arbitrary: s bs)
  case Nil
  then show ?case by simp
next
  case (Cons n ns)
  then obtain r s1 bs1 where r: "alloc n s = Inr (r, s1)" "run_allocs alloc ns s1 = Inr (bs1, s')"
    "bs = (case r of None \<Rightarrow> bs1 | Some p \<Rightarrow> (p, n) # bs1)"
    by (auto simp: and_then_eq_Inr_iff)
  note IH = Cons.IH [OF alloc_inv [OF Cons.prems(1) r(1)] r(2)]
  note sub = alloc_free_subset [OF Cons.prems(1) r(1)]
  show ?case
  proof (cases r)
    case None
    with IH sub r(3) show ?thesis by fastforce
  next
    case (Some p)
    with alloc_grant [OF Cons.prems(1)] r(1) have p: "block p n \<subseteq> free s"
      "free s1 \<subseteq> free s - block p n" "4096 dvd unat p" by auto
    have bs: "bs = (p, n) # bs1" using Some r(3) by simp
    have "block p n \<inter> block q m = {}" if "(q, m) \<in> set bs1" for q m
      using IH that p(2) by blast
    moreover have "\<forall>(q, m) \<in> set bs1. block q m \<subseteq> free s \<and> 4096 dvd unat q"
      using IH sub by blast
    moreover have "free s' \<subseteq> free s" using IH sub by blast
    ultimately show ?thesis using IH p unfolding bs by auto
  qed
qed

end

section \<open>The scan\<close>

definition fits :: "u64 \<Rightarrow> Range \<Rightarrow> bool" where
  "fits pages r \<longleftrightarrow> r_base r < r_end r \<and> unat (r_base r) + unat pages * 4096 \<le> unat (r_end r)"

definition take_pages :: "u64 \<Rightarrow> Range \<Rightarrow> Range" where
  "take_pages pages r = r\<lparr>r_base := saturating_add (r_base r) (saturating_mul pages PAGE_SIZE)\<rparr>"

lemma room_test:
  assumes "page_aligned r" "r_base r < r_end r"
  shows "saturating_mul pages PAGE_SIZE \<le> saturating_sub (r_end r) (r_base r) \<longleftrightarrow> fits pages r"
proof -
  from assms obtain b e where be: "unat (r_base r) = 4096 * b" "unat (r_end r) = 4096 * e"
    by (auto simp: page_aligned_def elim!: dvdE)
  with assms(2) unat_u64_lt [of "r_end r"] have "b < e" "4096 * e < 2 ^ 64"
    by (simp_all add: word_nat)
  then have "4096 * e - 4096 * b < 2 ^ 64 - 1" by simp
  with be assms(2) show ?thesis
    by (simp add: fits_def word_nat min_le_iff_disj) linarith
qed

lemma unat_take_pages:
  assumes "fits pages r"
  shows "unat (r_base (take_pages pages r)) = unat (r_base r) + unat pages * 4096"
  using assms unat_u64_lt [of "r_end r"] by (simp add: fits_def take_pages_def word_nat)

lemma drop_update_here: "i < length xs \<Longrightarrow> drop i (xs[i := v]) = v # drop (Suc i) xs"
  by (metis Cons_nth_drop_Suc drop_update_cancel length_list_update lessI nth_list_update_eq)

lemma scan_step:
  assumes "pmm_wf p" "live p = r # rest"
  defines "q \<equiv> p\<lparr>cursor := Suc (cursor p)\<rparr>"
  shows "\<not> fits pages r \<Longrightarrow> alloc_scan pages p = alloc_scan pages q"
    and "pmm_wf q" "live q = rest"
    and "fits pages r \<Longrightarrow> \<exists>p'. alloc_scan pages p = Inr (Some (r_base r), p')
        \<and> length (ranges p') = MAX_RANGES \<and> pm_len p' = pm_len p \<and> cursor p' \<le> pm_len p'
        \<and> live p' = (if r_end r \<le> r_base (take_pages pages r) then rest
                      else take_pages pages r # rest)"
proof -
  let ?c = "cursor p"
  have c: "?c < pm_len p" "?c < length (ranges p)"
    using assms(1,2) by (auto simp: pmm_wf_def live_def intro: ccontr)
  have "live p = ranges p ! ?c # live q"
    using c by (simp add: live_def q_def)
      (metis Cons_nth_drop_Suc length_take min_less_iff_conj nth_take)
  with assms(2) have r: "ranges p ! ?c = r" and lq: "live q = rest" by simp_all
  show "live q = rest" by (rule lq)
  show "pmm_wf q"
    using assms(1,2) c lq by (simp add: pmm_wf_def separated_def q_def)
  from assms(1,2) have rr: "page_aligned r" by (simp add: pmm_wf_def)
  show "alloc_scan pages p = alloc_scan pages q" if "\<not> fits pages r"
  proof (cases "r_base r < r_end r")
    case True
    with room_test [OF rr True, of pages] that c r show ?thesis
      by (subst alloc_scan.simps) (simp add: q_def Let_def linorder_not_le)
  next
    case False
    with c r show ?thesis by (subst alloc_scan.simps) (simp add: q_def linorder_not_less)
  qed
  assume f: "fits pages r"
  then have lt: "r_base r < r_end r" by (simp add: fits_def)
  with f have ne: "\<not> r_end r \<le> r_base r"
    and room: "\<not> saturating_sub (r_end r) (r_base r) < saturating_mul pages PAGE_SIZE"
    using room_test [OF rr lt, of pages] by (simp_all add: linorder_not_less linorder_not_le)
  let ?p1 = "p\<lparr>ranges := (ranges p)[?c := take_pages pages r]\<rparr>"
  have "alloc_scan pages p = Inr (Some (r_base r),
      if r_end r \<le> r_base (take_pages pages r) then ?p1\<lparr>cursor := Suc ?c\<rparr> else ?p1)"
    using room f c r ne by (subst alloc_scan.simps) (simp add: Let_def take_pages_def)
  moreover have "live ?p1 = take_pages pages r # rest"
    using c lq by (simp add: live_def q_def take_update_swap drop_update_here)
  moreover have "live (?p1\<lparr>cursor := Suc ?c\<rparr>) = rest"
    using c lq by (simp add: live_def q_def take_update_swap)
  ultimately show "\<exists>p'. alloc_scan pages p = Inr (Some (r_base r), p')
        \<and> length (ranges p') = MAX_RANGES \<and> pm_len p' = pm_len p \<and> cursor p' \<le> pm_len p'
        \<and> live p' = (if r_end r \<le> r_base (take_pages pages r) then rest
                      else take_pages pages r # rest)"
    using assms(1) c by (auto simp: pmm_wf_def)
qed

lemma alloc_scan_deny:
  assumes "pmm_wf p" "\<forall>r \<in> set (live p). \<not> fits pages r"
  shows "alloc_scan pages p = Inr (None, p\<lparr>cursor := pm_len p\<rparr>)"
  using assms
proof (induction "live p" arbitrary: p)
  case Nil
  then have "cursor p = pm_len p" by (simp add: live_def pmm_wf_def)
  then have "p\<lparr>cursor := pm_len p\<rparr> = p" by simp
  with \<open>cursor p = pm_len p\<close> show ?case by (subst alloc_scan.simps) simp
next
  case (Cons r rest)
  note step = scan_step [OF Cons.prems(1) Cons.hyps(2) [symmetric]]
  from Cons.prems(2) Cons.hyps(2) have "\<not> fits pages r" "\<forall>r \<in> set rest. \<not> fits pages r"
    by (metis list.set_intros)+
  with Cons.hyps(1) [OF step(3) [symmetric] step(2)] step(1,3) show ?case by simp
qed

lemma alloc_scan_grant:
  assumes "pmm_wf p" "live p = skipped @ r # rest" "\<forall>q \<in> set skipped. \<not> fits pages q"
    "fits pages r"
  shows "\<exists>p'. alloc_scan pages p = Inr (Some (r_base r), p')
        \<and> length (ranges p') = MAX_RANGES \<and> pm_len p' = pm_len p \<and> cursor p' \<le> pm_len p'
        \<and> live p' = (if r_end r \<le> r_base (take_pages pages r) then rest
                      else take_pages pages r # rest)"
  using assms
proof (induction skipped arbitrary: p)
  case Nil
  then show ?case using scan_step(4) [of p r rest pages] by simp
next
  case (Cons q skipped)
  then have lv: "live p = q # (skipped @ r # rest)" by simp
  note step = scan_step [OF Cons.prems(1) lv]
  from Cons.IH [OF step(2,3)] Cons.prems step(1) show ?case by simp
qed

lemma take_pages_sets:
  assumes "fits pages r" "page_aligned r"
  shows "span r = block (r_base r) pages \<union> span (take_pages pages r)"
    "block (r_base r) pages \<inter> span (take_pages pages r) = {}"
    "page_aligned (take_pages pages r)" "r_base (take_pages pages r) \<le> r_end r"
    "r_base r \<le> r_base (take_pages pages r)"
  using assms unat_take_pages [OF assms(1)]
  by (auto simp: span_def block_def fits_def page_aligned_def word_nat)
    (simp_all add: take_pages_def)

lemma alloc_scan_wf:
  assumes "pmm_wf p"
  shows "\<exists>res p'. alloc_scan pages p = Inr (res, p') \<and> pmm_wf p' \<and>
    (case res of
       None \<Rightarrow> live p' = [] \<and> (\<forall>r \<in> set (live p). \<not> fits pages r)
     | Some a \<Rightarrow> block a pages \<subseteq> free_addrs p \<and> 4096 dvd unat a
         \<and> free_addrs p' \<subseteq> free_addrs p - block a pages)"
proof (cases "\<exists>r \<in> set (live p). fits pages r")
  case False
  with alloc_scan_deny [OF assms, of pages] assms show ?thesis
    by (auto simp: pmm_wf_def live_def separated_def)
next
  case True
  then obtain skipped r rest where s: "live p = skipped @ r # rest" "fits pages r"
    "\<forall>q \<in> set skipped. \<not> fits pages q" by (auto elim!: split_list_first_propE)
  from alloc_scan_grant [OF assms s(1,3,2)] obtain p' where p':
    "alloc_scan pages p = Inr (Some (r_base r), p')" "length (ranges p') = MAX_RANGES"
    "pm_len p' = pm_len p" "cursor p' \<le> pm_len p'"
    "live p' = (if r_end r \<le> r_base (take_pages pages r) then rest
                else take_pages pages r # rest)" by blast
  from assms s(1) have wf: "page_aligned r" "separated (r # rest)"
    "\<forall>q \<in> set rest. r_base q \<le> r_end q \<and> page_aligned q" "pm_len p \<le> MAX_RANGES"
    by (auto simp: pmm_wf_def separated_def sorted_wrt_append)
  note tp = take_pages_sets [OF s(2) wf(1)]
  have e: "r_end (take_pages pages r) = r_end r" by (simp add: take_pages_def)
  have "pmm_wf p'"
    using wf tp p' by (auto simp: pmm_wf_def separated_def e)
  moreover have "span r \<inter> span q = {}" if "q \<in> set rest" for q
    using wf(2) that by (auto simp: separated_def span_def word_nat)
  then have "block (r_base r) pages \<inter> cover rest = {}"
    using tp(1) by (auto simp: cover_def)
  then have "free_addrs p' \<subseteq> free_addrs p - block (r_base r) pages"
    using tp(1,2) by (auto simp: free_addrs_def p'(5) s(1))
  moreover have "block (r_base r) pages \<subseteq> free_addrs p" using tp(1) by (auto simp: free_addrs_def s(1))
  moreover have "4096 dvd unat (r_base r)" using wf(1) by (simp add: page_aligned_def)
  ultimately show ?thesis using p'(1) by auto
qed

section \<open>The allocator of the kernel state\<close>

definition pmm_inv :: "'z pmm_state_scheme \<Rightarrow> bool" where
  "pmm_inv s \<longleftrightarrow> (case PMM s of None \<Rightarrow> True | Some p \<Rightarrow> pmm_wf p)"

definition pmm_free :: "'z pmm_state_scheme \<Rightarrow> nat set" where
  "pmm_free s = (case PMM s of None \<Rightarrow> {} | Some p \<Rightarrow> free_addrs p)"

lemma alloc_pages_cases:
  assumes "pmm_inv s"
  obtains (grant) a p where "alloc_pages n s = Inr (Some a, s\<lparr>PMM := Some p\<rparr>)" "n \<noteq> 0" "pmm_wf p"
      "block a n \<subseteq> pmm_free s" "4096 dvd unat a" "free_addrs p \<subseteq> pmm_free s - block a n"
    | (deny) p where "alloc_pages n s = Inr (None, s\<lparr>PMM := p\<rparr>)" "pmm_inv (s\<lparr>PMM := p\<rparr>)"
      "n \<noteq> 0 \<Longrightarrow> pmm_free (s\<lparr>PMM := p\<rparr>) = {}" "n = 0 \<Longrightarrow> p = PMM s"
proof (cases "n = 0 \<or> PMM s = None")
  case True
  have "s\<lparr>PMM := PMM s\<rparr> = s" by simp
  with True assms deny [of "PMM s"] show thesis
    by (auto simp: alloc_pages_def pmm_free_def pmm_inv_def)
next
  case False
  then obtain p where p: "PMM s = Some p" "n \<noteq> 0" by auto
  with assms alloc_scan_wf [of p n] obtain res p' where r: "alloc_scan n p = Inr (res, p')" "pmm_wf p'"
    "case res of None \<Rightarrow> live p' = [] \<and> (\<forall>r \<in> set (live p). \<not> fits n r)
     | Some a \<Rightarrow> block a n \<subseteq> free_addrs p \<and> 4096 dvd unat a
         \<and> free_addrs p' \<subseteq> free_addrs p - block a n"
    by (auto simp: pmm_inv_def)
  show thesis
  proof (cases res)
    case None
    with p r deny [of "Some p'"] show thesis
      by (simp add: alloc_pages_def pmm_free_def pmm_inv_def free_addrs_def)
  next
    case (Some a)
    with p r grant [of a p'] show thesis
      by (simp add: alloc_pages_def pmm_free_def)
  qed
qed

interpretation pmm: frame_source alloc_pages pmm_inv pmm_free
proof
  fix s :: "'a pmm_state_scheme" and n p s'
  assume inv: "pmm_inv s"
  show "\<exists>r s'. alloc_pages n s = Inr (r, s') \<and> pmm_inv s'"
    by (rule alloc_pages_cases [OF inv, of n]) (auto simp: pmm_inv_def)
  show "block p n \<subseteq> pmm_free s \<and> pmm_free s' \<subseteq> pmm_free s - block p n \<and> 4096 dvd unat p"
    if "alloc_pages n s = Inr (Some p, s')"
    using that by (cases rule: alloc_pages_cases [OF inv, of n]) (auto simp: pmm_free_def)
  show "pmm_free s' \<subseteq> pmm_free s" if "alloc_pages n s = Inr (None, s')"
    using that by (cases rule: alloc_pages_cases [OF inv, of n]; cases "n = 0")
      (auto simp: pmm_free_def)
qed

lemma denied_is_final:
  assumes "pmm_inv s" "n \<noteq> 0" "alloc_pages n s = Inr (None, s1)"
  shows "alloc_pages m s1 = Inr (None, s1) \<and> pmm_free s1 = {}"
proof (cases "PMM s")
  case None
  with assms show ?thesis by (auto simp: alloc_pages_def pmm_free_def)
next
  case (Some p)
  with assms alloc_scan_wf [of p n] obtain p' where p': "alloc_scan n p = Inr (None, p')"
    "s1 = s\<lparr>PMM := Some p'\<rparr>" "pmm_wf p'" "live p' = []"
    by (auto simp: alloc_pages_def pmm_inv_def and_then_eq_Inr_iff split: prod.splits)
  then have "alloc_scan m p' = Inr (None, p')"
    by (subst alloc_scan.simps) (simp add: live_def pmm_wf_def)
  with p' show ?thesis by (simp add: alloc_pages_def pmm_free_def free_addrs_def)
qed

lemmas denied_stays_denied = denied_is_final [THEN conjunct1]

section \<open>Properties\<close>

text \<open>A small memory map for the concrete instances: usable regions out of order, adjacent, ending
  off a page boundary and below 1 MiB, with a kernel image in the middle.\<close>

definition demo_map :: "MemoryRegion list" where
  "demo_map =
     [\<lparr>mr_base = 0, mr_len = 0x9F000, mr_kind = kind_as_u32 KUsable\<rparr>,
      \<lparr>mr_base = 0x300000, mr_len = 0x100800, mr_kind = kind_as_u32 KUsable\<rparr>,
      \<lparr>mr_base = 0x100000, mr_len = 0x200000, mr_kind = kind_as_u32 KUsable\<rparr>,
      \<lparr>mr_base = 0x180010, mr_len = 0x20, mr_kind = kind_as_u32 KKernel\<rparr>]"

definition demo_boot :: pmm_state where
  "demo_boot = \<lparr>mem = (\<lambda>_. 0), cr3 = 0, tss_rsp0 = 0, serial_out = [], port_writes = [], PMM = None\<rparr>"

lemma demo_map_fits: "map_fits demo_map"
  by (simp add: map_fits_def demo_map_def MAX_RANGES_def region_end_def)

lemma demo_map_free:
  "0x200000 \<in> usable_addrs demo_map - reserved_addrs demo_map - {0..<0x100000}"
  by (simp add: demo_map_def usable_addrs_Cons reserved_addrs_Cons is_usable_def usable_span_def
      reserved_span_def region_end_def)

text \<open>C10: \<open>pmm::init\<close> computes exactly the free memory. When it returns \<open>Ok\<close>, the manager it stores
  has a sorted, disjoint, page-aligned table of at most 128 ranges whose addresses are the usable
  regions rounded inwards to pages, minus every other non-empty region rounded outwards, minus the
  first MiB; the statistics report the exact number of free bytes and ranges.\<close>

theorem pmm_init_exact:
  assumes "pmm_init regions s = Inr (Some st, s')"
  shows "\<exists>p. s' = s\<lparr>PMM := Some p\<rparr> \<and> pmm_wf p \<and> cursor p = 0
    \<and> free_addrs p = usable_addrs regions - reserved_addrs regions - {0..<0x100000}
    \<and> unat (free_bytes st) = card (free_addrs p) \<and> range_count st = pm_len p"
  using assms pmm_build_spec
  by (fastforce simp: pmm_init_def and_then_eq_Inr_iff split: option.splits)

theorem pmm_init_exact_witness:
  "\<exists>st s' p. pmm_init demo_map demo_boot = Inr (Some st, s') \<and> s' = demo_boot\<lparr>PMM := Some p\<rparr>
    \<and> free_addrs p = usable_addrs demo_map - reserved_addrs demo_map - {0..<0x100000}
    \<and> free_bytes st = 0x2FF000"
proof -
  have "case pmm_init demo_map demo_boot of
      Inr (Some st, s') \<Rightarrow> free_bytes st = 0x2FF000 | _ \<Rightarrow> False"
    by code_simp
  then obtain st s' where i: "pmm_init demo_map demo_boot = Inr (Some st, s')"
    "free_bytes st = 0x2FF000" by (rule outcome_some_caseE)
  from pmm_init_exact [OF i(1)] i show ?thesis by blast
qed

text \<open>C11: \<open>pmm::init\<close> returns \<open>Ok\<close> on every memory map of at most 128 regions that leaves some
  memory free and whose addresses stay clear of the top page of the address space: it neither
  panics nor runs out of table slots, however the regions overlap.\<close>

theorem pmm_init_total:
  assumes "map_fits regions"
    "usable_addrs regions - reserved_addrs regions - {0..<0x100000} \<noteq> {}"
  shows "\<exists>st s'. pmm_init regions s = Inr (Some st, s')"
  using pmm_build_total [OF assms] by (auto simp: pmm_init_def)

theorem pmm_init_total_witness:
  "\<exists>st s'. pmm_init demo_map demo_boot = Inr (Some st, s')"
  using demo_map_free by (intro pmm_init_total [OF demo_map_fits]) blast

lemma granted_blocks:
  assumes "pmm_init regions s = Inr (Some st, s1)"
  shows "\<exists>bs s2. run_allocs alloc_pages ns s1 = Inr (bs, s2)
    \<and> (\<forall>(p, n) \<in> set bs. 4096 dvd unat p
        \<and> block p n \<subseteq> usable_addrs regions - reserved_addrs regions - {0..<0x100000})
    \<and> sorted_wrt (\<lambda>(p, n) (q, m). block p n \<inter> block q m = {}) bs"
proof -
  from assms obtain pm stats where p: "pmm_build regions = Inr (Some (pm, stats))"
    "s1 = s\<lparr>PMM := Some pm\<rparr>"
    by (auto simp: pmm_init_def and_then_eq_Inr_iff split: option.splits)
  from pmm_build_spec [OF p(1)] have inv: "pmm_inv s1" and
    free: "pmm_free s1 = usable_addrs regions - reserved_addrs regions - {0..<0x100000}"
    by (simp_all add: pmm_inv_def pmm_free_def p(2))
  from pmm.run_total [OF inv] obtain bs s2 where "run_allocs alloc_pages ns s1 = Inr (bs, s2)"
    by blast
  with pmm.run_blocks [OF inv this] free show ?thesis by auto
qed

text \<open>C12: whatever sequence of requests follows a successful initialisation, every allocation call
  returns (no panic), every granted block is page-aligned and lies in usable memory, outside every
  reserved region and above the first MiB, and no two granted blocks share a byte.\<close>

theorem alloc_blocks_safe:
  assumes "pmm_init regions s = Inr (Some st, s1)"
  shows "\<exists>bs s2. run_allocs alloc_pages ns s1 = Inr (bs, s2)
    \<and> (\<forall>(p, n) \<in> set bs. 4096 dvd unat p
        \<and> block p n \<subseteq> usable_addrs regions - reserved_addrs regions - {0..<0x100000})
    \<and> sorted_wrt (\<lambda>(p, n) (q, m). block p n \<inter> block q m = {}) bs"
  using assms by (rule granted_blocks)

theorem alloc_blocks_safe_witness:
  "\<exists>st s1 bs s2. pmm_init demo_map demo_boot = Inr (Some st, s1)
    \<and> run_allocs alloc_pages [1, 2, 1] s1 = Inr (bs, s2)
    \<and> bs = [(0x100000, 1), (0x101000, 2), (0x103000, 1)]
    \<and> sorted_wrt (\<lambda>(p, n) (q, m). block p n \<inter> block q m = {}) bs"
proof -
  have "case pmm_init demo_map demo_boot of Inr (Some st, s1) \<Rightarrow>
      (case run_allocs alloc_pages [1, 2, 1] s1 of
         Inr (bs, s2) \<Rightarrow> bs = [(0x100000, 1), (0x101000, 2), (0x103000, 1)] | _ \<Rightarrow> False)
    | _ \<Rightarrow> False"
    by code_simp
  then obtain st s1 where i: "pmm_init demo_map demo_boot = Inr (Some st, s1)"
    "case run_allocs alloc_pages [1, 2, 1] s1 of
       Inr (bs, s2) \<Rightarrow> bs = [(0x100000, 1), (0x101000, 2), (0x103000, 1)] | _ \<Rightarrow> False"
    by (rule outcome_some_caseE)
  from alloc_blocks_safe [OF i(1), of "[1, 2, 1]"] i show ?thesis by fastforce
qed

text \<open>C13: an allocation is first fit from the cursor. A non-zero request on a well-formed manager
  returns the base of the first live range with room for it, and leaves the ranges behind that one
  untouched; it is denied exactly when no live range has room.\<close>

theorem alloc_first_fit:
  assumes "PMM s = Some p" "pmm_wf p" "n \<noteq> 0"
  shows "case find (fits n) (live p) of
      None \<Rightarrow> alloc_pages n s = Inr (None, s\<lparr>PMM := Some (p\<lparr>cursor := pm_len p\<rparr>)\<rparr>)
    | Some r \<Rightarrow> \<exists>p'. alloc_pages n s = Inr (Some (r_base r), s\<lparr>PMM := Some p'\<rparr>) \<and> pmm_wf p'
        \<and> (let rest = tl (dropWhile (Not \<circ> fits n) (live p)); r' = take_pages n r in
            live p' = (if r_end r \<le> r_base r' then rest else r' # rest))"
proof (cases "find (fits n) (live p)")
  case None
  then have "\<forall>r \<in> set (live p). \<not> fits n r" by (auto simp: find_None_iff)
  from alloc_scan_deny [OF assms(2) this] None assms(1,3) show ?thesis
    by (simp add: alloc_pages_def)
next
  case (Some r)
  then obtain skipped rest where s: "live p = skipped @ r # rest" "fits n r"
    "\<forall>q \<in> set skipped. \<not> fits n q"
    using find_Some_split by metis
  from s have rest: "tl (dropWhile (Not \<circ> fits n) (live p)) = rest"
    by (simp add: dropWhile_append3)
  from alloc_scan_grant [OF assms(2) s(1,3,2)] alloc_scan_wf [OF assms(2), of n] obtain p' where
    "alloc_scan n p = Inr (Some (r_base r), p')" "pmm_wf p'"
    "live p' = (if r_end r \<le> r_base (take_pages n r) then rest else take_pages n r # rest)"
    by fastforce
  with Some rest assms show ?thesis
    by (auto simp: alloc_pages_def Let_def intro!: exI [of _ p'])
qed

text \<open>A manager with a free 1-page range and a free 4-page range.\<close>

definition demo_pmm :: Pmm where
  "demo_pmm = \<lparr>ranges = [\<lparr>r_base = 0x200000, r_end = 0x201000\<rparr>,
      \<lparr>r_base = 0x300000, r_end = 0x304000\<rparr>] @ replicate 126 \<lparr>r_base = 0, r_end = 0\<rparr>,
    pm_len = 2, cursor = 0\<rparr>"

lemma demo_pmm_live: "live demo_pmm =
    [\<lparr>r_base = 0x200000, r_end = 0x201000\<rparr>, \<lparr>r_base = 0x300000, r_end = 0x304000\<rparr>]"
  by (simp add: live_def demo_pmm_def)

lemma demo_pmm_wf: "pmm_wf demo_pmm"
  unfolding pmm_wf_def demo_pmm_live
  by (simp add: demo_pmm_def MAX_RANGES_def separated_def page_aligned_def)

theorem alloc_first_fit_witness:
  "\<exists>p'. alloc_pages 3 (demo_boot\<lparr>PMM := Some demo_pmm\<rparr>)
      = Inr (Some 0x300000, demo_boot\<lparr>PMM := Some p'\<rparr>)
    \<and> live p' = [\<lparr>r_base = 0x303000, r_end = 0x304000\<rparr>]"
  using alloc_first_fit [of "demo_boot\<lparr>PMM := Some demo_pmm\<rparr>" demo_pmm 3] demo_pmm_wf
  by (auto simp: demo_pmm_live fits_def take_pages_def saturating_add_def saturating_mul_def
      Let_def demo_boot_def)

text \<open>A denied request uses up the manager. After one non-zero request is refused the cursor
  stands at the end of the table, so every later request is refused too, whatever its size and
  however much memory the skipped ranges still hold.\<close>

theorem alloc_denied_is_final:
  assumes "pmm_inv s" "n \<noteq> 0" "alloc_pages n s = Inr (None, s1)"
  shows "alloc_pages m s1 = Inr (None, s1) \<and> pmm_free s1 = {}"
  by (rule denied_is_final [OF assms])

theorem alloc_denied_is_final_witness:
  "\<exists>s1. pmm_free (demo_boot\<lparr>PMM := Some demo_pmm\<rparr>) \<noteq> {}
    \<and> alloc_pages 5 (demo_boot\<lparr>PMM := Some demo_pmm\<rparr>) = Inr (None, s1)
    \<and> alloc_pages 1 s1 = Inr (None, s1)"
proof -
  let ?s = "demo_boot\<lparr>PMM := Some demo_pmm\<rparr>"
  have "alloc_scan 5 demo_pmm = Inr (None, demo_pmm\<lparr>cursor := pm_len demo_pmm\<rparr>)"
    using alloc_scan_deny [OF demo_pmm_wf, of 5] by (simp add: demo_pmm_live fits_def)
  then have d: "alloc_pages 5 ?s = Inr (None, ?s\<lparr>PMM := Some (demo_pmm\<lparr>cursor := pm_len demo_pmm\<rparr>)\<rparr>)"
    by (simp add: alloc_pages_def)
  have "pmm_free ?s \<noteq> {}" by (simp add: pmm_free_def free_addrs_def demo_pmm_live span_def)
  moreover have "pmm_inv ?s" by (simp add: pmm_inv_def demo_pmm_wf)
  ultimately show ?thesis using alloc_denied_is_final [OF _ _ d, of 1] d by auto
qed

end
