(* ===== verification/Serial.thy ===== *)
theory Serial
  imports Machine
begin

text \<open>
  The serial console, \<^verbatim>\<open>kernel/src/serial.rs\<close>. The kernel-visible effect of \<open>write_byte\<close> is one
  more byte on the line; the busy-wait for the transmit-holding register is modelled apart, over
  an arbitrary sequence of line-status reads, as a loop that may not return. The printers are
  shown to be invertible: what they print reads back as the number.
\<close>

section \<open>The transmit loop\<close>

text \<open>\<open>status k\<close> is the value of the \<open>k\<close>-th read of port \<open>COM1 + 5\<close>.\<close>

partial_function (option) wait_thr :: "(nat \<Rightarrow> u8) \<Rightarrow> nat \<Rightarrow> nat option" where
  "wait_thr status k = (if status k AND 0x20 = 0 then wait_thr status (Suc k) else Some k)"

definition COM1 :: u16 where
  "COM1 = 0x3F8"

text \<open>The port writes of \<open>init\<close>, in order.\<close>

definition serial_init_writes :: "(u16 \<times> u8) list" where
  "serial_init_writes =
     [(COM1 + 1, 0x00), (COM1 + 3, 0x80), (COM1 + 0, 0x01), (COM1 + 1, 0x00), (COM1 + 3, 0x03),
      (COM1 + 2, 0xC7), (COM1 + 4, 0x0B)]"

definition serial_init :: "'z machine_scheme \<Rightarrow> 'z machine_scheme" where
  "serial_init s = s\<lparr>port_writes := port_writes s @ serial_init_writes\<rparr>"

section \<open>Printing\<close>

definition write_byte :: "u8 \<Rightarrow> 'z machine_scheme \<Rightarrow> 'z machine_scheme" where
  "write_byte b s = s\<lparr>serial_out := serial_out s @ [b]\<rparr>"

definition write_bytes :: "u8 list \<Rightarrow> 'z machine_scheme \<Rightarrow> 'z machine_scheme" where
  "write_bytes bs s = fold write_byte bs s"

definition write_str :: "string \<Rightarrow> 'z machine_scheme \<Rightarrow> 'z machine_scheme" where
  "write_str msg s = write_bytes (map of_char msg) s"

abbreviation nl :: string where
  "nl \<equiv> [CHR 0x0A]"

text \<open>The digit buffer of \<open>write_dec_u64\<close>, least significant digit first; the first argument is
  the number of free slots.\<close>

fun dec_fill :: "nat \<Rightarrow> u64 \<Rightarrow> u8 list" where
  "dec_fill 0 v = []"
| "dec_fill (Suc n) v = (if v = 0 then [] else (48 + ucast (v mod 10)) # dec_fill n (v div 10))"

definition dec_bytes :: "u64 \<Rightarrow> u8 list" where
  "dec_bytes v = (if v = 0 then [48] else rev (dec_fill 20 v))"

definition write_dec_u64 :: "u64 \<Rightarrow> 'z machine_scheme \<Rightarrow> 'z machine_scheme" where
  "write_dec_u64 v s = write_bytes (dec_bytes v) s"

definition hex_digit :: "u8 \<Rightarrow> u8" where
  "hex_digit d = (if d \<le> 9 then 48 + d else 97 + (d - 10))"

definition hex_bytes :: "u64 \<Rightarrow> u8 list" where
  "hex_bytes v = map (\<lambda>i. hex_digit (ucast (drop_bit (i * 4) v AND 0xf))) (rev [0..<16])"

definition write_hex_u64 :: "u64 \<Rightarrow> 'z machine_scheme \<Rightarrow> 'z machine_scheme" where
  "write_hex_u64 v s = write_bytes (hex_bytes v) (write_str ''0x'' s)"

section \<open>Frame\<close>

lemma write_bytes_eq: "write_bytes bs s = s\<lparr>serial_out := serial_out s @ bs\<rparr>"
  unfolding write_bytes_def
  by (induction bs arbitrary: s) (simp_all add: write_byte_def)

lemma write_str_eq: "write_str msg s = s\<lparr>serial_out := serial_out s @ map of_char msg\<rparr>"
  by (simp add: write_str_def write_bytes_eq)

lemma write_dec_eq: "write_dec_u64 v s = s\<lparr>serial_out := serial_out s @ dec_bytes v\<rparr>"
  by (simp add: write_dec_u64_def write_bytes_eq)

lemma write_hex_eq:
  "write_hex_u64 v s = s\<lparr>serial_out := serial_out s @ map of_char ''0x'' @ hex_bytes v\<rparr>"
  by (simp add: write_hex_u64_def write_bytes_eq write_str_eq)

lemmas serial_eqs = write_byte_def write_bytes_eq write_str_eq write_dec_eq write_hex_eq

section \<open>Reading the output back\<close>

text \<open>The number a digit string denotes, most significant digit first.\<close>

definition dec_value :: "u8 list \<Rightarrow> nat" where
  "dec_value bs = foldl (\<lambda>n b. n * 10 + (unat b - 48)) 0 bs"

definition hex_digit_value :: "u8 \<Rightarrow> nat" where
  "hex_digit_value b = (if b \<le> 57 then unat b - 48 else unat b - 87)"

definition hex_value :: "u8 list \<Rightarrow> nat" where
  "hex_value bs = foldl (\<lambda>n b. n * 16 + hex_digit_value b) 0 bs"

lemma unat_ucast_small: "unat (v :: u64) < 256 \<Longrightarrow> unat (ucast v :: u8) = unat v"
  by (simp add: unsigned_ucast_eq take_bit_nat_eq_self)

lemma unat_digit: "unat (48 + ucast (v mod 10) :: u8) = 48 + unat v mod 10" for v :: u64
proof -
  have m: "unat (v mod 10) = unat v mod 10" by (simp add: unat_mod)
  then have "unat (ucast (v mod 10) :: u8) = unat v mod 10"
    by (subst unat_ucast_small) simp_all
  then show ?thesis by (subst unat_add_no_wrap) simp_all
qed

lemma dec_fill_value:
  "unat v < 10 ^ n \<Longrightarrow> foldr (\<lambda>b m. m * 10 + (unat b - 48)) (dec_fill n v) 0 = unat v"
proof (induction n v rule: dec_fill.induct)
  case (1 v)
  then show ?case by (simp add: unat_0_iff)
next
  case (2 n v)
  have "unat (v div 10) = unat v div 10" by (simp add: unat_div)
  moreover from "2.prems" have "unat v div 10 < 10 ^ n" by (simp add: less_mult_imp_div_less)
  ultimately show ?case using "2.IH" by (simp add: unat_digit)
qed

lemma dec_fill_digits: "b \<in> set (dec_fill n v) \<Longrightarrow> 48 \<le> unat b \<and> unat b \<le> 57"
  by (induction n v rule: dec_fill.induct) (auto simp: unat_digit split: if_splits)

lemma dec_fill_last: "v \<noteq> 0 \<Longrightarrow> unat v < 10 ^ n \<Longrightarrow> last (dec_fill n v) \<noteq> 48"
proof (induction n v rule: dec_fill.induct)
  case (1 v)
  then show ?case by (simp add: unat_0_iff)
next
  case (2 n v)
  have d: "unat (v div 10) = unat v div 10" by (simp add: unat_div)
  show ?case
  proof (cases "v div 10 = 0")
    case True
    with d have "unat v < 10" by simp
    with \<open>v \<noteq> 0\<close> have "unat (48 + ucast (v mod 10) :: u8) \<noteq> 48"
      by (simp add: unat_digit unat_0_iff)
    then have "(48 + ucast (v mod 10) :: u8) \<noteq> 48" by auto
    with True "2.prems" show ?thesis by (cases n) simp_all
  next
    case False
    from "2.prems" have "unat v div 10 < 10 ^ n" by (simp add: less_mult_imp_div_less)
    with False "2.IH" "2.prems" d have "last (dec_fill n (v div 10)) \<noteq> 48" by simp
    moreover from \<open>unat v div 10 < 10 ^ n\<close> False d have "dec_fill n (v div 10) \<noteq> []"
      by (cases n) (auto simp: unat_0_iff)
    ultimately show ?thesis using "2.prems" by simp
  qed
qed

lemma dec_value_rev: "dec_value (rev bs) = foldr (\<lambda>b m. m * 10 + (unat b - 48)) bs 0"
  by (simp add: dec_value_def foldl_conv_foldr)

lemma nibble: "unat (drop_bit (i * 4) v AND 0xf) = unat v div 16 ^ i mod 16" for v :: u64
proof -
  have "(0xf :: u64) = mask 4" by (simp add: mask_eq_exp_minus_1)
  then have "unat (drop_bit (i * 4) v AND 0xf) = unat (drop_bit (i * 4) v) mod 2 ^ 4"
    by (simp only: take_bit_eq_mask [symmetric] unat_take_bit_word)
  also have "unat (drop_bit (i * 4) v) = unat v div 2 ^ (i * 4)"
    by (simp only: unat_drop_bit_eq) (simp add: drop_bit_eq_div)
  also have "(2 :: nat) ^ (i * 4) = 16 ^ i"
    using power_mult [of "2 :: nat" 4 i] by (simp add: mult.commute)
  finally show ?thesis by simp
qed

lemma hex_digit_round: "unat d < 16 \<Longrightarrow> hex_digit_value (hex_digit d) = unat d"
proof -
  assume d: "unat d < 16"
  show ?thesis
  proof (cases "d \<le> 9")
    case True
    then have "unat (48 + d) = 48 + unat d"
      by (subst unat_add_no_wrap) (simp_all add: word_le_nat_alt)
    with True show ?thesis by (simp add: hex_digit_def hex_digit_value_def word_le_nat_alt)
  next
    case False
    then have "unat (d - 10) = unat d - 10" by (subst unat_sub) (simp_all add: word_le_nat_alt)
    then have "unat (97 + (d - 10)) = 87 + unat d"
      using d False by (subst unat_add_no_wrap) (simp_all add: word_le_nat_alt)
    with False d show ?thesis by (simp add: hex_digit_def hex_digit_value_def word_le_nat_alt)
  qed
qed

lemma hex_fold:
  "foldl (\<lambda>n b. n * 16 + hex_digit_value b) acc
     (map (\<lambda>i. hex_digit (ucast (drop_bit (i * 4) v AND 0xf))) (rev [0..<k]))
   = acc * 16 ^ k + unat (v :: u64) mod 16 ^ k"
proof (induction k arbitrary: acc)
  case 0
  then show ?case by simp
next
  case (Suc k)
  have "unat (ucast (drop_bit (k * 4) v AND 0xf) :: u8) = unat v div 16 ^ k mod 16"
    by (subst unat_ucast_small) (simp_all add: nibble less_trans [OF mod_less_divisor])
  then have "hex_digit_value (hex_digit (ucast (drop_bit (k * 4) v AND 0xf)))
    = unat v div 16 ^ k mod 16"
    by (subst hex_digit_round) simp_all
  moreover have "unat v mod (16 ^ k * 16) = 16 ^ k * (unat v div 16 ^ k mod 16) + unat v mod 16 ^ k"
    by (rule mod_mult2_eq)
  ultimately show ?case
    using Suc.IH by (simp add: algebra_simps)
qed

section \<open>Properties\<close>

text \<open>\<open>write_dec_u64\<close> prints the decimal notation of every 64-bit value: the 20-byte buffer is
  always large enough, all bytes are decimal digits, there is no leading zero except for 0 itself,
  and the digits denote the value.\<close>

theorem write_dec_roundtrip:
  "\<exists>bs. write_dec_u64 v s = s\<lparr>serial_out := serial_out s @ bs\<rparr> \<and> dec_value bs = unat v
    \<and> list_all (\<lambda>b. 48 \<le> unat b \<and> unat b \<le> 57) bs \<and> (hd bs = 48 \<longleftrightarrow> v = 0)"
proof (intro exI conjI)
  show "write_dec_u64 v s = s\<lparr>serial_out := serial_out s @ dec_bytes v\<rparr>"
    by (rule write_dec_eq)
  have bound: "unat v < 10 ^ 20" using unat_u64_lt [of v] by simp
  then show "dec_value (dec_bytes v) = unat v"
    by (simp add: dec_bytes_def dec_value_rev dec_fill_value) (simp add: dec_value_def)
  show "list_all (\<lambda>b. 48 \<le> unat b \<and> unat b \<le> 57) (dec_bytes v)"
    using dec_fill_digits [of _ 20 v] by (auto simp: dec_bytes_def list_all_iff)
  show "hd (dec_bytes v) = 48 \<longleftrightarrow> v = 0"
    using dec_fill_last [of v 20] bound by (simp add: dec_bytes_def hd_rev)
qed

text \<open>C36: \<open>write_hex_u64\<close> prints \<open>0x\<close> followed by exactly sixteen digits that denote the value.\<close>

theorem write_hex_roundtrip:
  "\<exists>bs. write_hex_u64 v s = s\<lparr>serial_out := serial_out s @ map of_char ''0x'' @ bs\<rparr>
    \<and> length bs = 16 \<and> hex_value bs = unat v"
proof (intro exI conjI)
  show "write_hex_u64 v s = s\<lparr>serial_out := serial_out s @ map of_char ''0x'' @ hex_bytes v\<rparr>"
    by (rule write_hex_eq)
  show "length (hex_bytes v) = 16" by (simp add: hex_bytes_def)
  have "hex_value (hex_bytes v) = 0 * 16 ^ 16 + unat v mod 16 ^ 16"
    unfolding hex_value_def hex_bytes_def by (rule hex_fold)
  then show "hex_value (hex_bytes v) = unat v" using unat_u64_lt [of v] by simp
qed

lemma wait_thr_ready:
  "status (k + n) AND 0x20 \<noteq> 0 \<Longrightarrow> \<forall>i < n. status (k + i) AND 0x20 = 0 \<Longrightarrow>
    wait_thr status k = Some (k + n)"
proof (induction n arbitrary: k)
  case 0
  then show ?case by (simp add: wait_thr.simps)
next
  case (Suc n)
  from Suc.prems(2) have "status k AND 0x20 = 0" "\<forall>i < n. status (Suc k + i) AND 0x20 = 0"
    by force+
  with Suc.IH [of "Suc k"] Suc.prems(1) show ?case by (subst wait_thr.simps) simp
qed

lemma wait_thr_result: "wait_thr status k = Some j \<Longrightarrow> k \<le> j \<and> status j AND 0x20 \<noteq> 0"
proof (erule wait_thr.raw_induct [where P = "\<lambda>st k j. k \<le> j \<and> st j AND 0x20 \<noteq> 0", rotated])
  fix f :: "(nat \<Rightarrow> u8) \<Rightarrow> nat \<Rightarrow> nat option" and st k j
  assume "\<And>st k j. f st k = Some j \<Longrightarrow> k \<le> j \<and> st j AND 0x20 \<noteq> 0"
    and "(if st k AND 0x20 = 0 then f st (Suc k) else Some k) = Some j"
  then show "k \<le> j \<and> st j AND 0x20 \<noteq> 0" by (fastforce split: if_splits)
qed

text \<open>The busy-wait of \<open>write_byte\<close> returns exactly when some later status read has the
  transmit-empty bit, and then at the first such read; on a device that never sets it the loop does
  not return.\<close>

theorem wait_thr_spec:
  "wait_thr status k =
    (if \<exists>n. status (k + n) AND 0x20 \<noteq> 0
     then Some (k + (LEAST n. status (k + n) AND 0x20 \<noteq> 0)) else None)"
proof (cases "\<exists>n. status (k + n) AND 0x20 \<noteq> 0")
  case True
  let ?n = "LEAST n. status (k + n) AND 0x20 \<noteq> 0"
  from True have "status (k + ?n) AND 0x20 \<noteq> 0" by (rule LeastI_ex)
  moreover have "\<forall>i < ?n. status (k + i) AND 0x20 = 0" using not_less_Least by blast
  ultimately show ?thesis using True wait_thr_ready by simp
next
  case False
  then have "wait_thr status k \<noteq> Some j" for j
    using wait_thr_result [of status k j] by (metis le_iff_add)
  with False show ?thesis by (cases "wait_thr status k") auto
qed

end
