(* ===== verification/Paging.thy ===== *)
theory Paging
  imports PageTable Pmm_Alloc Serial
begin

text \<open>
  The kernel's page tables, \<^verbatim>\<open>kernel/src/arch/x86_64/paging.rs\<close>: the identity map and higher-half
  direct map built at boot, and the on-demand 4 KiB mappings of the KMAP region. Pointers into the
  direct map are virtual addresses; a dereference of one reaches the physical byte the direct map
  assigns to it, which is what the theorems about \<open>paging_init\<close> justify.
\<close>

section \<open>State and operations\<close>

definition HUGE_2M :: u64 where
  "HUGE_2M = 2 * 1024 * 1024"

definition GIB :: u64 where
  "GIB = 1024 * 1024 * 1024"

definition HHDM_BASE :: u64 where
  "HHDM_BASE = 0xffff800000000000"

definition KMAP_BASE :: u64 where
  "KMAP_BASE = 0xffffff0000000000"

definition KMAP_PML4_INDEX :: u64 where
  "KMAP_PML4_INDEX = 510"

record paging_state = pmm_state +
  PML4_PHYS :: u64
  KMAP_NEXT :: u64

definition phys_to_virt :: "u64 \<Rightarrow> u64" where
  "phys_to_virt phys = HHDM_BASE + phys"

text \<open>Accesses through direct-map pointers.\<close>

definition vread64 :: "u64 \<Rightarrow> 'z machine_scheme \<Rightarrow> u64" where
  "vread64 va s = rd64 (mem s) (va - HHDM_BASE)"

definition vwrite64 :: "u64 \<Rightarrow> u64 \<Rightarrow> 'z machine_scheme \<Rightarrow> 'z machine_scheme" where
  "vwrite64 va v s = s\<lparr>mem := wr64 (mem s) (va - HHDM_BASE) v\<rparr>"

definition vread8 :: "u64 \<Rightarrow> 'z machine_scheme \<Rightarrow> u8" where
  "vread8 va s = mem s (va - HHDM_BASE)"

definition vwrite8 :: "u64 \<Rightarrow> u8 \<Rightarrow> 'z machine_scheme \<Rightarrow> 'z machine_scheme" where
  "vwrite8 va v s = s\<lparr>mem := (mem s)(va - HHDM_BASE := v)\<rparr>"

definition zero_page :: "u64 \<Rightarrow> 'z machine_scheme \<Rightarrow> 'z machine_scheme" where
  "zero_page p s = s\<lparr>mem := zero_frame p (mem s)\<rparr>"

definition alloc_table_msg ::
  "string \<Rightarrow> 'z pmm_state_scheme \<Rightarrow> (u64 \<times> 'z pmm_state_scheme) outcome" where
  "alloc_table_msg msg s =
     and_then (alloc_pages 1 s) (\<lambda>(r, s1).
       and_then (expect msg r) (\<lambda>p. Inr (p, zero_page p s1)))"

definition paging_alloc_table :: "'z pmm_state_scheme \<Rightarrow> (u64 \<times> 'z pmm_state_scheme) outcome" where
  "paging_alloc_table = alloc_table_msg ''paging: alloc_pages failed''"

definition load_cr3 :: "u64 \<Rightarrow> 'z machine_scheme \<Rightarrow> 'z machine_scheme" where
  "load_cr3 pml4_phys s = s\<lparr>cr3 := pml4_phys\<rparr>"

definition table_entry_mut :: "u64 \<Rightarrow> u64 \<Rightarrow> u64" where
  "table_entry_mut table_phys idx = phys_to_virt table_phys + 8 * idx"

definition kget_or_alloc_table ::
  "u64 \<Rightarrow> 'z pmm_state_scheme \<Rightarrow> (u64 \<times> 'z pmm_state_scheme) outcome" where
  "kget_or_alloc_table ent s =
     (let v = vread64 ent s in
      if v AND PTE_P \<noteq> 0 then Inr (v AND 0x000ffffffffff000, s)
      else and_then (paging_alloc_table s) (\<lambda>(t, s1).
             Inr (t, vwrite64 ent (t OR (PTE_P OR PTE_RW)) s1)))"

text \<open>The address-translation cache is not part of the machine state, so \<open>invlpg\<close> has no effect
  in the model.\<close>

definition kmap_map_4k ::
  "u64 \<Rightarrow> u64 \<Rightarrow> u64 \<Rightarrow> 'z paging_state_scheme \<Rightarrow> (unit \<times> 'z paging_state_scheme) outcome" where
  "kmap_map_4k virt0 phys0 flags s =
     (let virt = align_down virt0 PAGE_SIZE; phys = align_down phys0 PAGE_SIZE;
          pml4 = PML4_PHYS s in
      if pml4 = 0 then Inr ((), write_str (''kmap: paging not initialized'' @ nl) s)
      else and_then (kget_or_alloc_table (table_entry_mut pml4 KMAP_PML4_INDEX) s) (\<lambda>(pdpt, s1).
           and_then (kget_or_alloc_table (table_entry_mut pdpt (pt_index 30 virt)) s1) (\<lambda>(pd, s2).
           and_then (kget_or_alloc_table (table_entry_mut pd (pt_index 21 virt)) s2) (\<lambda>(pt, s3).
           Inr ((), vwrite64 (table_entry_mut pt (pt_index 12 virt))
                      (phys OR (PTE_P OR PTE_RW) OR flags) s3)))))"

definition kmap_alloc_4k ::
  "u64 \<Rightarrow> 'z paging_state_scheme \<Rightarrow> (u64 \<times> 'z paging_state_scheme) outcome" where
  "kmap_alloc_4k phys s =
     (let virt = KMAP_NEXT s; s1 = s\<lparr>KMAP_NEXT := KMAP_NEXT s + PAGE_SIZE\<rparr> in
      and_then (kmap_map_4k virt phys 0 s1) (\<lambda>(_, s2). Inr (virt, s2)))"

text \<open>The boot-time tables are written through the identity map of the firmware. The products
  \<open>i * GIB\<close> and \<open>j * HUGE_2M\<close> stay below \<open>2 ^ 39\<close> because both indices are below 512.\<close>

definition fill_pd :: "u64 \<Rightarrow> u64 \<Rightarrow> memory \<Rightarrow> memory" where
  "fill_pd pd chunk_base m =
     fold (\<lambda>j m. wr64 m (pd + 8 * of_nat j)
             ((chunk_base + of_nat j * HUGE_2M) OR (PTE_P OR PTE_RW OR PTE_PS))) [0..<512] m"

fun map_chunks ::
  "u64 \<Rightarrow> nat list \<Rightarrow> 'z pmm_state_scheme \<Rightarrow> 'z pmm_state_scheme outcome" where
  "map_chunks pdpt [] s = Inr s"
| "map_chunks pdpt (i # is) s =
     and_then (paging_alloc_table s) (\<lambda>(pd, s1).
       let m1 = wr64 (mem s1) (pdpt + 8 * of_nat i) (pd OR (PTE_P OR PTE_RW));
           m2 = fill_pd pd (of_nat i * GIB) m1 in
       map_chunks pdpt is (s1\<lparr>mem := m2\<rparr>))"

definition pdpt_entries_for :: "u64 \<Rightarrow> (u64 \<times> nat) outcome" where
  "pdpt_entries_for max_phys_addr_inclusive =
     and_then (align_up (saturating_add max_phys_addr_inclusive 1) GIB) (\<lambda>max_end.
       and_then (add_chk max_end (GIB - 1)) (\<lambda>x. Inr (max_end, unat (min (x div GIB) 512))))"

definition paging_init ::
  "u64 \<Rightarrow> 'z paging_state_scheme \<Rightarrow> (unit \<times> 'z paging_state_scheme) outcome" where
  "paging_init max_phys_addr_inclusive s =
     and_then (pdpt_entries_for max_phys_addr_inclusive) (\<lambda>(max_end, pdpt_entries).
     if pdpt_entries = 0 then Inr ((), write_str (''paging: max_end too small'' @ nl) s)
     else and_then (paging_alloc_table s) (\<lambda>(pml4, s1).
          and_then (paging_alloc_table s1) (\<lambda>(pdpt, s2).
          let m1 = wr64 (mem s2) (pml4 + 8 * 0) (pdpt OR (PTE_P OR PTE_RW));
              m2 = wr64 m1 (pml4 + 8 * 256) (pdpt OR (PTE_P OR PTE_RW)) in
          and_then (map_chunks pdpt [0..<pdpt_entries] (s2\<lparr>mem := m2\<rparr>)) (\<lambda>s3.
          let s4 = write_str ''paging: loading new cr3, identity map up to '' s3;
              s5 = write_dec_u64 (max_end div GIB) s4;
              s6 = write_str (''GiB (HHDM enabled)'' @ nl) s5;
              s7 = load_cr3 pml4 s6;
              s8 = s7\<lparr>PML4_PHYS := pml4\<rparr> in
          Inr ((), write_str (''paging: enabled'' @ nl) s8)))))"

definition kmap_smoke_test ::
  "'z paging_state_scheme \<Rightarrow> (unit \<times> 'z paging_state_scheme) outcome" where
  "kmap_smoke_test s =
     and_then (alloc_frame s) (\<lambda>(r, s1). case r of
       None \<Rightarrow> Inr ((), write_str (''kmap: alloc_frame failed'' @ nl) s1)
     | Some p \<Rightarrow>
         and_then (kmap_alloc_4k p s1) (\<lambda>(v, s2).
           let s3 = write_str ''kmap: mapped p='' s2;
               s4 = write_hex_u64 p s3;
               s5 = write_str '' v='' s4;
               s6 = write_hex_u64 v s5;
               s7 = write_str nl s6 in
           case mmu_walk (mem s7) (cr3 s7) v of
             None \<Rightarrow> Inl (Explicit ''page fault'')
           | Some pa \<Rightarrow>
               let s8 = s7\<lparr>mem := wr64 (mem s7) pa 0x1122334455667788\<rparr>;
                   r = rd64 (mem s8) pa;
                   s9 = write_str ''kmap: readback='' s8;
                   s10 = write_hex_u64 r s9 in
               Inr ((), write_str nl s10)))"

end
