(* ===== verification/Paging_Props.thy ===== *)
theory Paging_Props
  imports Paging
begin

text \<open>
  What the page tables the kernel builds mean to the processor. The tables are followed through the
  frame allocator: a frame that holds a table is in use, so a later table never reuses it, and the
  entries already written survive. \<open>paging_init\<close> maps all memory up to the given size twice, at its own
  address and in the direct map, which is what the accesses through \<open>phys_to_virt\<close> rely on.
\<close>

section \<open>Frames in use\<close>

definition mem_ok :: "'z pmm_state_scheme \<Rightarrow> bool" where
  "mem_ok s \<longleftrightarrow> pmm_inv s \<and> pmm_free s \<subseteq> {..<2 ^ 52}"

definition used :: "u64 \<Rightarrow> 'z pmm_state_scheme \<Rightarrow> bool" where
  "used t s \<longleftrightarrow> frame_ok t \<and> unat t \<notin> pmm_free s"

lemma used_frame [simp]: "used t s \<Longrightarrow> frame_ok t"
  by (simp add: used_def)

lemma mem_ok_cong: "PMM s' = PMM s \<Longrightarrow> mem_ok s' = mem_ok s" "PMM s' = PMM s \<Longrightarrow> used t s' = used t s"
  by (simp_all add: mem_ok_def pmm_inv_def pmm_free_def used_def)

lemma alloc_page_post:
  assumes "mem_ok s" "alloc_pages 1 s = Inr (Some p, s')"
  shows "\<exists>pm. s' = s\<lparr>PMM := Some pm\<rparr>" "mem_ok s'" "frame_ok p" "used p s'" "unat p \<in> pmm_free s"
    "used t s \<Longrightarrow> used t s' \<and> t \<noteq> p"
proof -
  have inv: "pmm_inv s" and below: "pmm_free s \<subseteq> {..<2 ^ 52}" using assms(1) by (simp_all add: mem_ok_def)
  have g: "block p 1 \<subseteq> pmm_free s" "pmm_free s' \<subseteq> pmm_free s - block p 1" "4096 dvd unat p"
    using pmm.alloc_grant [OF inv assms(2)] by auto
  have p: "unat p \<in> block p 1" by (simp add: block_def)
  show "\<exists>pm. s' = s\<lparr>PMM := Some pm\<rparr>"
    using assms(2) by (auto simp: alloc_pages_def split: option.splits if_splits elim!: and_then_InrE)
  show "mem_ok s'" using pmm.alloc_inv [OF inv assms(2)] g(2) below by (auto simp: mem_ok_def)
  show f: "frame_ok p" using g p below by (auto simp: frame_ok_def)
  show "unat p \<in> pmm_free s" using g(1) p by blast
  show "used p s'" using g p f by (auto simp: used_def)
  show "used t s \<Longrightarrow> used t s' \<and> t \<noteq> p" using g p by (auto simp: used_def)
qed

lemma alloc_table_post:
  assumes "mem_ok s" "alloc_table_msg msg s = Inr (p, s')"
  shows "\<exists>pm. s' = s\<lparr>PMM := Some pm, mem := zero_frame p (mem s)\<rparr>" "mem_ok s'" "used p s'" "unat p \<in> pmm_free s"
    "used t s \<Longrightarrow> used t s' \<and> t \<noteq> p"
proof -
  from assms(2) obtain s1 where a: "alloc_pages 1 s = Inr (Some p, s1)" and s': "s' = zero_page p s1"
    by (auto simp: alloc_table_msg_def elim!: and_then_InrE)
  note f = alloc_page_post [OF assms(1) a]
  have c: "PMM s' = PMM s1" by (simp add: s' zero_page_def)
  show "\<exists>pm. s' = s\<lparr>PMM := Some pm, mem := zero_frame p (mem s)\<rparr>"
    using f(1) by (auto simp: s' zero_page_def)
  show "mem_ok s'" "used p s'" "unat p \<in> pmm_free s" "used t s \<Longrightarrow> used t s' \<and> t \<noteq> p"
    using f(2,4,5) f(6) [of t] mem_ok_cong [OF c] by auto
qed

section \<open>The bits of entries and addresses\<close>

lemmas pte_flags = PTE_P_def PTE_RW_def PTE_U_def PTE_PS_def

lemma table_entry_bits:
  assumes "frame_ok t"
  shows "(t OR (PTE_P OR PTE_RW)) AND ADDR_MASK = t" "(t OR (PTE_P OR PTE_RW)) AND PTE_P = PTE_P"
    "(t OR (PTE_P OR PTE_RW)) AND PTE_PS = 0"
proof -
  have f: "PTE_P OR PTE_RW = 3" by (simp add: pte_flags)
  show "(t OR (PTE_P OR PTE_RW)) AND ADDR_MASK = t" unfolding f by (rule frame_or_flags_addr [OF assms]) simp
  show "(t OR (PTE_P OR PTE_RW)) AND PTE_P = PTE_P"
    unfolding f by (subst frame_or_flags_low [OF assms]) (simp_all add: pte_flags)
  show "(t OR (PTE_P OR PTE_RW)) AND PTE_PS = 0"
    unfolding f by (subst frame_or_flags_low [OF assms]) (simp_all add: pte_flags)
qed

text \<open>An address split into the index of its GiB, the index of its 2 MiB page in it and the offset.\<close>

lemma unat_pt_index: "unat (pt_index k v) = unat v div 2 ^ k mod 512"
proof -
  have "pt_index k v = take_bit 9 (drop_bit k v)"
    by (simp add: pt_index_def take_bit_eq_mask mask_eq_exp_minus_1)
  then have "unat (pt_index k v) = drop_bit k (unat v) mod 2 ^ 9"
    by (simp only: unat_take_bit_word unat_drop_bit_eq)
  then show ?thesis by (simp add: drop_bit_eq_div)
qed

lemma bit_2m_mask: "bit (0x000fffffffe00000 :: u64) n \<longleftrightarrow> 21 \<le> n \<and> n < 52"
proof -
  have eq: "(0x000fffffffe00000 :: u64) = push_bit 21 (mask 31)"
    by (simp add: mask_eq_exp_minus_1 push_bit_eq_mult)
  show ?thesis unfolding eq by (auto simp: bit_simps)
qed

lemma aligned_bit:
  assumes "take_bit k (y :: u64) = 0" "bit y n"
  shows "k \<le> n"
  using assms by (metis bit_0_eq bit_take_bit_iff bot_apply bot_bool_def leI)

lemma huge_entry_bits:
  assumes "take_bit 21 y = 0" "unat y < 2 ^ 52"
  defines "e \<equiv> y OR (PTE_P OR PTE_RW OR PTE_PS)"
  shows "e AND 0x000fffffffe00000 = y" "e AND PTE_P = PTE_P" "e AND PTE_PS \<noteq> 0"
proof -
  have "take_bit 52 y = y" using assms(2) by (simp add: word_unat_eq_iff unat_take_bit_word)
  then have hi: "bit y n \<Longrightarrow> n < 52" for n by (metis bit_take_bit_iff)
  note lo = aligned_bit [OF assms(1)]
  have f: "PTE_P OR PTE_RW OR PTE_PS = 0x83" "PTE_P = 1" by (simp_all add: pte_flags)
  have "take_bit 8 (0x83 :: u64) = 0x83" by simp
  then have fl: "bit (0x83 :: u64) n \<Longrightarrow> n < 8" for n by (metis bit_take_bit_iff)
  show "e AND 0x000fffffffe00000 = y"
    unfolding e_def f(1)
    by (intro bit_eqI) (simp only: bit_and_iff bit_or_iff bit_2m_mask, use hi lo fl in force)
  have "bit (e :: u64) 0" unfolding e_def f(1) bit_or_iff by simp
  then show "e AND PTE_P = PTE_P" by (simp add: f(2) and_one_eq bit_0 mod_2_eq_odd)
  have "bit (e AND PTE_PS) 7" by (simp add: e_def pte_flags bit_simps bit_iff_odd_drop_bit)
  then show "e AND PTE_PS \<noteq> 0" by auto
qed

section \<open>The tables of the direct map\<close>

definition chunk_entry :: "nat \<Rightarrow> nat \<Rightarrow> u64" where
  "chunk_entry i j = (of_nat i * GIB + of_nat j * HUGE_2M) OR (PTE_P OR PTE_RW OR PTE_PS)"

lemma of_nat_512: "j < 512 \<Longrightarrow> (of_nat j :: u64) < 512" "j < 512 \<Longrightarrow> unat (of_nat j :: u64) = j"
  by (simp_all add: word_less_nat_alt unat_of_nat)

lemma te_fill_pd:
  assumes "frame_ok pd" "frame_ok t" "k < 512"
  shows "te (fill_pd pd base m) t k =
    (if t = pd then (base + k * HUGE_2M) OR (PTE_P OR PTE_RW OR PTE_PS) else te m t k)"
proof -
  let ?v = "\<lambda>j :: u64. (base + j * HUGE_2M) OR (PTE_P OR PTE_RW OR PTE_PS)"
  have k: "unat k < 512" using assms(3) by (simp add: word_less_nat_alt)
  have "te (fold (\<lambda>j m. wr64 m (pd + 8 * of_nat j) (?v (of_nat j))) [0..<n] m) t k =
      (if t = pd \<and> unat k < n then ?v k else te m t k)" if "n \<le> 512" for n
    using that
  proof (induction n)
    case (Suc n)
    then have n: "(of_nat n :: u64) < 512" "unat (of_nat n :: u64) = n" by (simp_all add: of_nat_512)
    have "of_nat n = k \<longleftrightarrow> unat k = n" using n(2) by (auto simp: word_unat_eq_iff)
    with Suc te_wr64 [OF assms(1) n(1) assms(2,3)] show ?case
      by (auto simp: entry_def less_Suc_eq)
  qed simp
  from this [of 512] k show ?thesis unfolding fill_pd_def by simp
qed

text \<open>The first \<open>n\<close> entries of the table \<open>pdpt\<close> map \<open>n\<close> GiB, through tables that are in use and are none of the
  tables \<open>avoid\<close>.\<close>

definition chunks_at :: "u64 \<Rightarrow> u64 set \<Rightarrow> nat \<Rightarrow> 'z pmm_state_scheme \<Rightarrow> bool" where
  "chunks_at pdpt avoid n s \<longleftrightarrow> (\<forall>i < n. \<exists>pd. used pd s \<and> pd \<notin> avoid
     \<and> te (mem s) pdpt (of_nat i) = pd OR (PTE_P OR PTE_RW)
     \<and> (\<forall>j < 512. te (mem s) pd (of_nat j) = chunk_entry i j))"

lemma map_chunk_step:
  assumes "mem_ok s" "used pdpt s" "pdpt \<in> avoid" "\<forall>t \<in> avoid. used t s" "chunks_at pdpt avoid n s" "n < 512"
    "paging_alloc_table s = Inr (pd, s1)"
  defines "s2 \<equiv> s1\<lparr>mem := fill_pd pd (of_nat n * GIB) (wr64 (mem s1) (pdpt + 8 * of_nat n) (pd OR (PTE_P OR PTE_RW)))\<rparr>"
  shows "mem_ok s2" "used t s \<Longrightarrow> used t s2" "chunks_at pdpt avoid (Suc n) s2"
    "t \<in> avoid \<Longrightarrow> t \<noteq> pdpt \<Longrightarrow> k < 512 \<Longrightarrow> te (mem s2) t k = te (mem s) t k"
proof -
  note a = alloc_table_post [OF assms(1) assms(7) [unfolded paging_alloc_table_def]]
  have c: "PMM s2 = PMM s1" by (simp add: s2_def)
  note cong = mem_ok_cong [OF c]
  show "mem_ok s2" using a(2) by (simp add: cong)
  show u: "used t s \<Longrightarrow> used t s2" for t using a(5) by (simp add: cong)
  have pd: "used pd s2" "frame_ok pd" using a(3) by (auto simp: cong)
  have ne: "t \<noteq> pd" if "used t s" for t using a(5) that by blast
  have m1: "mem s1 = zero_frame pd (mem s)" using a(1) by auto
  have n: "(of_nat n :: u64) < 512" using assms(6) by (rule of_nat_512)
  have te: "te (mem s2) t k = (if t = pd then (of_nat n * GIB + k * HUGE_2M) OR (PTE_P OR PTE_RW OR PTE_PS)
      else if t = pdpt \<and> k = of_nat n then pd OR (PTE_P OR PTE_RW) else te (mem s) t k)"
    if "frame_ok t" "k < 512" for t k
  proof -
    have "te (wr64 (zero_frame pd (mem s)) (pdpt + 8 * of_nat n) v) t k =
        (if pdpt = t \<and> of_nat n = k then v else if t = pd then 0 else te (mem s) t k)" for v
      using te_wr64 [OF used_frame [OF assms(2)] n that, of "zero_frame pd (mem s)" v] te_zero_frame [OF pd(2) that]
      by (auto simp: entry_def)
    then show ?thesis using te_fill_pd [OF pd(2) that] by (auto simp: s2_def m1)
  qed
  show "t \<in> avoid \<Longrightarrow> t \<noteq> pdpt \<Longrightarrow> k < 512 \<Longrightarrow> te (mem s2) t k = te (mem s) t k"
    using assms(4) ne te by (auto dest: used_frame)
  show "chunks_at pdpt avoid (Suc n) s2"
    unfolding chunks_at_def
  proof (intro allI impI)
    fix i assume "i < Suc n"
    show "\<exists>pd. used pd s2 \<and> pd \<notin> avoid \<and> te (mem s2) pdpt (of_nat i) = pd OR (PTE_P OR PTE_RW)
       \<and> (\<forall>j < 512. te (mem s2) pd (of_nat j) = chunk_entry i j)"
    proof (cases "i = n")
      case True
      then show ?thesis
        using pd ne [OF assms(2)] ne assms(4) te [OF used_frame [OF assms(2)] n] te [OF pd(2)] of_nat_512(1)
        by (intro exI [of _ pd]) (auto simp: chunk_entry_def)
    next
      case False
      with \<open>i < Suc n\<close> have i: "i < n" by simp
      with assms(5) obtain pd' where old: "used pd' s" "pd' \<notin> avoid"
        "te (mem s) pdpt (of_nat i) = pd' OR (PTE_P OR PTE_RW)"
        "\<forall>j < 512. te (mem s) pd' (of_nat j) = chunk_entry i j"
        unfolding chunks_at_def by blast
      have d: "(of_nat i :: u64) \<noteq> of_nat n" "(of_nat i :: u64) < 512"
        using i assms(6) of_nat_512(2) [of i] of_nat_512(2) [of n] of_nat_512(1) [of i] by (auto simp: word_unat_eq_iff)
      have "pd' \<noteq> pdpt" using old(2) assms(3) by blast
      with old d ne [OF old(1)] ne [OF assms(2)] u te [OF used_frame [OF assms(2)] d(2)]
        te [OF used_frame [OF old(1)]] of_nat_512(1) show ?thesis
        by (intro exI [of _ pd']) auto
    qed
  qed
qed

lemma map_chunks_post:
  assumes "mem_ok s" "used pdpt s" "pdpt \<in> avoid" "\<forall>t \<in> avoid. used t s" "chunks_at pdpt avoid n s" "n \<le> N" "N \<le> 512"
    "map_chunks pdpt [n..<N] s = Inr s'"
  shows "mem_ok s' \<and> chunks_at pdpt avoid N s' \<and> (\<forall>t. used t s \<longrightarrow> used t s')
    \<and> (\<forall>t \<in> avoid. \<forall>k < 512. t \<noteq> pdpt \<longrightarrow> te (mem s') t k = te (mem s) t k)"
  using assms
proof (induction "N - n" arbitrary: n s)
  case 0
  then show ?case by simp
next
  case (Suc d)
  then have n: "n < N" "n < 512" "[n..<N] = n # [Suc n..<N]" by (simp_all add: upt_conv_Cons)
  from Suc(10) n(3) obtain pd s1 where a: "paging_alloc_table s = Inr (pd, s1)"
    and r: "map_chunks pdpt [Suc n..<N] (s1\<lparr>mem := fill_pd pd (of_nat n * GIB)
        (wr64 (mem s1) (pdpt + 8 * of_nat n) (pd OR (PTE_P OR PTE_RW)))\<rparr>) = Inr s'"
    by (auto simp: Let_def elim!: and_then_InrE)
  note st = map_chunk_step [OF Suc(3-7) n(2) a]
  have "mem_ok s' \<and> chunks_at pdpt avoid N s'
    \<and> (\<forall>t. used t (s1\<lparr>mem := fill_pd pd (of_nat n * GIB) (wr64 (mem s1) (pdpt + 8 * of_nat n)
        (pd OR (PTE_P OR PTE_RW)))\<rparr>) \<longrightarrow> used t s')
    \<and> (\<forall>t \<in> avoid. \<forall>k < 512. t \<noteq> pdpt \<longrightarrow> te (mem s') t k = te (mem (s1\<lparr>mem := fill_pd pd (of_nat n * GIB)
        (wr64 (mem s1) (pdpt + 8 * of_nat n) (pd OR (PTE_P OR PTE_RW)))\<rparr>)) t k)"
    by (rule Suc(1)) (use Suc n r st(1-3) in auto)
  with st(2,4) show ?case by auto
qed

section \<open>Translation through the tables\<close>

lemma canonical_low: "unat v < 2 ^ 47 \<Longrightarrow> canonical v"
  by (simp add: canonical_def word_less_nat_alt)

lemma walk_2m:
  assumes "frame_ok root" "frame_ok pdpt" "frame_ok pd" "canonical v" "take_bit 21 y = 0" "unat y < 2 ^ 52"
    "te m root (pt_index 39 v) = pdpt OR (PTE_P OR PTE_RW)" "te m pdpt (pt_index 30 v) = pd OR (PTE_P OR PTE_RW)"
    "te m pd (pt_index 21 v) = y OR (PTE_P OR PTE_RW OR PTE_PS)"
  shows "mmu_walk m root v = Some (y + (v AND 0x1fffff))"
  using assms(4,7-9) table_entry_bits [OF assms(2)] table_entry_bits [OF assms(3)] huge_entry_bits [OF assms(5,6)]
    frame_and_mask [OF assms(1)]
  by (simp add: mmu_walk_def mmu_walk_req_def Let_def)

text \<open>A physical address below 512 GiB, taken apart.\<close>

lemma phys_split:
  fixes x :: u64
  assumes "unat x < 2 ^ 39"
  defines "i \<equiv> unat x div 2 ^ 30" and "j \<equiv> unat x div 2 ^ 21 mod 512"
  defines "y \<equiv> of_nat i * GIB + of_nat j * HUGE_2M"
  shows "i < 512" "j < 512" "take_bit 21 y = 0" "unat y < 2 ^ 52" "y + (x AND 0x1fffff) = x"
proof -
  show ij: "i < 512" "j < 512" using assms(1) by (simp_all add: i_def j_def)
  have g: "unat (of_nat i * GIB) = i * 2 ^ 30"
    using ij by (subst unat_mul_no_wrap) (simp_all add: of_nat_512 GIB_def)
  have h: "unat (of_nat j * HUGE_2M) = j * 2 ^ 21"
    using ij by (subst unat_mul_no_wrap) (simp_all add: of_nat_512 HUGE_2M_def)
  have y: "unat y = i * 2 ^ 30 + j * 2 ^ 21"
    unfolding y_def using ij g h by (subst unat_add_no_wrap) simp_all
  then show "unat y < 2 ^ 52" using ij by simp
  have "unat y mod 2 ^ 21 = 0" unfolding y by (simp add: mod_add_eq [symmetric])
  then show "take_bit 21 y = 0" by (simp add: word_unat_eq_iff unat_take_bit_word)
  have "x AND 0x1fffff = take_bit 21 x" by (simp add: take_bit_eq_mask mask_eq_exp_minus_1)
  then have o: "unat (x AND 0x1fffff) = unat x mod 2 ^ 21" by (simp add: unat_take_bit_word)
  have "unat x div 2 ^ 21 = i * 512 + j"
    unfolding i_def j_def using div_mult_mod_eq [of "unat x div 2 ^ 21" 512]
    by (simp add: div_mult2_eq [symmetric])
  then have x: "unat x = i * 2 ^ 30 + j * 2 ^ 21 + unat x mod 2 ^ 21"
    using div_mult_mod_eq [of "unat x" "2 ^ 21"] by simp
  have "unat (y + (x AND 0x1fffff)) = unat y + unat (x AND 0x1fffff)"
    using y o x unat_u64_lt [of x] by (intro unat_add_no_wrap) simp
  then have "unat (y + (x AND 0x1fffff)) = unat x" using y o x by simp
  then show "y + (x AND 0x1fffff) = x" by (simp add: word_unat_eq_iff)
qed

lemma hhdm_add:
  assumes "unat x < 2 ^ 39"
  shows "unat (HHDM_BASE + x) = unat HHDM_BASE + unat x" "pt_index 39 (HHDM_BASE + x) = 256"
    "pt_index 30 (HHDM_BASE + x) = pt_index 30 x" "pt_index 21 (HHDM_BASE + x) = pt_index 21 x"
    "(HHDM_BASE + x) AND 0x1fffff = x AND 0x1fffff" "canonical (HHDM_BASE + x)"
proof -
  have b: "unat HHDM_BASE = 131071 * 2 ^ 47" by (simp add: HHDM_BASE_def)
  show u: "unat (HHDM_BASE + x) = unat HHDM_BASE + unat x"
    using assms b by (intro unat_add_no_wrap) simp
  have "(unat x + 33554176 * 2 ^ 39) div 2 ^ 39 = 33554176"
    using assms by (subst div_mult_self1) simp_all
  then have "unat (pt_index 39 (HHDM_BASE + x)) = 256"
    by (simp add: unat_pt_index u b add.commute)
  then show "pt_index 39 (HHDM_BASE + x) = 256" by (simp add: word_unat_eq_iff)
  have shift: "(unat x + 512 * c * 2 ^ k) div 2 ^ k mod 512 = unat x div 2 ^ k mod 512" for c k
    by (subst div_mult_self1) simp_all
  show "pt_index 30 (HHDM_BASE + x) = pt_index 30 x" "pt_index 21 (HHDM_BASE + x) = pt_index 21 x"
    using shift [of "131071 * 2 ^ 8" 30] shift [of "131071 * 2 ^ 17" 21]
    by (simp_all add: word_unat_eq_iff unat_pt_index u b add.commute)
  have "z AND 0x1fffff = take_bit 21 z" for z :: u64 by (simp add: take_bit_eq_mask mask_eq_exp_minus_1)
  then show "(HHDM_BASE + x) AND 0x1fffff = x AND 0x1fffff"
    by (simp add: word_unat_eq_iff unat_take_bit_word u b mod_add_eq [symmetric])
  show "canonical (HHDM_BASE + x)" using u by (simp add: canonical_def word_le_nat_alt HHDM_BASE_def)
qed

lemma chunks_walk:
  assumes "frame_ok root" "frame_ok pdpt" "chunks_at pdpt avoid n s" "n \<le> 512" "unat x < n * 2 ^ 30"
    "te (mem s) root 0 = pdpt OR (PTE_P OR PTE_RW)" "te (mem s) root 256 = pdpt OR (PTE_P OR PTE_RW)"
  shows "mmu_walk (mem s) root x = Some x" "mmu_walk (mem s) root (HHDM_BASE + x) = Some x"
proof -
  have "n * 2 ^ 30 \<le> (512 :: nat) * 2 ^ 30" using assms(4) by (intro mult_le_mono1)
  then have x: "unat x < 2 ^ 39" using assms(5) by simp
  let ?i = "unat x div 2 ^ 30" and ?j = "unat x div 2 ^ 21 mod 512"
  note sp = phys_split [OF x]
  have "?i < n" using assms(5) by (simp add: div_less_iff_less_mult)
  with assms(3) obtain pd where pd: "used pd s" "te (mem s) pdpt (of_nat ?i) = pd OR (PTE_P OR PTE_RW)"
    "\<forall>j < 512. te (mem s) pd (of_nat j) = chunk_entry ?i j" unfolding chunks_at_def by blast
  have ix: "pt_index 39 x = 0" "pt_index 30 x = of_nat ?i" "pt_index 21 x = of_nat ?j"
    using x sp(1,2) of_nat_512(2) by (simp_all add: word_unat_eq_iff unat_pt_index)
  have e: "te (mem s) pd (of_nat ?j) = (of_nat ?i * GIB + of_nat ?j * HUGE_2M) OR (PTE_P OR PTE_RW OR PTE_PS)"
    using pd(3) sp(2) by (simp add: chunk_entry_def)
  have c: "canonical x" using x by (intro canonical_low) simp
  note h = hhdm_add [OF x]
  show "mmu_walk (mem s) root x = Some x"
    using walk_2m [OF assms(1,2) used_frame [OF pd(1)] c sp(3,4)] assms(6) pd(2) e sp(5) unfolding ix by simp
  show "mmu_walk (mem s) root (HHDM_BASE + x) = Some x"
    using walk_2m [OF assms(1,2) used_frame [OF pd(1)] h(6) sp(3,4)] assms(7) pd(2) e sp(5) unfolding h ix by simp
qed

section \<open>Initialisation\<close>

lemma te_alloc:
  assumes "mem_ok s" "alloc_table_msg msg s = Inr (p, s')" "k < 512"
  shows "te (mem s') p k = 0" "used t s \<Longrightarrow> te (mem s') t k = te (mem s) t k"
proof -
  note a = alloc_table_post [OF assms(1,2)]
  have m: "mem s' = zero_frame p (mem s)" using a(1) by auto
  show "te (mem s') p k = 0" unfolding m using te_zero_frame [OF used_frame [OF a(3)] used_frame [OF a(3)] assms(3)] by simp
  show "used t s \<Longrightarrow> te (mem s') t k = te (mem s) t k"
    unfolding m using te_zero_frame [OF used_frame [OF a(3)] _ assms(3), of t] a(5) [of t] by auto
qed

text \<open>The tables after initialisation: \<open>n\<close> GiB are mapped, and the entry the KMAP region uses is empty.\<close>

definition tables_up :: "u64 \<Rightarrow> nat \<Rightarrow> 'z pmm_state_scheme \<Rightarrow> bool" where
  "tables_up root n s \<longleftrightarrow> mem_ok s \<and> used root s \<and> n \<le> 512 \<and> te (mem s) root KMAP_PML4_INDEX = 0
     \<and> (\<exists>pdpt. used pdpt s \<and> pdpt \<noteq> root \<and> chunks_at pdpt {pdpt, root} n s
         \<and> te (mem s) root 0 = pdpt OR (PTE_P OR PTE_RW) \<and> te (mem s) root 256 = pdpt OR (PTE_P OR PTE_RW))"

lemma tables_up_cong:
  assumes "PMM s' = PMM s" "mem s' = mem s"
  shows "tables_up root n s' = tables_up root n s"
  unfolding tables_up_def chunks_at_def mem_ok_cong [OF assms(1)] assms(2) ..

lemma tables_up_walk:
  assumes "tables_up root n s" "unat x < n * 2 ^ 30"
  shows "mmu_walk (mem s) root x = Some x" "mmu_walk (mem s) root (HHDM_BASE + x) = Some x"
proof -
  from assms(1) obtain pdpt where "used root s" "n \<le> 512" "used pdpt s" "chunks_at pdpt {pdpt, root} n s"
    "te (mem s) root 0 = pdpt OR (PTE_P OR PTE_RW)" "te (mem s) root 256 = pdpt OR (PTE_P OR PTE_RW)"
    unfolding tables_up_def by blast
  with chunks_walk [OF used_frame used_frame, of root s pdpt] assms(2)
  show "mmu_walk (mem s) root x = Some x" "mmu_walk (mem s) root (HHDM_BASE + x) = Some x" by blast+
qed

lemma paging_init_post:
  assumes "mem_ok s" "pdpt_entries_for m = Inr (e, n)" "n \<noteq> 0" "paging_init m s = Inr ((), s')"
  shows "tables_up (cr3 s') n s'" "PML4_PHYS s' = cr3 s'" "unat (cr3 s') \<in> pmm_free s"
proof -
  from assms(2-4) obtain root s1 pdpt s2 s3 where
    1: "paging_alloc_table s = Inr (root, s1)" and 2: "paging_alloc_table s1 = Inr (pdpt, s2)"
    and 3: "map_chunks pdpt [0..<n] (s2\<lparr>mem := wr64 (wr64 (mem s2) (root + 8 * 0) (pdpt OR (PTE_P OR PTE_RW)))
        (root + 8 * 256) (pdpt OR (PTE_P OR PTE_RW))\<rparr>) = Inr s3"
    and s': "PMM s' = PMM s3" "mem s' = mem s3" "cr3 s' = root" "PML4_PHYS s' = root"
    by (auto simp: paging_init_def Let_def load_cr3_def serial_eqs elim!: and_then_InrE)
  have n: "n \<le> 512" using assms(2)
    by (auto simp: pdpt_entries_for_def min_def word_le_nat_alt elim!: and_then_InrE)
  note a1 = alloc_table_post [OF assms(1) 1 [unfolded paging_alloc_table_def]]
  note a2 = alloc_table_post [OF a1(2) 2 [unfolded paging_alloc_table_def]]
  note t1 = te_alloc [OF assms(1) 1 [unfolded paging_alloc_table_def]]
  note t2 = te_alloc [OF a1(2) 2 [unfolded paging_alloc_table_def]]
  define m where "m = wr64 (wr64 (mem s2) (root + 8 * 0) (pdpt OR (PTE_P OR PTE_RW))) (root + 8 * 256) (pdpt OR (PTE_P OR PTE_RW))"
  define t where "t = s2\<lparr>mem := m\<rparr>"
  have cong: "mem_ok t = mem_ok s2" "used f t = used f s2" for f by (rule mem_ok_cong; simp add: t_def)+
  have u: "used root t" "used pdpt t" "root \<noteq> pdpt" "mem_ok t" using a1(3) a2(2,3) a2(5) [of root] by (auto simp: cong)
  have f: "frame_ok root" "frame_ok pdpt" using u by auto
  have te: "te m root k = (if k = 0 \<or> k = 256 then pdpt OR (PTE_P OR PTE_RW) else 0)" if "k < 512" for k
  proof -
    have "m = wr64 (wr64 (mem s2) (entry root 0) (pdpt OR (PTE_P OR PTE_RW))) (entry root 256) (pdpt OR (PTE_P OR PTE_RW))"
      by (simp add: m_def entry_def)
    then show ?thesis
      using t1(1) [OF that] t2(2) [OF that a1(3)] by (auto simp: te_wr64 f that)
  qed
  note mc = map_chunks_post [of t pdpt "{pdpt, root}" 0 n s3]
  have post: "mem_ok s3" "chunks_at pdpt {pdpt, root} n s3" "\<And>f. used f t \<Longrightarrow> used f s3"
    "\<And>k. k < 512 \<Longrightarrow> te (mem s3) root k = te m root k"
    using mc u n 3 [folded m_def t_def] by (auto simp: chunks_at_def t_def)
  have "tables_up root n s3"
    unfolding tables_up_def using post u n te by (intro conjI exI [of _ pdpt]) (auto simp: KMAP_PML4_INDEX_def)
  then show "tables_up (cr3 s') n s'" using tables_up_cong [OF s'(1,2)] s'(3) by simp
  show "PML4_PHYS s' = cr3 s'" "unat (cr3 s') \<in> pmm_free s" using s' a1(4) by simp_all
qed

end
