(* ===== verification/Kmap_Props.thy ===== *)
theory Kmap_Props
  imports Paging_Props
begin

text \<open>
  The KMAP region. \<open>lv\<close> gives the level of every table below entry 510 of the root; the invariant says
  that each of their entries is empty or points to a table one level down, that no table is pointed to
  twice, and that the tables of the direct map are none of them. A new mapping extends \<open>lv\<close> by the tables
  it allocates and changes one leaf.
\<close>

section \<open>The invariant\<close>

definition slot_level :: "u64 \<Rightarrow> (u64 \<rightharpoonup> nat) \<Rightarrow> u64 \<Rightarrow> u64 \<Rightarrow> nat option" where
  "slot_level root lv t i =
     (if i < 512 \<and> t = root \<and> i = KMAP_PML4_INDEX then Some 4
      else if i < 512 \<and> t \<noteq> root then (case lv t of Some l \<Rightarrow> if 1 < l then Some l else None | None \<Rightarrow> None)
      else None)"

definition kmap_tables :: "u64 \<Rightarrow> (u64 \<rightharpoonup> nat) \<Rightarrow> 'z pmm_state_scheme \<Rightarrow> bool" where
  "kmap_tables root lv s \<longleftrightarrow> mem_ok s \<and> used root s \<and> lv root = None
     \<and> (\<forall>t l. lv t = Some l \<longrightarrow> used t s)
     \<and> (\<forall>t i l. slot_level root lv t i = Some l \<longrightarrow> te (mem s) t i = 0
          \<or> (\<exists>c. lv c = Some (l - 1) \<and> te (mem s) t i = c OR (PTE_P OR PTE_RW)))
     \<and> (\<forall>t i t' i'. slot_level root lv t i \<noteq> None \<longrightarrow> slot_level root lv t' i' \<noteq> None
          \<longrightarrow> te (mem s) t i = te (mem s) t' i' \<longrightarrow> te (mem s) t i \<noteq> 0 \<longrightarrow> t = t' \<and> i = i')"

lemma kmap_tablesD:
  assumes "kmap_tables root lv s"
  shows "mem_ok s" "used root s" "lv root = None" "lv t = Some l \<Longrightarrow> used t s"
    "slot_level root lv t i = Some l \<Longrightarrow> te (mem s) t i = 0
      \<or> (\<exists>c. lv c = Some (l - 1) \<and> te (mem s) t i = c OR (PTE_P OR PTE_RW))"
    "slot_level root lv t i \<noteq> None \<Longrightarrow> slot_level root lv t' i' \<noteq> None \<Longrightarrow> te (mem s) t i = te (mem s) t' i'
      \<Longrightarrow> te (mem s) t i \<noteq> 0 \<Longrightarrow> t = t' \<and> i = i'"
  using assms unfolding kmap_tables_def by blast+

lemma slot_bound: "slot_level root lv t i = Some l \<Longrightarrow> i < 512"
  by (auto simp: slot_level_def split: if_splits)

lemma slot_used:
  assumes "kmap_tables root lv s" "slot_level root lv t i = Some l"
  shows "used t s"
  using assms kmap_tablesD(2,4) [OF assms(1)] by (auto simp: slot_level_def split: if_splits option.splits)

lemma kmap_tables_slots:
  assumes "kmap_tables root lv s" "PMM s' = PMM s"
    "\<And>f j l. slot_level root lv f j = Some l \<Longrightarrow> te (mem s') f j = te (mem s) f j"
  shows "kmap_tables root lv s'"
  unfolding kmap_tables_def mem_ok_cong [OF assms(2)]
proof (intro conjI allI impI)
  note d = kmap_tablesD [OF assms(1)]
  show "mem_ok s" "used root s" "lv root = None" "lv t = Some l \<Longrightarrow> used t s" for t l using d by blast+
  show "te (mem s') t i = 0 \<or> (\<exists>c. lv c = Some (l - 1) \<and> te (mem s') t i = c OR (PTE_P OR PTE_RW))"
    if "slot_level root lv t i = Some l" for t i l using d(5) [OF that] assms(3) [OF that] by simp
  fix t i t' i'
  assume h: "slot_level root lv t i \<noteq> None" "slot_level root lv t' i' \<noteq> None"
    "te (mem s') t i = te (mem s') t' i'" "te (mem s') t i \<noteq> 0"
  have "te (mem s') t i = te (mem s) t i" "te (mem s') t' i' = te (mem s) t' i'" using h(1,2) assms(3) by blast+
  then show "t = t'" "i = i'" using d(6) [OF h(1,2)] h(3,4) by metis+
qed

section \<open>Finding or making the next table\<close>

lemma vread_entry: "vread64 (table_entry_mut t i) s = te (mem s) t i"
  by (simp add: vread64_def table_entry_mut_def phys_to_virt_def te_def entry_def)

lemma vwrite_entry: "vwrite64 (table_entry_mut t i) v s = s\<lparr>mem := wr64 (mem s) (entry t i) v\<rparr>"
  by (simp add: vwrite64_def table_entry_mut_def phys_to_virt_def entry_def)

lemma table_entry_nonzero: "frame_ok t \<Longrightarrow> t OR (PTE_P OR PTE_RW) \<noteq> 0"
  using table_entry_bits(2) [of t] by (auto simp: PTE_P_def)

lemma table_entry_inject:
  "frame_ok c \<Longrightarrow> frame_ok c' \<Longrightarrow> c OR (PTE_P OR PTE_RW) = c' OR (PTE_P OR PTE_RW) \<longleftrightarrow> c = c'"
  using table_entry_bits(1) by metis

text \<open>What a step leaves alone: everything but the allocator and memory, frames in use stay in use, and the
  entries already written in them stay what they are.\<close>

definition grows :: "'z pmm_state_scheme \<Rightarrow> 'z pmm_state_scheme \<Rightarrow> bool" where
  "grows s s' \<longleftrightarrow> (\<exists>pm m. s' = s\<lparr>PMM := pm, mem := m\<rparr>) \<and> (\<forall>f. used f s \<longrightarrow> used f s')
     \<and> (\<forall>f k. used f s \<longrightarrow> k < 512 \<longrightarrow> te (mem s) f k \<noteq> 0 \<longrightarrow> te (mem s') f k = te (mem s) f k)"

lemma growsD:
  assumes "grows s s'"
  shows "\<exists>pm m. s' = s\<lparr>PMM := pm, mem := m\<rparr>" "used f s \<Longrightarrow> used f s'"
    "used f s \<Longrightarrow> k < 512 \<Longrightarrow> te (mem s) f k = e \<Longrightarrow> e \<noteq> 0 \<Longrightarrow> te (mem s') f k = e"
  using assms by (auto simp: grows_def)

lemma grows_refl [simp]: "grows s s"
proof -
  have "s = s\<lparr>PMM := PMM s, mem := mem s\<rparr>" by simp
  then show ?thesis unfolding grows_def by blast
qed

lemma grows_trans:
  assumes "grows s s1" "grows s1 s2"
  shows "grows s s2"
proof -
  obtain pm m pm' m' where "s1 = s\<lparr>PMM := pm, mem := m\<rparr>" "s2 = s1\<lparr>PMM := pm', mem := m'\<rparr>"
    using growsD(1) assms by metis
  then have "s2 = s\<lparr>PMM := pm', mem := m'\<rparr>" by simp
  moreover have "te (mem s2) f k = te (mem s) f k" if "used f s" "k < 512" "te (mem s) f k \<noteq> 0" for f k
    using that growsD(2,3) [OF assms(1)] growsD(3) [OF assms(2)] by metis
  ultimately show ?thesis unfolding grows_def using growsD(2) assms by blast
qed

lemma kget_step:
  fixes s :: "'z pmm_state_scheme"
  assumes "kmap_tables root lv s" "slot_level root lv t i = Some l" "kget_or_alloc_table (table_entry_mut t i) s = Inr (c, s')"
  obtains lv' where "kmap_tables root lv' s'" "lv \<subseteq>\<^sub>m lv'" "lv' c = Some (l - 1)"
    "te (mem s') t i = c OR (PTE_P OR PTE_RW)" "grows s s'" "\<And>f. used f s \<Longrightarrow> lv f = None \<Longrightarrow> lv' f = None"
proof (cases "te (mem s) t i = 0")
  case False
  then obtain c' where c': "lv c' = Some (l - 1)" "te (mem s) t i = c' OR (PTE_P OR PTE_RW)"
    using kmap_tablesD(5) [OF assms(1,2)] by blast
  have f: "frame_ok c'" using kmap_tablesD(4) [OF assms(1) c'(1)] by simp
  have "c = c'" "s' = s"
    using assms(3) table_entry_bits [OF f] c'(2)
    by (simp_all add: kget_or_alloc_table_def vread_entry Let_def PTE_P_def ADDR_MASK_def [symmetric])
  then show thesis using that [of lv] assms(1) c' by simp
next
  case True
  then obtain s1 where a: "alloc_table_msg ''paging: alloc_pages failed'' s = Inr (c, s1)"
    and s': "s' = s1\<lparr>mem := wr64 (mem s1) (entry t i) (c OR (PTE_P OR PTE_RW))\<rparr>"
    using assms(3)
    by (auto simp: kget_or_alloc_table_def vread_entry vwrite_entry Let_def paging_alloc_table_def elim!: and_then_InrE)
  note d = kmap_tablesD [OF assms(1)]
  note p = alloc_table_post [OF d(1) a] and z = te_alloc [OF d(1) a]
  have u: "mem_ok s' = mem_ok s1" "used f s' = used f s1" for f by (rule mem_ok_cong; simp add: s')+
  note b = slot_bound [OF assms(2)] and t = slot_used [OF assms(1,2)]
  have ft: "frame_ok t" "frame_ok c" "t \<noteq> c" using t p(3) p(5) [of t] by auto
  have fresh: "f \<noteq> c" if "used f s" for f using p(5) [OF that] by simp
  have lc: "lv c = None" using d(4) [of c] fresh by (cases "lv c") auto
  have rc: "root \<noteq> c" using fresh d(2) by simp
  have te: "te (mem s') f k = (if f = t \<and> k = i then c OR (PTE_P OR PTE_RW) else if f = c then 0 else te (mem s) f k)"
    if "used f s \<or> f = c" "k < 512" for f k
    using that ft b te_wr64 [OF ft(1) b _ that(2), of f "mem s1"] z(1) [OF that(2)] z(2) [OF that(2), of f] by (auto simp: s')
  let ?lv = "lv(c \<mapsto> l - 1)"
  have sl: "slot_level root ?lv f k = (if f = c \<and> k < 512 then (if 1 < l - 1 then Some (l - 1) else None)
      else slot_level root lv f k)" for f k
    using rc by (auto simp: slot_level_def lc)
  have su: "used f s" "k < 512" "f \<noteq> c" if "slot_level root lv f k = Some l'" for f k l'
    using that slot_used [OF assms(1) that] slot_bound [OF that] fresh by auto
  have "kmap_tables root ?lv s'"
    unfolding kmap_tables_def
  proof (intro conjI allI impI)
    show "mem_ok s'" "used root s'" "?lv root = None" using p(2,5) d(2,3) rc by (auto simp: u)
  next
    fix f l' assume "?lv f = Some l'"
    then show "used f s'" using p(3,5) d(4) by (auto simp: u split: if_splits)
  next
    fix f k l' assume h: "slot_level root ?lv f k = Some l'"
    show "te (mem s') f k = 0 \<or> (\<exists>c'. ?lv c' = Some (l' - 1) \<and> te (mem s') f k = c' OR (PTE_P OR PTE_RW))"
    proof (cases "f = c")
      case True
      then show ?thesis using te [of c k] slot_bound [OF h] ft(3) by simp
    next
      case F: False
      then have h': "slot_level root lv f k = Some l'" using h sl by simp
      show ?thesis
      proof (cases "f = t \<and> k = i")
        case True
        then show ?thesis using h' assms(2) te [of f k] su [OF h'] by auto
      next
        case False
        then have same: "te (mem s') f k = te (mem s) f k" using te [of f k] su [OF h'] by auto
        have "c' \<noteq> c" if "lv c' = Some (l' - 1)" for c' using that lc by auto
        with d(5) [OF h'] show ?thesis unfolding same by fastforce
      qed
    qed
  next
    fix f k f' k'
    assume h: "slot_level root ?lv f k \<noteq> None" "slot_level root ?lv f' k' \<noteq> None"
      "te (mem s') f k = te (mem s') f' k'" "te (mem s') f k \<noteq> 0"
    have val: "f \<noteq> c \<and> slot_level root lv f k \<noteq> None" if "slot_level root ?lv f k \<noteq> None" "te (mem s') f k \<noteq> 0" for f k
    proof -
      have "k < 512" using that(1) slot_bound by blast
      then have "f \<noteq> c" using that(2) te [of c k] ft(3) by auto
      then show ?thesis using that(1) sl by auto
    qed
    have v: "f \<noteq> c" "slot_level root lv f k \<noteq> None" "f' \<noteq> c" "slot_level root lv f' k' \<noteq> None"
      using val [OF h(1,4)] val [of f' k'] h by auto
    have old: "te (mem s) f k \<noteq> c OR (PTE_P OR PTE_RW)" if sn: "slot_level root lv f k \<noteq> None" for f k
    proof
      assume e: "te (mem s) f k = c OR (PTE_P OR PTE_RW)"
      from sn obtain l' where "slot_level root lv f k = Some l'" by blast
      from d(5) [OF this] e obtain c' where "lv c' = Some (l' - 1)" "c' OR (PTE_P OR PTE_RW) = c OR (PTE_P OR PTE_RW)"
        using table_entry_nonzero [OF ft(2)] by auto
      then show False using table_entry_inject [OF used_frame [OF d(4)] ft(2)] lc by auto
    qed
    have tt: "te (mem s') f k = (if f = t \<and> k = i then c OR (PTE_P OR PTE_RW) else te (mem s) f k)"
      if "slot_level root lv f k \<noteq> None" for f k
    proof -
      from that obtain l' where "slot_level root lv f k = Some l'" by blast
      with te [of f k] su show ?thesis by auto
    qed
    have "f = f' \<and> k = k'"
    proof (cases "f = t \<and> k = i")
      case True
      then have "te (mem s') f' k' = c OR (PTE_P OR PTE_RW)" using h(3) tt [OF v(2)] by simp
      then have "f' = t \<and> k' = i" using tt [OF v(4)] old [OF v(4)] by metis
      with True show ?thesis by simp
    next
      case False
      then have e: "te (mem s') f k = te (mem s) f k" using tt [OF v(2)] by metis
      then have "\<not> (f' = t \<and> k' = i)" using h(3) tt [OF v(4)] old [OF v(2)] by metis
      then have "te (mem s') f' k' = te (mem s) f' k'" using tt [OF v(4)] by metis
      with e h(3,4) d(6) [OF v(2,4)] show ?thesis by metis
    qed
    then show "f = f'" "k = k'" by simp_all
  qed
  moreover have "grows s s'"
    unfolding grows_def
  proof (intro conjI allI impI)
    obtain pm where "s1 = s\<lparr>PMM := Some pm, mem := zero_frame c (mem s)\<rparr>" using p(1) by blast
    then show "\<exists>pm m. s' = s\<lparr>PMM := pm, mem := m\<rparr>"
      by (intro exI [of _ "Some pm"] exI [of _ "wr64 (mem s1) (entry t i) (c OR (PTE_P OR PTE_RW))"]) (simp add: s')
    show "used f s \<Longrightarrow> used f s'" for f using p(5) by (simp add: u)
    show "te (mem s') f k = te (mem s) f k" if "used f s" "k < 512" "te (mem s) f k \<noteq> 0" for f k
      using te [of f k] that fresh [OF that(1)] \<open>te (mem s) t i = 0\<close> by auto
  qed
  moreover have "te (mem s') t i = c OR (PTE_P OR PTE_RW)" using te [of t i] t b by simp
  moreover have "lv \<subseteq>\<^sub>m ?lv" using lc by (auto simp: map_le_def)
  ultimately show thesis using that [of ?lv] fresh by auto
qed

section \<open>Addresses of the region\<close>

definition kmap_page :: "nat \<Rightarrow> u64" where
  "kmap_page i = KMAP_BASE + of_nat (4096 * i)"

lemma kmap_page_bits:
  assumes "i < 2 ^ 27"
  shows "unat (kmap_page i) = unat KMAP_BASE + 4096 * i" "pt_index 39 (kmap_page i) = KMAP_PML4_INDEX"
    "unat (pt_index 30 (kmap_page i)) = i div 2 ^ 18" "unat (pt_index 21 (kmap_page i)) = i div 2 ^ 9 mod 512"
    "unat (pt_index 12 (kmap_page i)) = i mod 512" "canonical (kmap_page i)" "align_down (kmap_page i) PAGE_SIZE = kmap_page i"
    "kmap_page i AND 0xfff = 0"
proof -
  have b: "unat KMAP_BASE = 33554430 * 2 ^ 39" by (simp add: KMAP_BASE_def)
  have "unat (of_nat (4096 * i) :: u64) = 4096 * i" using assms unfolding unat_of_nat by simp
  then show u: "unat (kmap_page i) = unat KMAP_BASE + 4096 * i"
    unfolding kmap_page_def using assms b by (subst unat_add_no_wrap) simp_all
  have sh: "(33554430 * 2 ^ 39 + 4096 * i) div 2 ^ 39 = 33554430"
    using assms by (subst add.commute, subst div_mult_self1) simp_all
  then show "pt_index 39 (kmap_page i) = KMAP_PML4_INDEX"
    by (simp add: word_unat_eq_iff unat_pt_index u b KMAP_PML4_INDEX_def)
  have d: "unat (kmap_page i) div 2 ^ 12 = 33554430 * 2 ^ 27 + i" unfolding u b by simp
  have dd: "unat (kmap_page i) div 2 ^ (12 + k) = (33554430 * 2 ^ 27 + i) div 2 ^ k" for k
    unfolding power_add div_mult2_eq d ..
  have e: "(33554430 * 2 ^ 27 + i) div 2 ^ k = 33554430 * 2 ^ (27 - k) + i div 2 ^ k" if "k \<le> 27" for k
  proof -
    have "(2 :: nat) ^ 27 = 2 ^ (27 - k) * 2 ^ k" using that by (metis le_add_diff_inverse2 power_add)
    then have "33554430 * 2 ^ 27 = (33554430 * 2 ^ (27 - k)) * (2 :: nat) ^ k" by (simp only: mult.assoc)
    moreover have "(c * 2 ^ k + i) div 2 ^ k = c + i div 2 ^ k" for c by simp
    ultimately show ?thesis by metis
  qed
  show "unat (pt_index 30 (kmap_page i)) = i div 2 ^ 18"
    using dd [of 18] e [of 18] assms by (simp add: unat_pt_index mod_add_eq [symmetric])
  show "unat (pt_index 21 (kmap_page i)) = i div 2 ^ 9 mod 512"
    using dd [of 9] e [of 9] by (simp add: unat_pt_index mod_add_eq [symmetric])
  show "unat (pt_index 12 (kmap_page i)) = i mod 512"
    using d by (simp add: unat_pt_index mod_add_eq [symmetric])
  show "canonical (kmap_page i)" using u by (simp add: canonical_def word_le_nat_alt b)
  have "unat (take_bit 12 (kmap_page i)) = 0" unfolding unat_take_bit_word u b by (simp add: mod_add_eq [symmetric])
  then have t: "take_bit 12 (kmap_page i) = 0" by (simp add: word_unat_eq_iff)
  show "kmap_page i AND 0xfff = 0" using t by (simp add: take_bit_eq_mask mask_eq_exp_minus_1)
  show "align_down (kmap_page i) PAGE_SIZE = kmap_page i"
    unfolding word_unat_eq_iff unat_align_down_page u b by simp
qed

lemma kmap_page_inject:
  assumes "i < 2 ^ 27" "j < 2 ^ 27" "pt_index 30 (kmap_page i) = pt_index 30 (kmap_page j)"
    "pt_index 21 (kmap_page i) = pt_index 21 (kmap_page j)" "pt_index 12 (kmap_page i) = pt_index 12 (kmap_page j)"
  shows "i = j"
proof -
  have eq: "i div 2 ^ 18 = j div 2 ^ 18" "i div 2 ^ 9 mod 512 = j div 2 ^ 9 mod 512" "i mod 512 = j mod 512"
    using assms(3-5) kmap_page_bits(3-5) [OF assms(1)] kmap_page_bits(3-5) [OF assms(2)] by metis+
  have "n = n div 2 ^ 18 * 2 ^ 18 + n div 2 ^ 9 mod 512 * 2 ^ 9 + n mod 512" for n :: nat
  proof -
    have "n div 2 ^ 9 = n div 2 ^ 18 * 2 ^ 9 + n div 2 ^ 9 mod 512"
      using div_mult_mod_eq [of "n div 2 ^ 9" 512] by (simp add: div_mult2_eq [symmetric])
    then have "n div 2 ^ 9 * 512 = n div 2 ^ 18 * 2 ^ 18 + n div 2 ^ 9 mod 512 * 2 ^ 9" by simp
    moreover have "n = n div 2 ^ 9 * 512 + n mod 512" using div_mult_mod_eq [of n 512] by simp
    ultimately show ?thesis by metis
  qed
  then show ?thesis using eq by metis
qed

section \<open>Mappings of the region\<close>

text \<open>The path of page \<open>i\<close> of the region and its leaf.\<close>

definition kpath :: "u64 \<Rightarrow> (u64 \<rightharpoonup> nat) \<Rightarrow> memory \<Rightarrow> nat \<Rightarrow> u64 \<Rightarrow> bool" where
  "kpath root lv m i pt \<longleftrightarrow> lv pt = Some 1 \<and> (\<exists>pdpt pd. lv pdpt = Some 3 \<and> lv pd = Some 2
     \<and> te m root KMAP_PML4_INDEX = pdpt OR (PTE_P OR PTE_RW)
     \<and> te m pdpt (pt_index 30 (kmap_page i)) = pd OR (PTE_P OR PTE_RW)
     \<and> te m pd (pt_index 21 (kmap_page i)) = pt OR (PTE_P OR PTE_RW))"

definition kmapped :: "u64 \<Rightarrow> (u64 \<rightharpoonup> nat) \<Rightarrow> memory \<Rightarrow> nat \<Rightarrow> u64 \<Rightarrow> bool" where
  "kmapped root lv m i p \<longleftrightarrow> frame_ok p \<and> (\<exists>pt. kpath root lv m i pt
     \<and> te m pt (pt_index 12 (kmap_page i)) = p OR (PTE_P OR PTE_RW))"

lemma kmap_index_bound [simp]: "KMAP_PML4_INDEX < 512"
  by (simp add: KMAP_PML4_INDEX_def)

lemma kpath_slots:
  assumes "kmap_tables root lv s" "lv pdpt = Some 3" "lv pd = Some 2"
  shows "slot_level root lv root KMAP_PML4_INDEX = Some 4" "k < 512 \<Longrightarrow> slot_level root lv pdpt k = Some 3"
    "k < 512 \<Longrightarrow> slot_level root lv pd k = Some 2"
  using assms kmap_tablesD(3) [OF assms(1)] by (auto simp: slot_level_def)

lemma kpath_grows:
  assumes "kmap_tables root lv s" "grows s s'" "lv \<subseteq>\<^sub>m lv'" "kpath root lv (mem s) i pt"
  shows "kpath root lv' (mem s') i pt"
proof -
  from assms(4) obtain pdpt pd where l: "lv pt = Some 1" "lv pdpt = Some 3" "lv pd = Some 2"
    and e: "te (mem s) root KMAP_PML4_INDEX = pdpt OR (PTE_P OR PTE_RW)"
      "te (mem s) pdpt (pt_index 30 (kmap_page i)) = pd OR (PTE_P OR PTE_RW)"
      "te (mem s) pd (pt_index 21 (kmap_page i)) = pt OR (PTE_P OR PTE_RW)"
    unfolding kpath_def by blast
  note u = kmap_tablesD(2) [OF assms(1)] and v = kmap_tablesD(4) [OF assms(1)]
  note nz = table_entry_nonzero [OF used_frame [OF v]]
  have l': "lv' pt = Some 1" "lv' pdpt = Some 3" "lv' pd = Some 2" using assms(3) l by (auto simp: map_le_def dom_def)
  show ?thesis
    unfolding kpath_def
    using l' growsD(3) [OF assms(2) u _ e(1) nz [OF l(2)]] growsD(3) [OF assms(2) v [OF l(2)] _ e(2) nz [OF l(3)]]
      growsD(3) [OF assms(2) v [OF l(3)] _ e(3) nz [OF l(1)]]
    by (intro conjI exI [of _ pdpt] exI [of _ pd]) simp_all
qed

lemma kmapped_grows:
  assumes "kmap_tables root lv s" "grows s s'" "lv \<subseteq>\<^sub>m lv'" "kmapped root lv (mem s) i p"
  shows "kmapped root lv' (mem s') i p"
proof -
  from assms(4) obtain pt where p: "frame_ok p" "kpath root lv (mem s) i pt"
    "te (mem s) pt (pt_index 12 (kmap_page i)) = p OR (PTE_P OR PTE_RW)" unfolding kmapped_def by blast
  then have "used pt s" using kmap_tablesD(4) [OF assms(1)] unfolding kpath_def by blast
  from growsD(3) [OF assms(2) this _ p(3) table_entry_nonzero [OF p(1)]] p(1) kpath_grows [OF assms(1-3) p(2)]
  show ?thesis unfolding kmapped_def by auto
qed

lemma kpath_inject:
  assumes "kmap_tables root lv s" "kpath root lv (mem s) i pt" "kpath root lv (mem s) j pt"
  shows "pt_index 30 (kmap_page i) = pt_index 30 (kmap_page j)" "pt_index 21 (kmap_page i) = pt_index 21 (kmap_page j)"
proof -
  note v = used_frame [OF kmap_tablesD(4) [OF assms(1)]]
  from assms(2) obtain a b where l: "lv pt = Some 1" "lv a = Some 3" "lv b = Some 2"
    and e: "te (mem s) root KMAP_PML4_INDEX = a OR (PTE_P OR PTE_RW)"
      "te (mem s) a (pt_index 30 (kmap_page i)) = b OR (PTE_P OR PTE_RW)"
      "te (mem s) b (pt_index 21 (kmap_page i)) = pt OR (PTE_P OR PTE_RW)"
    unfolding kpath_def by blast
  from assms(3) obtain a' b' where l': "lv a' = Some 3" "lv b' = Some 2"
    and e': "te (mem s) root KMAP_PML4_INDEX = a' OR (PTE_P OR PTE_RW)"
      "te (mem s) a' (pt_index 30 (kmap_page j)) = b' OR (PTE_P OR PTE_RW)"
      "te (mem s) b' (pt_index 21 (kmap_page j)) = pt OR (PTE_P OR PTE_RW)"
    unfolding kpath_def by blast
  have s: "slot_level root lv x (pt_index k w) \<noteq> None" if "lv x = Some 2 \<or> lv x = Some 3" for x k w
    using that kmap_tablesD(3) [OF assms(1)] by (auto simp: slot_level_def)
  have 1: "b = b' \<and> pt_index 21 (kmap_page i) = pt_index 21 (kmap_page j)"
    by (rule kmap_tablesD(6) [OF assms(1) s s])
      (use l l' e(3) e'(3) table_entry_nonzero [OF v [OF l(1)]] in auto)
  then show "pt_index 21 (kmap_page i) = pt_index 21 (kmap_page j)" ..
  have "a = a' \<and> pt_index 30 (kmap_page i) = pt_index 30 (kmap_page j)"
    by (rule kmap_tablesD(6) [OF assms(1) s s])
      (use 1 l l' e(2) e'(2) table_entry_nonzero [OF v [OF l(3)]] in auto)
  then show "pt_index 30 (kmap_page i) = pt_index 30 (kmap_page j)" ..
qed

lemma kmapped_walk:
  assumes "kmap_tables root lv s" "kmapped root lv (mem s) i p" "i < 2 ^ 27"
  shows "mmu_walk (mem s) root (kmap_page i) = Some p"
proof -
  from assms(2) obtain pt pdpt pd where p: "frame_ok p" and l: "lv pt = Some 1" "lv pdpt = Some 3" "lv pd = Some 2"
    and e: "te (mem s) root KMAP_PML4_INDEX = pdpt OR (PTE_P OR PTE_RW)"
      "te (mem s) pdpt (pt_index 30 (kmap_page i)) = pd OR (PTE_P OR PTE_RW)"
      "te (mem s) pd (pt_index 21 (kmap_page i)) = pt OR (PTE_P OR PTE_RW)"
      "te (mem s) pt (pt_index 12 (kmap_page i)) = p OR (PTE_P OR PTE_RW)"
    unfolding kmapped_def kpath_def by blast
  note v = used_frame [OF kmap_tablesD(4) [OF assms(1)]]
  note b = kmap_page_bits [OF assms(3)]
  show ?thesis
    using table_entry_bits [OF p] table_entry_bits [OF v [OF l(1)]] table_entry_bits [OF v [OF l(2)]]
      table_entry_bits [OF v [OF l(3)]] frame_and_mask [OF used_frame [OF kmap_tablesD(2) [OF assms(1)]]] e b(2,6,8)
    by (simp add: mmu_walk_def mmu_walk_req_def Let_def)
qed

text \<open>The state of the kernel's address space: the direct map of \<open>n\<close> GiB, and the pages \<open>M\<close> of the region.\<close>

definition kspace_via :: "(u64 \<rightharpoonup> nat) \<Rightarrow> u64 \<Rightarrow> u64 \<Rightarrow> nat \<Rightarrow> (nat \<rightharpoonup> u64) \<Rightarrow> 'z pmm_state_scheme \<Rightarrow> bool" where
  "kspace_via lv dm root n M s \<longleftrightarrow> kmap_tables root lv s \<and> used dm s \<and> lv dm = None \<and> n \<le> 512
     \<and> chunks_at dm ({dm, root} \<union> dom lv) n s
     \<and> te (mem s) root 0 = dm OR (PTE_P OR PTE_RW) \<and> te (mem s) root 256 = dm OR (PTE_P OR PTE_RW)
     \<and> (\<forall>i p. M i = Some p \<longrightarrow> i < 2 ^ 27 \<and> kmapped root lv (mem s) i p)"

definition kspace :: "u64 \<Rightarrow> nat \<Rightarrow> (nat \<rightharpoonup> u64) \<Rightarrow> 'z pmm_state_scheme \<Rightarrow> bool" where
  "kspace root n M s \<longleftrightarrow> (\<exists>lv dm. kspace_via lv dm root n M s)"

lemma kspace_walk:
  assumes "kspace root n M s"
  shows "M i = Some p \<Longrightarrow> mmu_walk (mem s) root (kmap_page i) = Some p"
    "unat x < n * 2 ^ 30 \<Longrightarrow> mmu_walk (mem s) root x = Some x"
    "unat x < n * 2 ^ 30 \<Longrightarrow> mmu_walk (mem s) root (HHDM_BASE + x) = Some x"
proof -
  from assms obtain lv dm where k: "kmap_tables root lv s" "used dm s" "n \<le> 512"
    "chunks_at dm ({dm, root} \<union> dom lv) n s" "te (mem s) root 0 = dm OR (PTE_P OR PTE_RW)"
    "te (mem s) root 256 = dm OR (PTE_P OR PTE_RW)"
    "\<And>i p. M i = Some p \<Longrightarrow> i < 2 ^ 27 \<and> kmapped root lv (mem s) i p"
    unfolding kspace_def kspace_via_def by blast
  show "M i = Some p \<Longrightarrow> mmu_walk (mem s) root (kmap_page i) = Some p"
    using k(7) kmapped_walk [OF k(1)] by blast
  note c = chunks_walk [OF used_frame [OF kmap_tablesD(2) [OF k(1)]] used_frame [OF k(2)] k(4,3) _ k(5,6)]
  show "unat x < n * 2 ^ 30 \<Longrightarrow> mmu_walk (mem s) root x = Some x"
    "unat x < n * 2 ^ 30 \<Longrightarrow> mmu_walk (mem s) root (HHDM_BASE + x) = Some x" using c by blast+
qed

lemma kspace_start:
  assumes "tables_up root n s"
  shows "kspace root n Map.empty s"
proof -
  from assms obtain dm where t: "mem_ok s" "used root s" "n \<le> 512" "te (mem s) root KMAP_PML4_INDEX = 0" "used dm s"
    "chunks_at dm {dm, root} n s" "te (mem s) root 0 = dm OR (PTE_P OR PTE_RW)" "te (mem s) root 256 = dm OR (PTE_P OR PTE_RW)"
    unfolding tables_up_def by blast
  have "slot_level root Map.empty f k = (if k < 512 \<and> f = root \<and> k = KMAP_PML4_INDEX then Some 4 else None)" for f k
    by (simp add: slot_level_def)
  then have "kmap_tables root Map.empty s"
    using t(1,2,4) unfolding kmap_tables_def by (auto split: if_splits)
  then show ?thesis
    unfolding kspace_def kspace_via_def using t by (intro exI [of _ Map.empty] exI [of _ dm]) auto
qed

lemma chunk_entry_nonzero: "chunk_entry i j \<noteq> 0"
proof -
  have "bit (PTE_P OR PTE_RW OR PTE_PS) 0" by (simp add: pte_flags bit_iff_odd_drop_bit)
  then have "bit (chunk_entry i j) 0" unfolding chunk_entry_def bit_or_iff by blast
  then show ?thesis by auto
qed

lemma chunks_grow:
  assumes "chunks_at dm avoid n s" "grows s s'" "used dm s" "n \<le> 512" "\<And>f. used f s \<Longrightarrow> f \<notin> avoid \<Longrightarrow> f \<notin> avoid'"
  shows "chunks_at dm avoid' n s'"
  unfolding chunks_at_def
proof (intro allI impI)
  fix i assume i: "i < n"
  with assms(1) obtain pd where pd: "used pd s" "pd \<notin> avoid" "te (mem s) dm (of_nat i) = pd OR (PTE_P OR PTE_RW)"
    "\<And>j. j < 512 \<Longrightarrow> te (mem s) pd (of_nat j) = chunk_entry i j" unfolding chunks_at_def by blast
  have "te (mem s') dm (of_nat i) = pd OR (PTE_P OR PTE_RW)"
    using growsD(3) [OF assms(2,3) _ pd(3) table_entry_nonzero] pd(1) i assms(4) of_nat_512(1) [of i] by simp
  moreover have "te (mem s') pd (of_nat j) = chunk_entry i j" if "j < 512" for j
    using growsD(3) [OF assms(2) pd(1) of_nat_512(1) [OF that] pd(4) [OF that] chunk_entry_nonzero] .
  ultimately show "\<exists>pd. used pd s' \<and> pd \<notin> avoid' \<and> te (mem s') dm (of_nat i) = pd OR (PTE_P OR PTE_RW)
      \<and> (\<forall>j<512. te (mem s') pd (of_nat j) = chunk_entry i j)"
    using assms(5) pd(1,2) growsD(2) [OF assms(2)] by blast
qed

text \<open>One step of the descent keeps the address space.\<close>

lemma kspace_step:
  fixes s :: "'z pmm_state_scheme"
  assumes "kspace_via lv dm root n M s" "slot_level root lv t i = Some l"
    "kget_or_alloc_table (table_entry_mut t i) s = Inr (c, s')"
  obtains lv' where "kspace_via lv' dm root n M s'" "lv \<subseteq>\<^sub>m lv'" "lv' c = Some (l - 1)" "grows s s'"
    "te (mem s') t i = c OR (PTE_P OR PTE_RW)"
proof -
  have k: "kmap_tables root lv s" "used dm s" "lv dm = None" "n \<le> 512" "chunks_at dm ({dm, root} \<union> dom lv) n s"
    "te (mem s) root 0 = dm OR (PTE_P OR PTE_RW)" "te (mem s) root 256 = dm OR (PTE_P OR PTE_RW)"
    "\<And>i p. M i = Some p \<Longrightarrow> i < 2 ^ 27 \<and> kmapped root lv (mem s) i p"
    using assms(1) unfolding kspace_via_def by blast+
  from kget_step [OF k(1) assms(2,3)] obtain lv' where
    g: "kmap_tables root lv' s'" "lv \<subseteq>\<^sub>m lv'" "lv' c = Some (l - 1)" "te (mem s') t i = c OR (PTE_P OR PTE_RW)"
      "grows s s'" "\<And>f. used f s \<Longrightarrow> lv f = None \<Longrightarrow> lv' f = None" by blast
  note r = kmap_tablesD(2) [OF k(1)] and nz = table_entry_nonzero [OF used_frame [OF k(2)]]
  have "chunks_at dm ({dm, root} \<union> dom lv') n s'"
    by (rule chunks_grow [OF k(5) g(5) k(2,4)]) (use g(6) in auto)
  moreover have "M i = Some p \<Longrightarrow> i < 2 ^ 27 \<and> kmapped root lv' (mem s') i p" for i p
    using k(8) kmapped_grows [OF k(1) g(5,2)] by blast
  moreover have "te (mem s') root 0 = dm OR (PTE_P OR PTE_RW)" "te (mem s') root 256 = dm OR (PTE_P OR PTE_RW)"
    using growsD(3) [OF g(5) r _ k(6) nz] growsD(3) [OF g(5) r _ k(7) nz] by simp_all
  ultimately have "kspace_via lv' dm root n M s'"
    unfolding kspace_via_def using g(1) k(2-4) g(6) growsD(2) [OF g(5)] by blast
  then show thesis using that g by blast
qed

text \<open>Writing the leaf adds one page and changes no other translation.\<close>

lemma kspace_leaf:
  assumes "kspace_via lv dm root n M s" "kpath root lv (mem s) i pt" "i < 2 ^ 27" "frame_ok p"
  defines "s' \<equiv> s\<lparr>mem := wr64 (mem s) (entry pt (pt_index 12 (kmap_page i))) (p OR (PTE_P OR PTE_RW))\<rparr>"
  shows "kspace_via lv dm root n (M(i \<mapsto> p)) s'"
proof -
  have k: "kmap_tables root lv s" "used dm s" "lv dm = None" "n \<le> 512" "chunks_at dm ({dm, root} \<union> dom lv) n s"
    "te (mem s) root 0 = dm OR (PTE_P OR PTE_RW)" "te (mem s) root 256 = dm OR (PTE_P OR PTE_RW)"
    "\<And>i p. M i = Some p \<Longrightarrow> i < 2 ^ 27 \<and> kmapped root lv (mem s) i p"
    using assms(1) unfolding kspace_via_def by blast+
  have l1: "lv pt = Some 1" using assms(2) by (simp add: kpath_def)
  have upt: "used pt s" by (rule kmap_tablesD(4) [OF k(1) l1])
  have u: "mem_ok s' = mem_ok s" "used f s' = used f s" for f by (rule mem_ok_cong; simp add: s'_def)+
  have te: "te (mem s') f j = (if f = pt \<and> j = pt_index 12 (kmap_page i) then p OR (PTE_P OR PTE_RW) else te (mem s) f j)"
    if "used f s" "j < 512" for f j
    using te_wr64 [OF used_frame [OF upt] pt_index_bound used_frame [OF that(1)] that(2)] by (auto simp: s'_def)
  have keep: "te (mem s') f j = te (mem s) f j" if "used f s" "j < 512" "lv f \<noteq> Some 1" for f j
    using te [OF that(1,2)] that(3) l1 by auto
  have slot: "te (mem s') f j = te (mem s) f j" if "slot_level root lv f j = Some l" for f j l
    using keep [OF slot_used [OF k(1) that] slot_bound [OF that]] that kmap_tablesD(3) [OF k(1)]
    by (auto simp: slot_level_def split: if_splits option.splits)
  have kt: "kmap_tables root lv s'"
    by (rule kmap_tables_slots [OF k(1)]) (use slot in \<open>auto simp: s'_def\<close>)
  have path: "kpath root lv (mem s') j q \<longleftrightarrow> kpath root lv (mem s) j q" for j q
  proof -
    note d = kmap_tablesD(3) [OF k(1)] and v = kmap_tablesD(4) [OF k(1)]
    have "te (mem s') root KMAP_PML4_INDEX = te (mem s) root KMAP_PML4_INDEX"
      using keep [OF kmap_tablesD(2) [OF k(1)]] d by simp
    moreover have "te (mem s') a (pt_index w z) = te (mem s) a (pt_index w z)" if "lv a = Some 2 \<or> lv a = Some 3" for a w z
      using that keep [OF v] by auto
    ultimately show ?thesis unfolding kpath_def by metis
  qed
  have "kmapped root lv (mem s') i p" using path assms(2,4) te [OF upt] unfolding kmapped_def by auto
  moreover have "kmapped root lv (mem s') j q" if m: "M j = Some q" and ne: "j \<noteq> i" for j q
  proof -
    from k(8) [OF m] obtain pt' where j: "j < 2 ^ 27" "frame_ok q" "kpath root lv (mem s) j pt'"
      "te (mem s) pt' (pt_index 12 (kmap_page j)) = q OR (PTE_P OR PTE_RW)" unfolding kmapped_def by blast
    have "used pt' s" using j(3) kmap_tablesD(4) [OF k(1)] unfolding kpath_def by blast
    moreover have "\<not> (pt' = pt \<and> pt_index 12 (kmap_page j) = pt_index 12 (kmap_page i))"
      using kpath_inject [OF k(1) assms(2)] j(3) kmap_page_inject [OF assms(3) j(1)] ne by metis
    ultimately show ?thesis using te [of pt' "pt_index 12 (kmap_page j)"] j path unfolding kmapped_def by auto
  qed
  ultimately have "(M(i \<mapsto> p)) j = Some q \<Longrightarrow> j < 2 ^ 27 \<and> kmapped root lv (mem s') j q" for j q
    using k(8) assms(3) by (auto split: if_splits)
  moreover have "chunks_at dm ({dm, root} \<union> dom lv) n s'"
    unfolding chunks_at_def u
  proof (intro allI impI)
    fix c assume c: "c < n"
    with k(5) obtain pd where pd: "used pd s" "pd \<notin> {dm, root} \<union> dom lv"
      "te (mem s) dm (of_nat c) = pd OR (PTE_P OR PTE_RW)" "\<And>j. j < 512 \<Longrightarrow> te (mem s) pd (of_nat j) = chunk_entry c j"
      unfolding chunks_at_def by blast
    have "te (mem s') pd (of_nat j) = chunk_entry c j" if "j < 512" for j
      using keep [OF pd(1) of_nat_512(1) [OF that]] pd(2) pd(4) [OF that] by force
    moreover have "te (mem s') dm (of_nat c) = pd OR (PTE_P OR PTE_RW)"
      using keep [OF k(2) of_nat_512(1), of c] k(3,4) c pd(3) by simp
    ultimately show "\<exists>pd. used pd s \<and> pd \<notin> {dm, root} \<union> dom lv \<and> te (mem s') dm (of_nat c) = pd OR (PTE_P OR PTE_RW)
      \<and> (\<forall>j<512. te (mem s') pd (of_nat j) = chunk_entry c j)" using pd(1,2) by blast
  qed
  ultimately show ?thesis
    unfolding kspace_via_def u using kt k(2-4,6,7) keep [OF kmap_tablesD(2) [OF k(1)]] kmap_tablesD(3) [OF k(1)] by auto
qed


lemma align_down_frame: "frame_ok p \<Longrightarrow> align_down p PAGE_SIZE = p"
  unfolding word_unat_eq_iff unat_align_down_page by (auto simp: frame_ok_def)

lemma kmap_page_Suc: "kmap_page i + 4096 = kmap_page (Suc i)"
  by (simp add: kmap_page_def algebra_simps)

lemma kspace_cong:
  assumes "PMM s' = PMM s" "mem s' = mem s"
  shows "kspace root n M s' = kspace root n M s"
  unfolding kspace_def kspace_via_def kmap_tables_def chunks_at_def mem_ok_cong [OF assms(1)] assms(2) ..

text \<open>The three steps from the root down to the last table.\<close>

lemma kmap_descend:
  fixes s :: "'z pmm_state_scheme"
  assumes "kspace root n M s" "kget_or_alloc_table (table_entry_mut root KMAP_PML4_INDEX) s = Inr (pdpt, s1)"
    "kget_or_alloc_table (table_entry_mut pdpt (pt_index 30 (kmap_page i))) s1 = Inr (pd, s2)"
    "kget_or_alloc_table (table_entry_mut pd (pt_index 21 (kmap_page i))) s2 = Inr (pt, s3)"
  obtains lv dm where "kspace_via lv dm root n M s3" "kpath root lv (mem s3) i pt" "grows s s3"
proof -
  let ?v = "kmap_page i"
  from assms(1) obtain lv dm where kv: "kspace_via lv dm root n M s" unfolding kspace_def by blast
  have sl: "slot_level root lv root KMAP_PML4_INDEX = Some 4" by (simp add: slot_level_def)
  have slot: "slot_level root lv t (pt_index k ?v) = Some l" if "kspace_via lv dm root n M s" "lv t = Some l" "1 < l"
    for lv t l k and s :: "'z pmm_state_scheme"
  proof -
    have "kmap_tables root lv s" using that(1) by (simp add: kspace_via_def)
    from kmap_tablesD(3) [OF this] that show ?thesis by (auto simp: slot_level_def)
  qed
  from kspace_step [OF kv sl assms(2)] obtain lv1 where a: "kspace_via lv1 dm root n M s1" "lv1 pdpt = Some 3"
    "grows s s1" "te (mem s1) root KMAP_PML4_INDEX = pdpt OR (PTE_P OR PTE_RW)" by auto
  from kspace_step [OF a(1) slot [OF a(1,2)] assms(3)] obtain lv2 where
    b: "kspace_via lv2 dm root n M s2" "lv1 \<subseteq>\<^sub>m lv2" "lv2 pd = Some 2"
      "grows s1 s2" "te (mem s2) pdpt (pt_index 30 ?v) = pd OR (PTE_P OR PTE_RW)" by auto
  from kspace_step [OF b(1) slot [OF b(1,3)] assms(4)] obtain lv3 where
    c: "kspace_via lv3 dm root n M s3" "lv2 \<subseteq>\<^sub>m lv3" "lv3 pt = Some 1"
      "grows s2 s3" "te (mem s3) pd (pt_index 21 ?v) = pt OR (PTE_P OR PTE_RW)" by auto
  have kt: "kmap_tables root lv1 s1" "kmap_tables root lv2 s2" using a(1) b(1) by (simp_all add: kspace_via_def)
  have l: "lv2 pdpt = Some 3" "lv3 pdpt = Some 3" "lv3 pd = Some 2"
    using a(2) b(2,3) c(2) by (auto simp: map_le_def dom_def)
  note nz = table_entry_nonzero [OF used_frame [OF kmap_tablesD(4)]]
  have e2: "te (mem s2) root KMAP_PML4_INDEX = pdpt OR (PTE_P OR PTE_RW)"
    using growsD(3) [OF b(4) kmap_tablesD(2) [OF kt(1)] _ a(4) nz [OF kt(1) a(2)]] by simp
  have e3: "te (mem s3) root KMAP_PML4_INDEX = pdpt OR (PTE_P OR PTE_RW)"
    "te (mem s3) pdpt (pt_index 30 ?v) = pd OR (PTE_P OR PTE_RW)"
    using growsD(3) [OF c(4) kmap_tablesD(2) [OF kt(2)] _ e2 nz [OF kt(2) l(1)]]
      growsD(3) [OF c(4) kmap_tablesD(4) [OF kt(2) l(1)] _ b(5) nz [OF kt(2) b(3)]] by simp_all
  have "kpath root lv3 (mem s3) i pt" unfolding kpath_def using c(3,5) l(2,3) e3 by blast
  then show thesis using that c(1) grows_trans a(3) b(4) c(4) by blast
qed

lemma kmap_alloc_step:
  fixes s :: "'z paging_state_scheme"
  assumes "kspace (PML4_PHYS s) n M s" "PML4_PHYS s \<noteq> 0" "KMAP_NEXT s = kmap_page i" "i < 2 ^ 27" "frame_ok p"
    "kmap_alloc_4k p s = Inr (v, s')"
  shows "v = kmap_page i" "kspace (PML4_PHYS s) n (M(i \<mapsto> p)) s'" "PML4_PHYS s' = PML4_PHYS s" "cr3 s' = cr3 s"
    "KMAP_NEXT s' = kmap_page (Suc i)"
proof -
  define s0 where "s0 = s\<lparr>KMAP_NEXT := KMAP_NEXT s + PAGE_SIZE\<rparr>"
  let ?r = "PML4_PHYS s" and ?v = "kmap_page i"
  have k0: "kspace ?r n M s0" using assms(1) kspace_cong [of s0 s] by (simp add: s0_def)
  from assms(2-6) obtain pdpt s1 pd s2 pt s3 where
    1: "kget_or_alloc_table (table_entry_mut ?r KMAP_PML4_INDEX) s0 = Inr (pdpt, s1)" and
    2: "kget_or_alloc_table (table_entry_mut pdpt (pt_index 30 ?v)) s1 = Inr (pd, s2)" and
    3: "kget_or_alloc_table (table_entry_mut pd (pt_index 21 ?v)) s2 = Inr (pt, s3)" and
    v: "v = ?v" and s': "s' = s3\<lparr>mem := wr64 (mem s3) (entry pt (pt_index 12 ?v)) (p OR (PTE_P OR PTE_RW))\<rparr>"
    by (auto simp: kmap_alloc_4k_def kmap_map_4k_def Let_def align_down_frame kmap_page_bits(7) s0_def vwrite_entry
        elim!: and_then_InrE)
  from kmap_descend [OF k0 1 2 3] obtain lv dm where
    d: "kspace_via lv dm ?r n M s3" "kpath ?r lv (mem s3) i pt" "grows s0 s3" .
  from kspace_leaf [OF d(1,2) assms(4,5)] show "kspace ?r n (M(i \<mapsto> p)) s'" unfolding s' kspace_def by blast
  show "v = ?v" by (rule v)
  from growsD(1) [OF d(3)] show "PML4_PHYS s' = ?r" "cr3 s' = cr3 s" "KMAP_NEXT s' = kmap_page (Suc i)"
    using assms(3) by (auto simp: s' s0_def kmap_page_Suc)
qed

end
