(* ===== verification/Heap.thy ===== *)
theory Heap
  imports Paging
begin

text \<open>
  The kernel heap, \<^verbatim>\<open>kernel/src/heap.rs\<close>: one contiguous block of frames, seen through the direct
  map, consumed by a bump pointer; \<open>dealloc\<close> leaks. The locale \<open>byte_allocator\<close> is the contract of
  Rust's \<open>GlobalAlloc\<close> that the boxes of the kernel (its kernel stacks) rely on; it is interpreted
  on the model of \<open>KernelAlloc\<close>.
\<close>

section \<open>State and operations\<close>

record Bump =
  h_start :: u64
  h_end :: u64
  h_next :: u64
  h_ready :: bool

definition LockedBump_new :: Bump where
  "LockedBump_new = \<lparr>h_start = 0, h_end = 0, h_next = 0, h_ready = False\<rparr>"

record heap_state = paging_state +
  HEAP :: Bump

function heap_try ::
  "u64 \<Rightarrow> 'z pmm_state_scheme \<Rightarrow> (u64 option \<times> u64 \<times> 'z pmm_state_scheme) outcome" where
  "heap_try pages s =
     (if 128 \<le> pages
      then and_then (alloc_pages pages s) (\<lambda>(r, s1). case r of
             Some p \<Rightarrow> Inr (Some p, pages, s1)
           | None \<Rightarrow> heap_try (pages div 2) s1)
      else Inr (None, pages, s))"
  by pat_completeness auto
termination
  by (relation "measure (\<lambda>(pages, s). unat pages)") (auto simp: unat_div word_le_nat_alt)

declare heap_try.simps [simp del]

definition heap_init :: "'z heap_state_scheme \<Rightarrow> (unit \<times> 'z heap_state_scheme) outcome" where
  "heap_init s =
     and_then (heap_try 4096 s) (\<lambda>(r, pages, s1). case r of
       None \<Rightarrow> Inr ((), write_str (''heap: init failed (no pages)'' @ nl) s1)
     | Some base \<Rightarrow>
         and_then (mul_chk pages 4096) (\<lambda>size.
         let base_v = phys_to_virt base in
         and_then (add_chk base_v size) (\<lambda>end_v.
         let s2 = s1\<lparr>HEAP := \<lparr>h_start = base_v, h_end = end_v, h_next = base_v, h_ready = True\<rparr>\<rparr>;
             s3 = write_str ''heap: initialized base(p)='' s2;
             s4 = write_hex_u64 base s3;
             s5 = write_str '' base(v)='' s4;
             s6 = write_hex_u64 base_v s5;
             s7 = write_str '' size='' s6;
             s8 = write_dec_u64 (size div (1024 * 1024)) s7 in
         Inr ((), write_str (''MiB'' @ nl) s8))))"

text \<open>A layout is its size and its alignment; the null pointer is \<open>None\<close>.\<close>

type_synonym Layout = "u64 \<times> u64"

definition kalloc ::
  "Layout \<Rightarrow> 'z heap_state_scheme \<Rightarrow> (u64 option \<times> 'z heap_state_scheme) outcome" where
  "kalloc layout s =
     (let h = HEAP s; (size, align) = layout in
      if \<not> h_ready h then Inr (None, s)
      else and_then (align_up (h_next h) align) (\<lambda>start.
        let end' = saturating_add start size in
        if h_end h < end' then Inr (None, s)
        else Inr (Some start, s\<lparr>HEAP := h\<lparr>h_next := end'\<rparr>\<rparr>)))"

definition kdealloc :: "u64 \<Rightarrow> Layout \<Rightarrow> 'z heap_state_scheme \<Rightarrow> 'z heap_state_scheme" where
  "kdealloc ptr layout s = s"

section \<open>The allocator contract\<close>

text \<open>The bytes of a block, and the layouts Rust produces: a power-of-two alignment.\<close>

definition bytes :: "u64 \<Rightarrow> u64 \<Rightarrow> nat set" where
  "bytes p n = {unat p ..< unat p + unat n}"

definition layout_ok :: "Layout \<Rightarrow> bool" where
  "layout_ok l \<longleftrightarrow> (\<exists>k \<le> 40. snd l = 2 ^ k)"

locale byte_allocator =
  fixes alloc :: "Layout \<Rightarrow> 's \<Rightarrow> (u64 option \<times> 's) outcome"
    and inv :: "'s \<Rightarrow> bool"
    and free :: "'s \<Rightarrow> nat set"
  assumes alloc_returns: "inv s \<Longrightarrow> layout_ok l \<Longrightarrow> \<exists>r s'. alloc l s = Inr (r, s') \<and> inv s'"
    and alloc_gives: "inv s \<Longrightarrow> layout_ok l \<Longrightarrow> alloc l s = Inr (Some p, s') \<Longrightarrow>
      bytes p (fst l) \<subseteq> free s \<and> free s' \<subseteq> free s - bytes p (fst l) \<and> unat (snd l) dvd unat p"
    and alloc_refuses: "inv s \<Longrightarrow> layout_ok l \<Longrightarrow> alloc l s = Inr (None, s') \<Longrightarrow> s' = s"
begin

lemma alloc_keeps_inv: "inv s \<Longrightarrow> layout_ok l \<Longrightarrow> alloc l s = Inr (r, s') \<Longrightarrow> inv s'"
  using alloc_returns [of s l] by auto

lemma alloc_shrinks: "inv s \<Longrightarrow> layout_ok l \<Longrightarrow> alloc l s = Inr (r, s') \<Longrightarrow> free s' \<subseteq> free s"
  by (cases r) (auto dest: alloc_gives alloc_refuses)

lemma run_blocks:
  assumes "inv s" "\<forall>l \<in> set ls. layout_ok l"
  shows "\<exists>bs s'. run_allocs alloc ls s = Inr (bs, s') \<and> inv s' \<and> free s' \<subseteq> free s
    \<and> (\<forall>(p, l) \<in> set bs. bytes p (fst l) \<subseteq> free s \<and> unat (snd l) dvd unat p)
    \<and> sorted_wrt (\<lambda>(p, l) (q, k). bytes p (fst l) \<inter> bytes q (fst k) = {}) bs"
  using assms
proof (induction ls arbitrary: s)
  case Nil
  then show ?case by simp
next
  case (Cons l ls)
  from Cons.prems have l: "layout_ok l" and ls: "\<forall>l \<in> set ls. layout_ok l" by simp_all
  from alloc_returns [OF Cons.prems(1) l] obtain r s1 where
    r: "alloc l s = Inr (r, s1)" "inv s1" by blast
  from Cons.IH [OF r(2) ls] obtain bs s2 where
    bs: "run_allocs alloc ls s1 = Inr (bs, s2)" "inv s2" "free s2 \<subseteq> free s1"
    "\<forall>(p, l) \<in> set bs. bytes p (fst l) \<subseteq> free s1 \<and> unat (snd l) dvd unat p"
    "sorted_wrt (\<lambda>(p, l) (q, k). bytes p (fst l) \<inter> bytes q (fst k) = {}) bs" by blast
  have sub: "free s1 \<subseteq> free s" by (rule alloc_shrinks [OF Cons.prems(1) l r(1)])
  let ?bs = "case r of None \<Rightarrow> bs | Some p \<Rightarrow> (p, l) # bs"
  have run: "run_allocs alloc (l # ls) s = Inr (?bs, s2)" using r bs(1) by simp
  have in_s: "\<forall>(q, k) \<in> set bs. bytes q (fst k) \<subseteq> free s \<and> unat (snd k) dvd unat q"
    using bs(4) sub by blast
  have "(\<forall>(q, k) \<in> set ?bs. bytes q (fst k) \<subseteq> free s \<and> unat (snd k) dvd unat q)
      \<and> sorted_wrt (\<lambda>(p, l) (q, k). bytes p (fst l) \<inter> bytes q (fst k) = {}) ?bs"
  proof (cases r)
    case None
    with in_s bs(5) show ?thesis by simp
  next
    case (Some p)
    note g = alloc_gives [OF Cons.prems(1) l r(1) [unfolded Some]]
    have "\<forall>(q, k) \<in> set bs. bytes p (fst l) \<inter> bytes q (fst k) = {}" using bs(4) g by blast
    with Some in_s bs(5) g show ?thesis by simp
  qed
  with run bs(2,3) sub show ?case by blast
qed

end

section \<open>The bump allocator\<close>

text \<open>The region stays clear of the top of the address space, where rounding up would overflow.\<close>

definition heap_inv :: "'z heap_state_scheme \<Rightarrow> bool" where
  "heap_inv s \<longleftrightarrow> h_ready (HEAP s) \<longrightarrow>
     h_start (HEAP s) \<le> h_next (HEAP s) \<and> h_next (HEAP s) \<le> h_end (HEAP s)
     \<and> unat (h_end (HEAP s)) + 2 ^ 40 \<le> 2 ^ 64"

definition heap_free :: "'z heap_state_scheme \<Rightarrow> nat set" where
  "heap_free s = (if h_ready (HEAP s)
     then {unat (h_next (HEAP s)) ..< unat (h_end (HEAP s))} else {})"

lemma round_up_bounds:
  assumes "0 < (a :: nat)"
  shows "n \<le> (n + (a - 1)) div a * a" "(n + (a - 1)) div a * a < n + a"
proof -
  define q where "q = (n + (a - 1)) div a * a"
  have "q + (n + (a - 1)) mod a = n + (a - 1)" unfolding q_def by (rule div_mult_mod_eq)
  moreover have "(n + (a - 1)) mod a < a" using assms by (rule mod_less_divisor)
  ultimately have "n \<le> q" "q < n + a" using assms by linarith+
  then show "n \<le> (n + (a - 1)) div a * a" "(n + (a - 1)) div a * a < n + a"
    by (simp_all only: q_def)
qed

text \<open>One lemma decides every call: where the block would start, and whether it fits.\<close>

lemma kalloc_cases:
  assumes inv: "heap_inv s" and l: "layout_ok l"
  obtains (off) "\<not> h_ready (HEAP s)" "kalloc l s = Inr (None, s)"
    | (full) start :: u64 where "h_ready (HEAP s)" "kalloc l s = Inr (None, s)"
        "unat (h_next (HEAP s)) \<le> unat start" "unat start < unat (h_next (HEAP s)) + unat (snd l)"
        "unat (h_end (HEAP s)) < unat start + unat (fst l)"
    | (grant) start end' where "h_ready (HEAP s)"
        "kalloc l s = Inr (Some start, s\<lparr>HEAP := (HEAP s)\<lparr>h_next := end'\<rparr>\<rparr>)"
        "unat (h_next (HEAP s)) \<le> unat start" "unat start < unat (h_next (HEAP s)) + unat (snd l)"
        "unat (snd l) dvd unat start" "unat end' = unat start + unat (fst l)"
        "unat end' \<le> unat (h_end (HEAP s))"
proof (cases "h_ready (HEAP s)")
  case False
  then show thesis by (intro off) (simp_all add: kalloc_def split: prod.splits)
next
  case True
  from l obtain k where k: "k \<le> 40" "snd l = 2 ^ k" by (auto simp: layout_ok_def)
  have pk: "unat (snd l) = 2 ^ k" "(2 :: nat) ^ k \<le> 2 ^ 40"
    using k by (simp add: unat_pow2_u64, intro power_increasing) simp_all
  define n where "n = unat (h_next (HEAP s))"
  have "n \<le> unat (h_end (HEAP s))" and top: "unat (h_end (HEAP s)) + 2 ^ 40 \<le> 2 ^ 64"
    using inv True unfolding heap_inv_def n_def word_le_nat_alt by blast+
  then have "n + (2 ^ k - 1) < 2 ^ 64" using pk(2) by simp
  then obtain start where a: "align_up (h_next (HEAP s)) (snd l) = Inr start"
    using k by (simp add: align_up_pow2_eq n_def)
  with align_up_pow2_Inr [of k "h_next (HEAP s)" start] k have st:
    "unat start = (n + (2 ^ k - 1)) div 2 ^ k * 2 ^ k" by (simp add: n_def)
  have lo: "n \<le> unat start" "unat start < n + 2 ^ k"
    unfolding st using round_up_bounds [of "2 ^ k" n] by simp_all
  have e: "kalloc l s = (if h_end (HEAP s) < saturating_add start (fst l) then Inr (None, s)
      else Inr (Some start, s\<lparr>HEAP := (HEAP s)\<lparr>h_next := saturating_add start (fst l)\<rparr>\<rparr>))"
    using True a by (cases l) (simp add: kalloc_def Let_def)
  have big: "unat (h_end (HEAP s)) < 2 ^ 64 - 1"
    using inv True by (simp add: heap_inv_def)
  show thesis
  proof (cases "h_end (HEAP s) < saturating_add start (fst l)")
    case True': True
    then have "unat (h_end (HEAP s)) < unat start + unat (fst l)"
      using big by (auto simp: word_nat split: if_splits)
    with True True' e lo pk show thesis by (intro full [of start]) (simp_all add: n_def)
  next
    case False
    then have "unat (saturating_add start (fst l)) = unat start + unat (fst l)"
      using big by (auto simp: word_nat split: if_splits)
    moreover from False have "unat (saturating_add start (fst l)) \<le> unat (h_end (HEAP s))"
      by (simp add: word_less_nat_alt not_less)
    moreover from st pk(1) have "unat (snd l) dvd unat start" by simp
    ultimately show thesis
      using True False e lo pk(1)
      by (intro grant [of start "saturating_add start (fst l)"]) (simp_all add: n_def)
  qed
qed

interpretation heap: byte_allocator kalloc heap_inv heap_free
proof
  fix s :: "'a heap_state_scheme" and l p s'
  assume s: "heap_inv s" and l: "layout_ok l"
  show "\<exists>r s'. kalloc l s = Inr (r, s') \<and> heap_inv s'"
    using s by (cases rule: kalloc_cases [OF s l])
      (auto simp: heap_inv_def word_le_nat_alt)
  show "bytes p (fst l) \<subseteq> heap_free s \<and> heap_free s' \<subseteq> heap_free s - bytes p (fst l)
      \<and> unat (snd l) dvd unat p" if "kalloc l s = Inr (Some p, s')"
    using that by (cases rule: kalloc_cases [OF s l])
      (auto simp: heap_free_def bytes_def)
  show "s' = s" if "kalloc l s = Inr (None, s')"
    using that by (cases rule: kalloc_cases [OF s l]) auto
qed

section \<open>Initialisation\<close>

lemma heap_try_after_deny:
  assumes "\<And>n. n \<noteq> 0 \<Longrightarrow> alloc_pages n s = Inr (None, s)"
  shows "\<exists>n. heap_try pages s = Inr (None, n, s)"
  using assms
proof (induction pages s rule: heap_try.induct)
  case (1 pages s)
  show ?case
  proof (cases "128 \<le> pages")
    case True
    then have "alloc_pages pages s = Inr (None, s)" by (intro "1.prems") auto
    with True "1.IH" [OF True this refl refl] "1.prems" show ?thesis
      by (subst heap_try.simps) auto
  next
    case False
    then show ?thesis by (subst heap_try.simps) auto
  qed
qed

text \<open>A denied first request leaves nothing for the smaller ones.\<close>

lemma heap_try_first:
  assumes "pmm_inv s"
  shows "(\<exists>p s1. alloc_pages 4096 s = Inr (Some p, s1) \<and> heap_try 4096 s = Inr (Some p, 4096, s1))
    \<or> (\<exists>n s1. alloc_pages 4096 s = Inr (None, s1) \<and> heap_try 4096 s = Inr (None, n, s1)
          \<and> pmm_free s1 = {})"
using assms
proof (cases rule: alloc_pages_cases [where n = 4096])
  case (grant a p)
  then have "heap_try 4096 s = Inr (Some a, 4096, s\<lparr>PMM := Some p\<rparr>)"
    by (subst heap_try.simps) simp
  with grant show ?thesis by blast
next
  case (deny p)
  define s1 where "s1 = s\<lparr>PMM := p\<rparr>"
  have free: "pmm_free s1 = {}" using deny(3) by (simp add: s1_def)
  have "alloc_pages n s1 = Inr (None, s1)" for n
    by (rule denied_stays_denied [OF assms _ deny(1) [folded s1_def]]) simp
  then obtain n where "heap_try (4096 div 2) s1 = Inr (None, n, s1)"
    using heap_try_after_deny by blast
  then have "heap_try 4096 s = Inr (None, n, s1)"
    using deny(1) by (subst heap_try.simps) (simp add: s1_def)
  with deny(1) free show ?thesis by (auto simp: s1_def)
qed

lemma block_top:
  assumes "block a n \<subseteq> {..<b}" "n \<noteq> 0"
  shows "unat a + unat n * 4096 \<le> b"
proof -
  have "unat n \<noteq> 0" using assms(2) by (simp add: unat_eq_0)
  then have "unat a + unat n * 4096 - 1 \<in> block a n" by (auto simp: block_def)
  with assms(1) \<open>unat n \<noteq> 0\<close> show ?thesis by auto
qed

lemma unat_phys_to_virt:
  "unat p < 2 ^ 47 \<Longrightarrow> unat (phys_to_virt p) = 0xffff800000000000 + unat p"
  by (simp add: phys_to_virt_def HHDM_BASE_def unat_add_no_wrap)

lemma heap_init_granted:
  assumes "alloc_pages 4096 s = Inr (Some p, s1)" "unat p + 0x1000000 \<le> 2 ^ 46"
  obtains o' s' where "heap_init s = Inr ((), s')" "s' = s1\<lparr>HEAP := \<lparr>h_start = phys_to_virt p, h_end = phys_to_virt p + 0x1000000,
      h_next = phys_to_virt p, h_ready = True\<rparr>, serial_out := o'\<rparr>" "heap_inv s'"
    "unat (h_end (HEAP s')) = unat (h_next (HEAP s')) + 0x1000000"
proof -
  have t: "heap_try 4096 s = Inr (Some p, 4096, s1)" using assms(1) by (subst heap_try.simps) simp
  have v: "unat (phys_to_virt p) = 0xffff800000000000 + unat p" using assms(2) by (intro unat_phys_to_virt) simp
  with assms(2) have e: "add_chk (phys_to_virt p) 0x1000000 = Inr (phys_to_virt p + 0x1000000)"
    and u: "unat (phys_to_virt p + 0x1000000) = unat (phys_to_virt p) + 0x1000000"
    by (simp_all add: add_chk_nat unat_add_no_wrap)
  have "mul_chk 4096 4096 = Inr (0x1000000 :: u64)" by (simp add: mul_chk_def)
  with t e obtain o' where h: "heap_init s = Inr ((), s1\<lparr>HEAP := \<lparr>h_start = phys_to_virt p, h_end = phys_to_virt p + 0x1000000,
      h_next = phys_to_virt p, h_ready = True\<rparr>, serial_out := o'\<rparr>)"
    by (auto simp: heap_init_def serial_eqs Let_def)
  show thesis by (rule that [OF h refl]) (use u v assms(2) in \<open>simp_all add: heap_inv_def word_le_nat_alt\<close>)
qed

section \<open>Properties\<close>

text \<open>A state in which memory below 64 TiB is managed by the manager \<open>p\<close>.\<close>

definition demo_heap_state :: "Pmm \<Rightarrow> heap_state" where
  "demo_heap_state p = \<lparr>mem = (\<lambda>_. 0), cr3 = 0, tss_rsp0 = 0, serial_out = [], port_writes = [], PMM = Some p,
     PML4_PHYS = 0, KMAP_NEXT = KMAP_BASE, HEAP = LockedBump_new\<rparr>"

text \<open>C16: \<open>heap::init\<close> never panics and takes 16 MiB or nothing. If the physical memory manager
  grants the first request, of 4096 pages, the heap is that block seen through the direct map;
  otherwise the heap is unchanged and the frame allocator is left with no memory at all, because
  the smaller requests of the back-off loop are refused as well.\<close>

theorem heap_init_all_or_nothing:
  assumes "pmm_inv s" "pmm_free s \<subseteq> {..<2 ^ 46}"
  shows "\<exists>s'. heap_init s = Inr ((), s') \<and>
    (case alloc_pages 4096 s of
       Inr (Some base, s1) \<Rightarrow>
         HEAP s' = \<lparr>h_start = phys_to_virt base, h_end = phys_to_virt base + 0x1000000,
                    h_next = phys_to_virt base, h_ready = True\<rparr>
         \<and> heap_inv s' \<and> PMM s' = PMM s1
     | _ \<Rightarrow> HEAP s' = HEAP s \<and> pmm_free s' = {})"
  using heap_try_first [OF assms(1)]
proof (elim disjE exE conjE)
  fix p s1 assume a: "alloc_pages 4096 s = Inr (Some p, s1)"
    and t: "heap_try 4096 s = Inr (Some p, 4096, s1)"
  from pmm.alloc_grant [OF assms(1) a] assms(2) have "block p 4096 \<subseteq> {..<2 ^ 46}" by blast
  from block_top [OF this] have "unat p + 0x1000000 \<le> 2 ^ 46" by simp
  from heap_init_granted [OF a this] obtain o' s' where "heap_init s = Inr ((), s')"
    "s' = s1\<lparr>HEAP := \<lparr>h_start = phys_to_virt p, h_end = phys_to_virt p + 0x1000000,
      h_next = phys_to_virt p, h_ready = True\<rparr>, serial_out := o'\<rparr>" "heap_inv s'" .
  with a show ?thesis by simp
next
  fix n s1 assume "alloc_pages 4096 s = Inr (None, s1)" "heap_try 4096 s = Inr (None, n, s1)"
    "pmm_free s1 = {}"
  moreover from this(1) have "HEAP s1 = HEAP s"
    by (cases rule: alloc_pages_cases [OF assms(1), of 4096]) auto
  ultimately show ?thesis by (simp add: heap_init_def serial_eqs pmm_free_def)
qed

theorem heap_init_all_or_nothing_witness:
  "\<exists>s'. heap_init (demo_heap_state demo_pmm) = Inr ((), s')
    \<and> pmm_free (demo_heap_state demo_pmm) \<noteq> {}
    \<and> HEAP s' = LockedBump_new \<and> pmm_free s' = {}"
proof -
  let ?s = "demo_heap_state demo_pmm"
  have "pmm_inv ?s" "pmm_free ?s \<subseteq> {..<2 ^ 46}" "pmm_free ?s \<noteq> {}"
    by (auto simp: pmm_inv_def demo_heap_state_def demo_pmm_wf pmm_free_def free_addrs_def
        demo_pmm_live span_def)
  moreover have "alloc_pages 4096 ?s = Inr (None, ?s\<lparr>PMM := Some (demo_pmm\<lparr>cursor := pm_len demo_pmm\<rparr>)\<rparr>)"
    using alloc_scan_deny [OF demo_pmm_wf, of 4096]
    by (simp add: alloc_pages_def demo_heap_state_def demo_pmm_live fits_def)
  ultimately show ?thesis
    using heap_init_all_or_nothing [of ?s] by (auto simp: demo_heap_state_def)
qed

text \<open>C17: heap blocks are sound. From any consistent heap state, whatever sequence of layouts is
  requested, every call of \<open>alloc\<close> returns; each block it hands out has the requested alignment and
  lies inside the unused part of the heap, and no two blocks share a byte.\<close>

theorem heap_blocks_safe:
  assumes "heap_inv s" "list_all layout_ok ls"
  shows "\<exists>bs s'. run_allocs kalloc ls s = Inr (bs, s') \<and> heap_inv s'
    \<and> (\<forall>(p, l) \<in> set bs. bytes p (fst l) \<subseteq> heap_free s \<and> unat (snd l) dvd unat p)
    \<and> sorted_wrt (\<lambda>(p, l) (q, k). bytes p (fst l) \<inter> bytes q (fst k) = {}) bs"
  using heap.run_blocks [of s ls] assms by (auto simp: list_all_iff)

theorem heap_blocks_safe_witness:
  "\<exists>bs s'. run_allocs kalloc [(5, 1), (16384, 16)]
       ((demo_heap_state demo_pmm)\<lparr>HEAP := \<lparr>h_start = 0xffff800000200000,
          h_end = 0xffff800001200000, h_next = 0xffff800000200000, h_ready = True\<rparr>\<rparr>) = Inr (bs, s')
    \<and> heap_inv s' \<and> sorted_wrt (\<lambda>(p, l) (q, k). bytes p (fst l) \<inter> bytes q (fst k) = {}) bs"
proof -
  have "layout_ok (5, 1)" unfolding layout_ok_def by (intro exI [of _ 0]) simp
  moreover have "layout_ok (16384, 16)" unfolding layout_ok_def by (intro exI [of _ 4]) simp
  ultimately show ?thesis
    using heap_blocks_safe [of "(demo_heap_state demo_pmm)\<lparr>HEAP := \<lparr>h_start = 0xffff800000200000,
          h_end = 0xffff800001200000, h_next = 0xffff800000200000, h_ready = True\<rparr>\<rparr>"
        "[(5, 1), (16384, 16)]"]
    by (auto simp: heap_inv_def demo_heap_state_def)
qed

end
