(* ===== verification/Descriptors.thy ===== *)
theory Descriptors
  imports Serial
begin

text \<open>
  Segment and interrupt descriptors, \<^verbatim>\<open>kernel/src/arch/x86_64/gdt.rs\<close> and
  \<^verbatim>\<open>kernel/src/arch/x86_64/idt.rs\<close>: the constants of the GDT, the encoding of a 64-bit TSS
  descriptor and of an interrupt gate, and the update of the ring-0 stack pointer in the TSS.
\<close>

section \<open>Selectors and segment descriptors\<close>

definition KCODE_SEL :: u16 where
  "KCODE_SEL = 0x08"

definition KDATA_SEL :: u16 where
  "KDATA_SEL = 0x10"

definition TSS_SEL :: u16 where
  "TSS_SEL = 0x18"

definition UDATA_SEL :: u16 where
  "UDATA_SEL = 0x28"

definition UCODE_SEL :: u16 where
  "UCODE_SEL = 0x30"

definition gdt_code64 :: u64 where
  "gdt_code64 = 0x00AF9A000000FFFF"

definition gdt_data :: u64 where
  "gdt_data = 0x00AF92000000FFFF"

definition gdt_user_code64 :: u64 where
  "gdt_user_code64 = 0x00AFFA000000FFFF"

definition gdt_user_data :: u64 where
  "gdt_user_data = 0x00AFF2000000FFFF"

definition gdt_tss64 :: "u64 \<Rightarrow> u32 \<Rightarrow> u64 \<times> u64" where
  "gdt_tss64 base limit =
     (let low = 0;
          low = low OR (ucast limit AND 0xFFFF);
          low = low OR push_bit 16 (base AND 0xFFFF);
          low = low OR push_bit 32 (drop_bit 16 base AND 0xFF);
          low = low OR push_bit 40 0x9;
          low = low OR push_bit 47 1;
          low = low OR push_bit 48 (drop_bit 16 (ucast limit) AND 0xF);
          low = low OR push_bit 56 (drop_bit 24 base AND 0xFF);
          high = drop_bit 32 base AND 0xFFFFFFFF in
      (low, high))"

text \<open>The table \<open>init\<close> builds, for the address and size of the TSS.\<close>

definition gdt_table :: "u64 \<Rightarrow> u32 \<Rightarrow> u64 list" where
  "gdt_table tss_base tss_size =
     (let (tss_lo, tss_hi) = gdt_tss64 tss_base (tss_size - 1) in
      [0, gdt_code64, gdt_data, tss_lo, tss_hi, gdt_user_data, gdt_user_code64])"

definition set_rsp0 :: "u64 \<Rightarrow> 'z machine_scheme \<Rightarrow> 'z machine_scheme" where
  "set_rsp0 rsp0_top s = s\<lparr>tss_rsp0 := rsp0_top\<rparr>"

section \<open>Interrupt gates\<close>

record IdtEntry =
  offset_low :: u16
  selector :: u16
  ist :: u8
  type_attr :: u8
  offset_mid :: u16
  offset_high :: u32
  idt_zero :: u32

definition idt_missing :: IdtEntry where
  "idt_missing = \<lparr>offset_low = 0, selector = 0, ist = 0, type_attr = 0, offset_mid = 0,
     offset_high = 0, idt_zero = 0\<rparr>"

text \<open>The code selector \<open>current_cs()\<close> reads is an argument.\<close>

definition set_handler :: "u16 \<Rightarrow> u64 \<Rightarrow> IdtEntry \<Rightarrow> IdtEntry" where
  "set_handler cs handler e =
     (let e = e\<lparr>offset_low := ucast handler\<rparr>;
          e = e\<lparr>offset_mid := ucast (drop_bit 16 handler)\<rparr>;
          e = e\<lparr>offset_high := ucast (drop_bit 32 handler)\<rparr>;
          e = e\<lparr>idt_zero := 0\<rparr>;
          e = e\<lparr>selector := cs\<rparr>;
          e = e\<lparr>ist := 0\<rparr> in
      e\<lparr>type_attr := 0x8E\<rparr>)"

definition set_ist :: "u8 \<Rightarrow> IdtEntry \<Rightarrow> IdtEntry" where
  "set_ist i e = e\<lparr>ist := i AND 0x7\<rparr>"

definition set_dpl :: "u8 \<Rightarrow> IdtEntry \<Rightarrow> IdtEntry" where
  "set_dpl dpl e =
     e\<lparr>type_attr := (type_attr e AND NOT (push_bit 5 0x3)) OR push_bit 5 (dpl AND 0x3)\<rparr>"

definition df_ist_index :: u8 where
  "df_ist_index = 1"

text \<open>The addresses of the handlers.\<close>

record handlers =
  breakpoint_handler :: u64
  double_fault_handler :: u64
  gp_fault_handler :: u64
  page_fault_handler :: u64
  timer_irq_stub :: u64
  syscall80_stub :: u64

definition idt_update :: "nat \<Rightarrow> (IdtEntry \<Rightarrow> IdtEntry) \<Rightarrow> IdtEntry list \<Rightarrow> IdtEntry list" where
  "idt_update i f idt = idt[i := f (idt ! i)]"

definition idt_init :: "u16 \<Rightarrow> handlers \<Rightarrow> IdtEntry list \<Rightarrow> IdtEntry list" where
  "idt_init cs h idt =
     (let idt = idt_update 3 (set_handler cs (breakpoint_handler h)) idt;
          idt = idt_update 8 (set_handler cs (double_fault_handler h)) idt;
          idt = idt_update 8 (set_ist df_ist_index) idt;
          idt = idt_update 13 (set_handler cs (gp_fault_handler h)) idt;
          idt = idt_update 14 (set_handler cs (page_fault_handler h)) idt;
          idt = idt_update 32 (set_handler cs (timer_irq_stub h)) idt;
          idt = idt_update 0x80 (set_handler cs (syscall80_stub h)) idt in
      idt_update 0x80 (set_dpl 3) idt)"

record InterruptStackFrame =
  f_rip :: u64
  f_cs :: u64
  f_rflags :: u64
  f_rsp :: u64
  f_ss :: u64

text \<open>The exception handlers print and, the breakpoint apart, halt: the message is their effect.\<close>

definition breakpoint :: "InterruptStackFrame \<Rightarrow> 'z machine_scheme \<Rightarrow> 'z machine_scheme" where
  "breakpoint frame s = write_str nl (write_hex_u64 (f_rip frame) (write_str ''EXC: int3 rip='' s))"

definition double_fault :: "InterruptStackFrame \<Rightarrow> 'z machine_scheme \<Rightarrow> 'z machine_scheme" where
  "double_fault frame s =
     write_str nl (write_hex_u64 (f_rip frame) (write_str ''EXC: double fault rip='' s))"

definition print_frame :: "InterruptStackFrame \<Rightarrow> 'z machine_scheme \<Rightarrow> 'z machine_scheme" where
  "print_frame frame s =
     (let s = write_hex_u64 (f_rip frame) (write_str '' rip='' s);
          s = write_hex_u64 (f_cs frame) (write_str '' cs='' s);
          s = write_hex_u64 (f_rsp frame) (write_str '' rsp='' s);
          s = write_hex_u64 (f_ss frame) (write_str '' ss='' s) in
      write_str nl s)"

definition gp_fault :: "InterruptStackFrame \<Rightarrow> u64 \<Rightarrow> 'z machine_scheme \<Rightarrow> 'z machine_scheme" where
  "gp_fault frame err s =
     print_frame frame (write_hex_u64 err (write_str ''EXC: #GP err='' s))"

definition page_fault ::
  "u64 \<Rightarrow> InterruptStackFrame \<Rightarrow> u64 \<Rightarrow> 'z machine_scheme \<Rightarrow> 'z machine_scheme" where
  "page_fault cr2 frame err s =
     print_frame frame (write_hex_u64 err (write_str '' err=''
       (write_hex_u64 cr2 (write_str ''EXC: #PF cr2='' s))))"

section \<open>What the processor reads back\<close>

definition tss_base :: "u64 \<times> u64 \<Rightarrow> u64" where
  "tss_base d = (case d of (lo, hi) \<Rightarrow>
     (drop_bit 16 lo AND 0xFFFFFF) OR push_bit 24 (drop_bit 56 lo) OR push_bit 32 hi)"

definition tss_limit :: "u64 \<times> u64 \<Rightarrow> u64" where
  "tss_limit d = (case d of (lo, hi) \<Rightarrow>
     (lo AND 0xFFFF) OR push_bit 16 (drop_bit 48 lo AND 0xF))"

definition gate_offset :: "IdtEntry \<Rightarrow> u64" where
  "gate_offset e =
     ucast (offset_low e) OR push_bit 16 (ucast (offset_mid e)) OR push_bit 32 (ucast (offset_high e))"

definition gate_present :: "IdtEntry \<Rightarrow> bool" where
  "gate_present e \<longleftrightarrow> bit (type_attr e) 7"

definition gate_dpl :: "IdtEntry \<Rightarrow> u8" where
  "gate_dpl e = drop_bit 5 (type_attr e) AND 3"

definition seg_dpl :: "u64 \<Rightarrow> u64" where
  "seg_dpl d = drop_bit 45 d AND 3"

definition seg_code :: "u64 \<Rightarrow> bool" where
  "seg_code d \<longleftrightarrow> bit d 43"

lemma mask_consts:
  "(0xFFFF :: u64) = mask 16" "(0xFF :: u64) = mask 8" "(0xF :: u64) = mask 4"
  "(0xFFFFFF :: u64) = mask 24" "(0xFFFFFFFF :: u64) = mask 32"
  by (simp_all add: mask_eq_exp_minus_1)

text \<open>Every field of a descriptor is a masked slice moved into place; its bits are that slice.\<close>

lemma bit_field:
  "bit (push_bit d (drop_bit e x AND mask w)) k \<longleftrightarrow> d \<le> k \<and> k < d + w \<and> k < 64 \<and> bit x (k - d + e)"
  for x :: u64
  by (auto simp: bit_simps add.commute)

lemmas bit_field0 = bit_field [where d = 0 and e = 0, simplified]
lemmas bit_field_low = bit_field [where e = 0, unfolded drop_bit_0 id_apply add_0_right]
lemmas bit_field_slice = bit_field [where d = 0, simplified]

lemma bit_push_one: "bit (push_bit d (1 :: u64)) k \<longleftrightarrow> k = d \<and> d < 64"
  by (auto simp only: bit_push_bit_iff possible_bit_word bit_1_iff) simp_all

lemma bit_type_9: "bit (push_bit 40 (9 :: u64)) k \<longleftrightarrow> k = 40 \<or> k = 43"
proof -
  have "push_bit 40 (9 :: u64) = push_bit 40 1 OR push_bit 43 1" by simp
  then show ?thesis by (simp only: bit_or_iff bit_push_one) simp
qed

lemmas bit_descriptor = bit_or_iff bit_field bit_field0 bit_field_low bit_field_slice bit_type_9
  bit_push_one

lemma tss_low_bits:
  "bit (fst (gdt_tss64 base limit)) k \<longleftrightarrow>
     k < 16 \<and> bit (ucast limit :: u64) k \<or> 16 \<le> k \<and> k < 32 \<and> bit base (k - 16)
     \<or> 32 \<le> k \<and> k < 40 \<and> bit base (k - 16) \<or> k = 40 \<or> k = 43 \<or> k = 47
     \<or> 48 \<le> k \<and> k < 52 \<and> bit (ucast limit :: u64) (k - 32)
     \<or> 56 \<le> k \<and> k < 64 \<and> bit base (k - 32)"
  unfolding gdt_tss64_def Let_def fst_conv mask_consts or.left_neutral bit_descriptor
  by (rule iffI; elim disjE conjE; simp add: bit_drop_bit_eq)

lemma tss_high_bits: "bit (snd (gdt_tss64 base limit)) k \<longleftrightarrow> k < 32 \<and> bit base (k + 32)"
  unfolding gdt_tss64_def Let_def snd_conv mask_consts bit_descriptor
  by (auto simp: bit_drop_bit_eq add.commute)

lemma tss_base_gdt: "tss_base (gdt_tss64 base limit) = base"
proof (rule bit_word_eqI)
  fix n assume n: "n < LENGTH(64)"
  have *: "bit (tss_base d) n \<longleftrightarrow> n < 24 \<and> bit (fst d) (n + 16)
      \<or> 24 \<le> n \<and> n < 64 \<and> bit (fst d) (n + 32) \<or> 32 \<le> n \<and> bit (snd d) (n - 32)" for d
    using n unfolding tss_base_def mask_consts
    by (auto simp: bit_simps bit_field_slice add.commute split: prod.splits
        dest: bit_imp_le_length)
  consider "n < 16" | "16 \<le> n" "n < 24" | "24 \<le> n" "n < 32" | "32 \<le> n" by linarith
  then show "bit (tss_base (gdt_tss64 base limit)) n = bit base n"
    by cases (use n in \<open>auto simp: * tss_low_bits tss_high_bits\<close>)
qed

lemma tss_limit_gdt: "tss_limit (gdt_tss64 base limit) = ucast limit AND mask 20"
proof (rule bit_word_eqI)
  fix n assume n: "n < LENGTH(64)"
  have *: "bit (tss_limit d) n \<longleftrightarrow> n < 16 \<and> bit (fst d) n
      \<or> 16 \<le> n \<and> n < 20 \<and> bit (fst d) (n + 32)" for d
    using n unfolding tss_limit_def mask_consts
    by (auto simp: bit_simps bit_field bit_field0 add.commute split: prod.splits)
  consider "n < 16" | "16 \<le> n" "n < 20" | "20 \<le> n" by linarith
  then show "bit (tss_limit (gdt_tss64 base limit)) n = bit (ucast limit AND mask 20 :: u64) n"
    by cases (use n in \<open>simp_all add: * tss_low_bits bit_field0\<close>)
qed

section \<open>Properties\<close>

lemma gate_offset_set_handler: "gate_offset (set_handler cs h e) = h"
proof (rule bit_word_eqI)
  fix n assume n: "n < LENGTH(64)"
  consider "n < 16" | "16 \<le> n" "n < 32" | "32 \<le> n" by linarith
  then show "bit (gate_offset (set_handler cs h e)) n = bit h n"
    by cases (use n in \<open>auto simp: gate_offset_def set_handler_def bit_simps Let_def\<close>)
qed

lemma ist_set_ist: "ist (set_ist df_ist_index e) = df_ist_index"
  by (simp add: set_ist_def df_ist_index_def)

lemma gate_kinds:
  "gate_present (set_handler cs h e)" "gate_dpl (set_handler cs h e) = 0"
  "gate_present (set_dpl 3 (set_handler cs h e))" "gate_dpl (set_dpl 3 (set_handler cs h e)) = 3"
  "gate_offset (set_dpl 3 e) = gate_offset e" "gate_offset (set_ist i e) = gate_offset e"
  "gate_present (set_ist i e) = gate_present e" "gate_dpl (set_ist i e) = gate_dpl e"
  "\<not> gate_present idt_missing"
  by (simp_all add: gate_present_def gate_dpl_def gate_offset_def set_handler_def set_dpl_def
      set_ist_def Let_def idt_missing_def bit_iff_odd_drop_bit)

text \<open>C30: the TSS descriptor of the GDT decodes to the base address and the (20-bit) limit it was
  built from, and each selector constant picks the descriptor of its privilege: kernel code and data
  at ring 0, user code and data at ring 3.\<close>

theorem gdt_well_formed:
  "tss_base (gdt_tss64 base limit) = base
   \<and> tss_limit (gdt_tss64 base limit) = ucast limit AND mask 20
   \<and> (let gdt = gdt_table base sz; at = \<lambda>sel. gdt ! unat (drop_bit 3 sel) in
       length gdt = 7
       \<and> seg_dpl (at KCODE_SEL) = 0 \<and> seg_code (at KCODE_SEL)
       \<and> seg_dpl (at KDATA_SEL) = 0 \<and> \<not> seg_code (at KDATA_SEL)
       \<and> seg_dpl (at UCODE_SEL) = 3 \<and> seg_code (at UCODE_SEL)
       \<and> seg_dpl (at UDATA_SEL) = 3 \<and> \<not> seg_code (at UDATA_SEL)
       \<and> (at TSS_SEL, gdt ! 4) = gdt_tss64 base (sz - 1))"
  by (simp add: tss_base_gdt tss_limit_gdt gdt_table_def seg_dpl_def seg_code_def KCODE_SEL_def
      KDATA_SEL_def UCODE_SEL_def UDATA_SEL_def TSS_SEL_def gdt_code64_def gdt_data_def
      gdt_user_code64_def gdt_user_data_def bit_iff_odd_drop_bit split: prod.splits)

text \<open>C31: the interrupt table of \<open>idt::init\<close> sends every vector it installs to its handler, leaves all
  other vectors absent, and lets user mode raise \<open>int 0x80\<close> only: no other present gate has
  privilege level 3.\<close>

theorem idt_only_syscall_from_user:
  "let idt = idt_init cs h (replicate 256 idt_missing) in
     length idt = 256
     \<and> gate_offset (idt ! 3) = breakpoint_handler h \<and> gate_offset (idt ! 8) = double_fault_handler h
     \<and> ist (idt ! 8) = df_ist_index
     \<and> gate_offset (idt ! 13) = gp_fault_handler h \<and> gate_offset (idt ! 14) = page_fault_handler h
     \<and> gate_offset (idt ! 32) = timer_irq_stub h \<and> gate_offset (idt ! 0x80) = syscall80_stub h
     \<and> {v. v < 256 \<and> gate_present (idt ! v)} = {3, 8, 13, 14, 32, 0x80}
     \<and> {v. v < 256 \<and> gate_present (idt ! v) \<and> gate_dpl (idt ! v) = 3} = {0x80}"
proof -
  define idt where "idt = idt_init cs h (replicate 256 idt_missing)"
  have idt: "idt = (replicate 256 idt_missing)
      [3 := set_handler cs (breakpoint_handler h) idt_missing,
       8 := set_ist df_ist_index (set_handler cs (double_fault_handler h) idt_missing),
       13 := set_handler cs (gp_fault_handler h) idt_missing,
       14 := set_handler cs (page_fault_handler h) idt_missing,
       32 := set_handler cs (timer_irq_stub h) idt_missing,
       0x80 := set_dpl 3 (set_handler cs (syscall80_stub h) idt_missing)]"
    by (simp add: idt_def idt_init_def idt_update_def nth_list_update)
  have len: "length idt = 256" by (simp add: idt)
  have at: "idt ! v = (if v = 3 then set_handler cs (breakpoint_handler h) idt_missing
      else if v = 8 then set_ist df_ist_index (set_handler cs (double_fault_handler h) idt_missing)
      else if v = 13 then set_handler cs (gp_fault_handler h) idt_missing
      else if v = 14 then set_handler cs (page_fault_handler h) idt_missing
      else if v = 32 then set_handler cs (timer_irq_stub h) idt_missing
      else if v = 0x80 then set_dpl 3 (set_handler cs (syscall80_stub h) idt_missing)
      else idt_missing)" if "v < 256" for v
    using that by (simp add: idt nth_list_update)
  have "{v. v < 256 \<and> gate_present (idt ! v)} = {3, 8, 13, 14, 32, 0x80}"
    "{v. v < 256 \<and> gate_present (idt ! v) \<and> gate_dpl (idt ! v) = 3} = {0x80}"
    by (auto simp: at gate_kinds split: if_splits)
  then show ?thesis
    unfolding idt_def [symmetric] Let_def
    by (simp add: len at gate_kinds gate_offset_set_handler ist_set_ist)
qed

end
