(* ===== verification/Sched.thy ===== *)
theory Sched
  imports Heap Descriptors
begin

text \<open>
  The process table and the round-robin scheduler, \<^verbatim>\<open>kernel/src/sched.rs\<close>, with the per-process
  capability tables. The interrupt stubs save the registers of the interrupted process on its kernel
  stack and pass the address of that frame; the scheduler stores it and returns the frame to resume,
  or 0 to stay. The kernel runs with one processor and interrupts off inside the handlers, so every
  operation is a function of the state.
\<close>

section \<open>State and operations\<close>

record Proc =
  tf_rsp :: u64
  kstack_top :: u64
  p_cr3 :: u64
  caps :: "u32 list"
  alive :: bool
  runnable :: bool
  blocked_ep :: u32

definition MAX_PROCS :: nat where
  "MAX_PROCS = 8"

record sched_state = heap_state +
  INITED :: bool
  CURRENT :: nat
  TICKS :: u64
  MANTRA_NEXT_CR3 :: u64
  PROCS :: "Proc list"

definition empty_proc :: Proc where
  "empty_proc = \<lparr>tf_rsp = 0, kstack_top = 0, p_cr3 = 0, caps = replicate 32 0, alive = False,
     runnable = False, blocked_ep = 0\<rparr>"

definition new_proc :: "u64 \<Rightarrow> u64 \<Rightarrow> u64 \<Rightarrow> Proc" where
  "new_proc tf kst root = \<lparr>tf_rsp = tf, kstack_top = kst, p_cr3 = root, caps = replicate 32 0,
     alive = True, runnable = True, blocked_ep = 0\<rparr>"

definition install_first ::
  "u64 \<Rightarrow> u64 \<Rightarrow> u64 \<Rightarrow> 'z sched_state_scheme \<Rightarrow> 'z sched_state_scheme" where
  "install_first tf kst root s =
     write_str (''sched: installed proc0'' @ nl)
       (s\<lparr>PROCS := new_proc tf kst root # replicate (MAX_PROCS - 1) empty_proc,
          MANTRA_NEXT_CR3 := root, CURRENT := 0, INITED := True\<rparr>)"

definition current_pid :: "'z sched_state_scheme \<Rightarrow> nat" where
  "current_pid s = CURRENT s"

definition spawn_proc ::
  "u64 \<Rightarrow> u64 \<Rightarrow> u64 \<Rightarrow> 'z sched_state_scheme \<Rightarrow> nat option \<times> 'z sched_state_scheme" where
  "spawn_proc tf kst root s =
     (case find_slot (\<lambda>p. \<not> alive p) (PROCS s) of
        None \<Rightarrow> (None, s)
      | Some pid \<Rightarrow> (Some pid, s\<lparr>PROCS := (PROCS s)[pid := new_proc tf kst root]\<rparr>))"

text \<open>Accesses behind the guard \<open>pid >= MAX_PROCS\<close> are in range, since the table has \<open>MAX_PROCS\<close>
  entries; the unguarded ones are checked.\<close>

definition proc_cr3 :: "nat \<Rightarrow> 'z sched_state_scheme \<Rightarrow> u64 option" where
  "proc_cr3 pid s = (if MAX_PROCS \<le> pid then None else Some (p_cr3 (PROCS s ! pid)))"

definition proc_tf_rsp :: "nat \<Rightarrow> 'z sched_state_scheme \<Rightarrow> u64 option" where
  "proc_tf_rsp pid s = (if MAX_PROCS \<le> pid then None else Some (tf_rsp (PROCS s ! pid)))"

definition wake :: "nat \<Rightarrow> 'z sched_state_scheme \<Rightarrow> 'z sched_state_scheme" where
  "wake pid s =
     (if MAX_PROCS \<le> pid then s
      else let p = PROCS s ! pid in
        if alive p then s\<lparr>PROCS := (PROCS s)[pid := p\<lparr>runnable := True, blocked_ep := 0\<rparr>]\<rparr>
        else s)"

definition block_current_on_ep ::
  "u32 \<Rightarrow> 'z sched_state_scheme \<Rightarrow> 'z sched_state_scheme outcome" where
  "block_current_on_ep ep_id s =
     (let pid = current_pid s in
      and_then (aget (PROCS s) pid) (\<lambda>p.
        Inr (s\<lparr>PROCS := (PROCS s)[pid := p\<lparr>runnable := False, blocked_ep := ep_id\<rparr>]\<rparr>)))"

definition ready :: "Proc \<Rightarrow> bool" where
  "ready p \<longleftrightarrow> alive p \<and> runnable p"

definition has_other_runnable :: "'z sched_state_scheme \<Rightarrow> bool" where
  "has_other_runnable s \<longleftrightarrow>
     list_ex (\<lambda>(pid, p). pid \<noteq> current_pid s \<and> ready p) (enumerate 0 (PROCS s))"

fun pick_loop :: "nat \<Rightarrow> nat \<Rightarrow> Proc list \<Rightarrow> nat option outcome" where
  "pick_loop 0 next procs = Inr None"
| "pick_loop (Suc n) next procs =
     (let next' = (next + 1) mod MAX_PROCS in
      and_then (aget procs next') (\<lambda>p.
        if ready p then Inr (Some next') else pick_loop n next' procs))"

definition pick_next_runnable :: "nat \<Rightarrow> 'z sched_state_scheme \<Rightarrow> nat outcome" where
  "pick_next_runnable cur s =
     and_then (pick_loop MAX_PROCS cur (PROCS s)) (\<lambda>r.
       Inr (case r of None \<Rightarrow> cur | Some next \<Rightarrow> next))"

definition switch_from ::
  "u64 \<Rightarrow> 'z sched_state_scheme \<Rightarrow> (u64 \<times> 'z sched_state_scheme) outcome" where
  "switch_from cur_tf s =
     (let cur = CURRENT s in
      and_then (aget (PROCS s) cur) (\<lambda>p.
        let s1 = s\<lparr>PROCS := (PROCS s)[cur := p\<lparr>tf_rsp := cur_tf\<rparr>]\<rparr> in
        and_then (pick_next_runnable cur s1) (\<lambda>next.
          if next = cur then Inr (0, s1)
          else and_then (aget (PROCS s1) next) (\<lambda>q.
            let s2 = set_rsp0 (kstack_top q) s1;
                s3 = s2\<lparr>MANTRA_NEXT_CR3 := p_cr3 q\<rparr>;
                s4 = s3\<lparr>CURRENT := next\<rparr> in
            Inr (tf_rsp q, s4)))))"

definition yield_from_syscall ::
  "u64 \<Rightarrow> 'z sched_state_scheme \<Rightarrow> (u64 \<times> 'z sched_state_scheme) outcome" where
  "yield_from_syscall current_tf s =
     (if \<not> INITED s then Inr (0, s) else switch_from current_tf s)"

definition cap_alloc_for ::
  "nat \<Rightarrow> u32 \<Rightarrow> 'z sched_state_scheme \<Rightarrow> u32 option \<times> 'z sched_state_scheme" where
  "cap_alloc_for pid endpoint_id s =
     (if MAX_PROCS \<le> pid \<or> endpoint_id = 0 then (None, s)
      else let p = PROCS s ! pid in
        case find_slot (\<lambda>slot. slot = 0) (caps p) of
          None \<Rightarrow> (None, s)
        | Some i \<Rightarrow> (Some (of_nat i + 1),
            s\<lparr>PROCS := (PROCS s)[pid := p\<lparr>caps := (caps p)[i := endpoint_id]\<rparr>]\<rparr>))"

definition cap_alloc_current ::
  "u32 \<Rightarrow> 'z sched_state_scheme \<Rightarrow> u32 option \<times> 'z sched_state_scheme" where
  "cap_alloc_current endpoint_id s = cap_alloc_for (current_pid s) endpoint_id s"

definition cap_lookup_current :: "u32 \<Rightarrow> 'z sched_state_scheme \<Rightarrow> u32 option" where
  "cap_lookup_current cap s =
     (if cap = 0 then None
      else let idx = unat cap - 1; pid = current_pid s in
        if MAX_PROCS \<le> pid \<or> 32 \<le> idx then None
        else let ep = caps (PROCS s ! pid) ! idx in if ep = 0 then None else Some ep)"

definition on_timer_irq ::
  "u64 \<Rightarrow> 'z sched_state_scheme \<Rightarrow> (u64 \<times> 'z sched_state_scheme) outcome" where
  "on_timer_irq current_tf s =
     (if \<not> INITED s then Inr (0, s)
      else and_then (add_chk (TICKS s) 1) (\<lambda>t.
        let s1 = s\<lparr>TICKS := TICKS s + 1\<rparr>; cur = CURRENT s1 in
        and_then (switch_from current_tf s1) (\<lambda>(next_tf, s2).
          if next_tf = 0 then Inr (0, s2)
          else let next = CURRENT s2 in
            if t mod 100 = 0
            then let s3 = write_str ''sched: tick='' s2;
                     s4 = write_dec_u64 t s3;
                     s5 = write_str '' switch '' s4;
                     s6 = write_dec_u64 (of_nat cur) s5;
                     s7 = write_str ''->'' s6;
                     s8 = write_dec_u64 (of_nat next) s7 in
                 Inr (next_tf, write_str nl s8)
            else Inr (next_tf, s2))))"

section \<open>Well-formedness\<close>

text \<open>The array types of the source, the range of the current process, and the convention that a
  saved frame address is never 0, which the stubs use for "do not switch".\<close>

definition proc_ok :: "Proc \<Rightarrow> bool" where
  "proc_ok p \<longleftrightarrow> length (caps p) = 32 \<and> (alive p \<longrightarrow> tf_rsp p \<noteq> 0)"

definition sched_inv :: "'z sched_state_scheme \<Rightarrow> bool" where
  "sched_inv s \<longleftrightarrow> length (PROCS s) = MAX_PROCS \<and> CURRENT s < MAX_PROCS
     \<and> list_all proc_ok (PROCS s)"

lemma sched_invD:
  assumes "sched_inv s"
  shows "length (PROCS s) = 8" "CURRENT s < 8" "pid < 8 \<Longrightarrow> proc_ok (PROCS s ! pid)"
    "pid < 8 \<Longrightarrow> length (caps (PROCS s ! pid)) = 32"
  using assms by (auto simp: sched_inv_def MAX_PROCS_def list_all_length proc_ok_def)

lemma list_all_update: "list_all P xs \<Longrightarrow> P x \<Longrightarrow> list_all P (xs[i := x])"
  by (auto simp: list_all_iff dest!: set_update_subset_insert [THEN subsetD])

lemma proc_ok_new: "tf \<noteq> 0 \<Longrightarrow> proc_ok (new_proc tf kst root)" "proc_ok empty_proc"
  by (simp_all add: proc_ok_def new_proc_def empty_proc_def)

lemma sched_inv_install: "tf \<noteq> 0 \<Longrightarrow> sched_inv (install_first tf kst root s)"
  by (simp add: sched_inv_def install_first_def serial_eqs MAX_PROCS_def proc_ok_new list_all_iff)

lemma sched_inv_update:
  assumes "sched_inv s" "pid < 8 \<Longrightarrow> proc_ok p"
  shows "sched_inv (s\<lparr>PROCS := (PROCS s)[pid := p]\<rparr>)"
proof (cases "pid < 8")
  case True
  with assms show ?thesis by (simp add: sched_inv_def list_all_update)
next
  case False
  with assms(1) show ?thesis by (simp add: sched_inv_def MAX_PROCS_def list_update_beyond)
qed

lemma sched_inv_wake: "sched_inv s \<Longrightarrow> sched_inv (wake pid s)"
  by (auto simp: wake_def Let_def MAX_PROCS_def proc_ok_def dest: sched_invD(3)
      intro!: sched_inv_update)

lemma block_current_eq:
  assumes "sched_inv s"
  shows "block_current_on_ep ep s = Inr (s\<lparr>PROCS := (PROCS s)[CURRENT s :=
    (PROCS s ! CURRENT s)\<lparr>runnable := False, blocked_ep := ep\<rparr>]\<rparr>)"
  using sched_invD [OF assms] by (simp add: block_current_on_ep_def current_pid_def Let_def)

section \<open>Picking the next process\<close>

definition cyclic :: "nat \<Rightarrow> nat list" where
  "cyclic cur = map (\<lambda>k. (cur + k) mod 8) [1..<9]"

lemma pick_loop_eq:
  "length procs = 8 \<Longrightarrow> pick_loop n cur procs
     = Inr (find (\<lambda>i. ready (procs ! i)) (map (\<lambda>k. (cur + k) mod 8) [1..<Suc n]))"
proof (induction n arbitrary: cur)
  case 0
  then show ?case by simp
next
  case (Suc n)
  have "map (\<lambda>k. (cur + k) mod 8) [1..<Suc (Suc n)]
      = (cur + 1) mod 8 # map (\<lambda>k. ((cur + 1) mod 8 + k) mod 8) [1..<Suc n]"
    by (simp add: upt_conv_Cons map_Suc_upt [symmetric] comp_def mod_simps del: upt_Suc)
  with Suc.IH [OF Suc.prems, of "(cur + 1) mod 8"] Suc.prems show ?case
    by (simp add: MAX_PROCS_def Let_def del: upt_Suc)
qed

lemma pick_next_eq:
  assumes "length (PROCS s) = 8"
  shows "pick_next_runnable cur s = Inr (case find (\<lambda>i. ready (PROCS s ! i)) (cyclic cur) of
    None \<Rightarrow> cur | Some n \<Rightarrow> n)"
  using pick_loop_eq [OF assms, of 8 cur]
  by (simp add: pick_next_runnable_def MAX_PROCS_def cyclic_def eval_nat_numeral(3) [symmetric]
      del: upt_Suc)

text \<open>The number of steps from one process to another around the table, from 1 to 8.\<close>

definition hop :: "nat \<Rightarrow> nat \<Rightarrow> nat" where
  "hop cur pid = (pid + 7 - cur) mod 8 + 1"

lemma hop_add: "cur < 8 \<Longrightarrow> pid < 8 \<Longrightarrow> (cur + hop cur pid) mod 8 = pid"
proof -
  assume a: "cur < 8" "pid < 8"
  then have "(cur + hop cur pid) mod 8 = (cur + (pid + 7 - cur) + 1) mod 8"
    unfolding hop_def by (metis add.assoc mod_add_left_eq mod_add_right_eq)
  also have "cur + (pid + 7 - cur) + 1 = pid + 8" using a by simp
  finally show ?thesis using a(2) by simp
qed

lemma hop_unique: "cur < 8 \<Longrightarrow> 1 \<le> k \<Longrightarrow> k \<le> 8 \<Longrightarrow> hop cur ((cur + k) mod 8) = k"
proof -
  assume a: "cur < 8" "1 \<le> k" "k \<le> 8"
  show ?thesis
  proof (cases "cur + k < 8")
    case True
    with a have "hop cur ((cur + k) mod 8) = (8 + (k - 1)) mod 8 + 1"
      by (simp add: hop_def add.commute)
    also have "\<dots> = k" using a by (simp only: mod_add_self1) simp
    finally show ?thesis .
  next
    case False
    then obtain r where r: "cur + k = 8 + r" using le_Suc_ex not_le by metis
    then have "(cur + k) mod 8 = r mod 8" by simp
    also have "\<dots> = r" using r a by simp
    finally show ?thesis using r a by (simp add: hop_def)
  qed
qed

text \<open>What the round-robin search returns, and that it never overtakes a ready process.\<close>

lemma pick_nextE:
  assumes "length (PROCS s) = 8" "cur < 8"
  obtains nxt where "pick_next_runnable cur s = Inr nxt" "nxt < 8"
    "nxt = cur \<or> ready (PROCS s ! nxt)"
    "\<And>pid. pid < 8 \<Longrightarrow> ready (PROCS s ! pid) \<Longrightarrow>
       ready (PROCS s ! nxt) \<and> hop cur nxt \<le> hop cur pid"
proof -
  define R where "R = (\<lambda>i. ready (PROCS s ! i))"
  define nxt where "nxt = (case find R (cyclic cur) of None \<Rightarrow> cur | Some n \<Rightarrow> n)"
  have pick: "pick_next_runnable cur s = Inr nxt"
    using pick_next_eq [OF assms(1)] by (simp add: nxt_def R_def)
  have mem: "pid \<in> set (cyclic cur)" if "pid < 8" for pid
  proof -
    have "hop cur pid \<in> set [1..<9]" using mod_less_divisor [of 8 "pid + 7 - cur"]
      by (simp add: hop_def del: mod_less_divisor)
    then show ?thesis
      unfolding cyclic_def set_map using hop_add [OF assms(2) that, symmetric] by (rule rev_image_eqI)
  qed
  show thesis
  proof (cases "find R (cyclic cur)")
    case None
    then have "\<not> R pid" if "pid < 8" for pid using mem [OF that] by (auto simp: find_None_iff)
    with None assms(2) that [OF pick] show thesis by (simp add: nxt_def R_def)
  next
    case (Some n)
    then have n: "nxt = n" by (simp add: nxt_def)
    from Some obtain i where i: "i < 8" "n = (cur + (i + 1)) mod 8" "R n"
      "\<And>j. j < i \<Longrightarrow> \<not> R ((cur + (j + 1)) mod 8)"
      by (auto simp: find_Some_iff cyclic_def nth_append simp del: upt_Suc)
    have hn: "hop cur n = i + 1" using hop_unique [OF assms(2), of "i + 1"] i by simp
    have "i + 1 \<le> hop cur pid" if "pid < 8" "R pid" for pid
    proof (rule ccontr)
      assume "\<not> i + 1 \<le> hop cur pid"
      then have "hop cur pid - 1 < i" by (simp add: hop_def)
      from i(4) [OF this] hop_add [OF assms(2) that(1)] that(2) show False by (simp add: hop_def)
    qed
    with i n hn that [OF pick] show thesis by (simp add: R_def)
  qed
qed

lemma hop_decreases:
  assumes "cur < 8" "pid < 8" "nxt < 8" "nxt \<noteq> pid" "hop cur nxt \<le> hop cur pid"
  shows "hop nxt pid < hop cur pid"
proof -
  have "hop cur nxt \<noteq> hop cur pid" using hop_add [of cur] assms(1-4) by metis
  then have lt: "hop cur nxt < hop cur pid" using assms(5) by simp
  have "pid = (nxt + (hop cur pid - hop cur nxt)) mod 8"
    using hop_add [OF assms(1,2)] hop_add [OF assms(1,3)] lt
    by (metis (no_types, lifting) add.assoc add_diff_inverse_nat mod_add_left_eq not_less_iff_gr_or_eq)
  moreover have "hop cur pid - hop cur nxt \<le> 8" by (simp add: hop_def)
  ultimately have "hop nxt pid = hop cur pid - hop cur nxt"
    using hop_unique [OF assms(3), of "hop cur pid - hop cur nxt"] lt by simp
  moreover have "0 < hop cur nxt" by (simp add: hop_def)
  ultimately show ?thesis using lt by simp
qed

section \<open>Switching\<close>

definition save_frame :: "u64 \<Rightarrow> 'z sched_state_scheme \<Rightarrow> 'z sched_state_scheme" where
  "save_frame f s = s\<lparr>PROCS := (PROCS s)[CURRENT s := (PROCS s ! CURRENT s)\<lparr>tf_rsp := f\<rparr>]\<rparr>"

lemma ready_save_frame:
  "pid < length (PROCS s) \<Longrightarrow> ready (PROCS (save_frame f s) ! pid) = ready (PROCS s ! pid)"
  by (cases "pid = CURRENT s") (simp_all add: save_frame_def ready_def)

definition enter :: "nat \<Rightarrow> 'z sched_state_scheme \<Rightarrow> 'z sched_state_scheme" where
  "enter pid s = s\<lparr>tss_rsp0 := kstack_top (PROCS s ! pid), MANTRA_NEXT_CR3 := p_cr3 (PROCS s ! pid),
     CURRENT := pid\<rparr>"

lemma switch_fromE:
  assumes "sched_inv s"
  obtains (stay) "switch_from f s = Inr (0, save_frame f s)"
      "\<And>pid. pid < 8 \<Longrightarrow> pid \<noteq> CURRENT s \<Longrightarrow> \<not> ready (PROCS s ! pid)"
  | (switch) nxt where "switch_from f s = Inr (tf_rsp (PROCS s ! nxt), enter nxt (save_frame f s))"
      "nxt \<noteq> CURRENT s" "nxt < 8" "ready (PROCS s ! nxt)"
      "\<And>pid. pid < 8 \<Longrightarrow> ready (PROCS s ! pid) \<Longrightarrow> hop (CURRENT s) nxt \<le> hop (CURRENT s) pid"
proof -
  note inv = sched_invD [OF assms]
  have len: "length (PROCS (save_frame f s)) = 8" using inv by (simp add: save_frame_def)
  obtain nxt where n: "pick_next_runnable (CURRENT s) (save_frame f s) = Inr nxt" "nxt < 8"
    "nxt = CURRENT s \<or> ready (PROCS s ! nxt)"
    "\<And>pid. pid < 8 \<Longrightarrow> ready (PROCS s ! pid) \<Longrightarrow>
       ready (PROCS s ! nxt) \<and> hop (CURRENT s) nxt \<le> hop (CURRENT s) pid"
    using pick_nextE [OF len inv(2)] inv(1) by (metis ready_save_frame)
  have e: "switch_from f s = (if nxt = CURRENT s then Inr (0, save_frame f s)
      else Inr (tf_rsp (PROCS s ! nxt), enter nxt (save_frame f s)))"
    using inv n(1,2)
    by (simp add: switch_from_def Let_def save_frame_def [symmetric] set_rsp0_def)
      (simp add: save_frame_def enter_def)
  show thesis
  proof (cases "nxt = CURRENT s")
    case True
    have "\<not> ready (PROCS s ! pid)" if "pid < 8" "pid \<noteq> CURRENT s" for pid
    proof
      assume "ready (PROCS s ! pid)"
      with n(4) [OF that(1)] True have "hop (CURRENT s) (CURRENT s) \<le> hop (CURRENT s) pid" by simp
      with hop_decreases [OF inv(2) that(1) inv(2)] that(2) show False by fastforce
    qed
    with True e show thesis by (intro stay) simp_all
  next
    case False
    with e show thesis by (intro switch [of nxt]) (use n in auto)
  qed
qed

lemma sched_inv_save: "sched_inv s \<Longrightarrow> f \<noteq> 0 \<Longrightarrow> sched_inv (save_frame f s)"
  unfolding save_frame_def
  by (rule sched_inv_update) (auto simp: proc_ok_def dest: sched_invD(3))

lemma sched_inv_enter: "sched_inv s \<Longrightarrow> pid < 8 \<Longrightarrow> sched_inv (enter pid s)"
  by (simp add: sched_inv_def enter_def MAX_PROCS_def)

lemma enter_simps [simp]:
  "PROCS (enter pid s) = PROCS s" "CURRENT (enter pid s) = pid" "TICKS (enter pid s) = TICKS s"
  "INITED (enter pid s) = INITED s"
  by (simp_all add: enter_def)

lemma save_frame_simps [simp]:
  "CURRENT (save_frame f s) = CURRENT s" "TICKS (save_frame f s) = TICKS s"
  "INITED (save_frame f s) = INITED s" "length (PROCS (save_frame f s)) = length (PROCS s)"
  by (simp_all add: save_frame_def)

lemma add_chk_1: "x \<noteq> u64_max \<Longrightarrow> add_chk x 1 = Inr (x + 1)"
proof -
  assume "x \<noteq> u64_max"
  then have "unat x \<noteq> 2 ^ 64 - 1"
    unfolding word_unat_eq_iff unsigned_minus_1_eq_mask by (simp add: mask_eq_exp_minus_1)
  with unat_u64_lt [of x] show ?thesis by (simp add: add_chk_nat)
qed

text \<open>A timer interrupt is a switch, apart from the tick count and the log.\<close>

lemma on_timer_irqE:
  assumes "sched_inv s" "INITED s" "TICKS s \<noteq> u64_max"
  obtains r s1 out where "switch_from f (s\<lparr>TICKS := TICKS s + 1\<rparr>) = Inr (r, s1)"
    "on_timer_irq f s = Inr (r, s1\<lparr>serial_out := out\<rparr>)"
proof -
  have "sched_inv (s\<lparr>TICKS := TICKS s + 1\<rparr>)" using assms(1) by (simp add: sched_inv_def)
  then obtain r s1 where sw: "switch_from f (s\<lparr>TICKS := TICKS s + 1\<rparr>) = Inr (r, s1)"
    by (cases rule: switch_fromE [where f = f]) auto
  have "add_chk (TICKS s) 1 = Inr (TICKS s + 1)" using assms(3) by (rule add_chk_1)
  then have "\<exists>out. on_timer_irq f s = Inr (r, s1\<lparr>serial_out := out\<rparr>)"
    using assms(2) sw by (auto simp: on_timer_irq_def Let_def serial_eqs intro: exI [of _ "serial_out s1"])
  with sw that show thesis by blast
qed

section \<open>Capabilities\<close>

text \<open>The endpoint a process reaches through a capability number.\<close>

definition cap_lookup_of :: "nat \<Rightarrow> u32 \<Rightarrow> 'z sched_state_scheme \<Rightarrow> u32 option" where
  "cap_lookup_of pid cap s = cap_lookup_current cap (s\<lparr>CURRENT := pid\<rparr>)"

text \<open>A table of capabilities per process: what the IPC and spawn code relies on. A granted
  capability resolves to its endpoint, earlier capabilities keep theirs, and nothing else appears.\<close>

locale cap_space =
  fixes grant :: "nat \<Rightarrow> u32 \<Rightarrow> 's \<Rightarrow> u32 option \<times> 's"
    and resolve :: "nat \<Rightarrow> u32 \<Rightarrow> 's \<Rightarrow> u32 option"
    and inv :: "'s \<Rightarrow> bool"
  assumes grant_inv: "inv s \<Longrightarrow> inv (snd (grant pid ep s))"
    and grant_fresh: "inv s \<Longrightarrow> grant pid ep s = (Some c, s') \<Longrightarrow> resolve pid c s = None"
    and grant_resolve: "inv s \<Longrightarrow> grant pid ep s = (Some c, s') \<Longrightarrow>
      resolve q d s' = (if q = pid \<and> d = c then Some ep else resolve q d s)"
    and grant_refused: "inv s \<Longrightarrow> grant pid ep s = (None, s') \<Longrightarrow> s' = s"
begin

fun grants :: "(nat \<times> u32) list \<Rightarrow> 's \<Rightarrow> 's" where
  "grants [] s = s"
| "grants ((pid, ep) # gs) s = grants gs (snd (grant pid ep s))"

lemma grant_keeps:
  assumes "inv s" "resolve q d s = Some e"
  shows "resolve q d (snd (grant pid ep s)) = Some e"
proof (cases "grant pid ep s")
  case (Pair r s')
  with assms grant_fresh [OF assms(1), of pid ep] grant_resolve [OF assms(1), of pid ep]
    grant_refused [OF assms(1), of pid ep]
  show ?thesis by (cases r) auto
qed

lemma grant_only:
  assumes "inv s" "resolve q d (snd (grant pid ep s)) = Some e"
  shows "resolve q d s = Some e \<or> q = pid \<and> e = ep"
proof (cases "grant pid ep s")
  case (Pair r s')
  with assms grant_resolve [OF assms(1), of pid ep] grant_refused [OF assms(1), of pid ep]
  show ?thesis by (cases r) (auto split: if_splits)
qed

text \<open>After any sequence of grants, a process can reach exactly an endpoint it could reach before or
  was granted; and it keeps every capability it had.\<close>

lemma grants_keep: "inv s \<Longrightarrow> resolve q d s = Some e \<Longrightarrow> resolve q d (grants gs s) = Some e"
  by (induction gs arbitrary: s) (auto simp: grant_inv grant_keeps)

lemma grants_only:
  "inv s \<Longrightarrow> resolve q d (grants gs s) = Some e \<Longrightarrow> resolve q d s = Some e \<or> (q, e) \<in> set gs"
proof (induction gs arbitrary: s)
  case Nil
  then show ?case by simp
next
  case (Cons g gs)
  obtain pid ep where g: "g = (pid, ep)" by (cases g)
  with Cons.IH [of "snd (grant pid ep s)"] Cons.prems grant_inv grant_only show ?case by fastforce
qed

end

lemma cap_alloc_forE:
  assumes "sched_inv s"
  obtains (bad) "8 \<le> pid \<or> ep = 0" "cap_alloc_for pid ep s = (None, s)"
    | (full) "pid < 8" "ep \<noteq> 0" "0 \<notin> set (caps (PROCS s ! pid))" "cap_alloc_for pid ep s = (None, s)"
    | (slot) i where "pid < 8" "ep \<noteq> 0" "i < 32" "caps (PROCS s ! pid) ! i = 0"
        "\<And>j. j < i \<Longrightarrow> caps (PROCS s ! pid) ! j \<noteq> 0"
        "cap_alloc_for pid ep s = (Some (of_nat i + 1), s\<lparr>PROCS := (PROCS s)[pid :=
           (PROCS s ! pid)\<lparr>caps := (caps (PROCS s ! pid))[i := ep]\<rparr>]\<rparr>)"
proof (cases "8 \<le> pid \<or> ep = 0")
  case True
  then show thesis by (intro bad) (simp_all add: cap_alloc_for_def MAX_PROCS_def)
next
  case False
  then have p: "pid < 8" "ep \<noteq> 0" by simp_all
  show thesis
  proof (cases "find_slot (\<lambda>x. x = 0) (caps (PROCS s ! pid))")
    case None
    with p show thesis
      by (intro full) (auto simp: cap_alloc_for_def MAX_PROCS_def Let_def
          dest: find_slot_None_iff [THEN iffD1])
  next
    case (Some i)
    from find_slot_Some [OF Some] p sched_invD(4) [OF assms p(1)] Some show thesis
      by (intro slot [of i]) (auto simp: cap_alloc_for_def MAX_PROCS_def Let_def)
  qed
qed

lemma unat_cap: "i < 32 \<Longrightarrow> unat (of_nat i + 1 :: u32) = i + 1"
  by (simp add: unat_add_no_wrap unat_of_nat)

lemma cap_lookup_of_eq:
  "cap_lookup_of pid cap s = (if cap = 0 \<or> 8 \<le> pid \<or> 32 \<le> unat cap - 1
     \<or> caps (PROCS s ! pid) ! (unat cap - 1) = 0 then None
     else Some (caps (PROCS s ! pid) ! (unat cap - 1)))"
  by (simp add: cap_lookup_of_def cap_lookup_current_def MAX_PROCS_def current_pid_def Let_def)

lemma cap_number_eq:
  fixes d :: u32
  assumes "i < 32" "d \<noteq> 0"
  shows "unat d - 1 = i \<longleftrightarrow> d = of_nat i + 1"
proof -
  have "unat d \<noteq> 0" using assms(2) by (simp add: unat_eq_0)
  then have "unat d - 1 = i \<longleftrightarrow> unat d = i + 1" by linarith
  then show ?thesis by (simp only: word_unat_eq_iff unat_cap [OF assms(1)])
qed

interpretation caps: cap_space cap_alloc_for cap_lookup_of sched_inv
proof
  fix s :: "'a sched_state_scheme" and pid ep c s' q d
  assume s: "sched_inv s"
  note inv = sched_invD [OF s]
  show "sched_inv (snd (cap_alloc_for pid ep s))"
    using s by (cases rule: cap_alloc_forE [OF s, of pid ep])
      (auto simp: proc_ok_def dest: inv(3) intro!: sched_inv_update)
  show "cap_lookup_of pid c s = None" if "cap_alloc_for pid ep s = (Some c, s')"
    using that by (cases rule: cap_alloc_forE [OF s, of pid ep])
      (auto simp: cap_lookup_of_eq unat_cap)
  show "s' = s" if "cap_alloc_for pid ep s = (None, s')"
    using that by (cases rule: cap_alloc_forE [OF s, of pid ep]) auto
  show "cap_lookup_of q d s' = (if q = pid \<and> d = c then Some ep else cap_lookup_of q d s)"
    if "cap_alloc_for pid ep s = (Some c, s')"
    using s
  proof (cases rule: cap_alloc_forE [where pid = pid and ep = ep])
    case (slot i)
    with that have c: "c = of_nat i + 1" and s': "s' = s\<lparr>PROCS := (PROCS s)[pid :=
       (PROCS s ! pid)\<lparr>caps := (caps (PROCS s ! pid))[i := ep]\<rparr>]\<rparr>" by simp_all
    have "c \<noteq> 0" using unat_cap [OF slot(3)] c by (metis Suc_eq_plus1 nat.distinct(1) unat_0)
    show ?thesis
    proof (cases "q = pid \<and> d \<noteq> 0")
      case True
      with slot inv(1) inv(4) [OF slot(1)] show ?thesis
        using cap_number_eq [OF slot(3), of d] \<open>c \<noteq> 0\<close>
        by (auto simp: cap_lookup_of_eq s' c nth_list_update unat_cap)
    next
      case False
      with inv(1) \<open>c \<noteq> 0\<close> show ?thesis by (auto simp: cap_lookup_of_eq s')
    qed
  qed (use that in auto)
qed

section \<open>Properties\<close>

text \<open>A run of timer interrupts, each delivered with some frame of the process it interrupts.\<close>

fun run_ticks :: "u64 list \<Rightarrow> 'z sched_state_scheme \<Rightarrow> 'z sched_state_scheme outcome" where
  "run_ticks [] s = Inr s"
| "run_ticks (f # fs) s = and_then (on_timer_irq f s) (\<lambda>(r, s1). run_ticks fs s1)"

lemma tick_step:
  assumes "sched_inv s" "INITED s" "TICKS s \<noteq> u64_max" "f \<noteq> 0"
    "pid < 8" "ready (PROCS s ! pid)" "CURRENT s \<noteq> pid"
  obtains r s1 where "on_timer_irq f s = Inr (r, s1)" "sched_inv s1" "INITED s1"
    "TICKS s1 = TICKS s + 1" "ready (PROCS s1 ! pid)"
    "CURRENT s1 = pid \<or> hop (CURRENT s1) pid < hop (CURRENT s) pid"
proof -
  let ?t = "s\<lparr>TICKS := TICKS s + 1\<rparr>"
  from on_timer_irqE [OF assms(1-3)] obtain r s1 out where sw: "switch_from f ?t = Inr (r, s1)"
    "on_timer_irq f s = Inr (r, s1\<lparr>serial_out := out\<rparr>)" by blast
  have inv: "sched_inv ?t" using assms(1) by (simp add: sched_inv_def)
  note d = sched_invD [OF inv]
  from inv show thesis
  proof (cases rule: switch_fromE [where f = f])
    case stay
    with assms(5-7) show ?thesis by fastforce
  next
    case (switch nxt)
    with sw have s1: "s1 = enter nxt (save_frame f ?t)" by simp
    have "sched_inv s1"
      unfolding s1 using inv assms(4) switch(3) by (intro sched_inv_enter sched_inv_save)
    moreover have "ready (PROCS s1 ! pid)"
      using ready_save_frame [of pid ?t f] d(1) assms(5,6) by (simp add: s1)
    moreover have "nxt = pid \<or> hop nxt pid < hop (CURRENT s) pid"
      using hop_decreases [OF d(2) assms(5) switch(3)] switch(5) [of pid] assms(5,6) by auto
    ultimately show ?thesis
      using that [OF sw(2)] assms(2) by (auto simp: s1 sched_inv_def)
  qed
qed

lemma ticks_reach:
  assumes "sched_inv s" "INITED s" "pid < 8" "ready (PROCS s ! pid)"
    "unat (TICKS s) + length fs < 2 ^ 64" "0 \<notin> set fs" "hop (CURRENT s) pid \<le> length fs"
  shows "\<exists>k s'. k \<le> hop (CURRENT s) pid \<and> run_ticks (take k fs) s = Inr s' \<and> CURRENT s' = pid"
  using assms
proof (induction fs arbitrary: s)
  case Nil
  then show ?case by (simp add: hop_def)
next
  case (Cons f fs)
  show ?case
  proof (cases "CURRENT s = pid")
    case True
    then show ?thesis by (intro exI [of _ 0]) simp
  next
    case False
    have room: "unat (TICKS s) + 1 < 2 ^ 64" using Cons.prems(5) by simp
    have tick: "TICKS s \<noteq> u64_max"
    proof
      assume "TICKS s = u64_max"
      then have "unat (TICKS s) = 2 ^ 64 - 1"
        by (simp only: unsigned_minus_1_eq_mask) (simp add: mask_eq_exp_minus_1)
      with room show False by simp
    qed
    from tick_step [OF Cons.prems(1,2) tick _ Cons.prems(3,4) False, of f] Cons.prems(6)
    obtain r s1 where s1: "on_timer_irq f s = Inr (r, s1)" "sched_inv s1" "INITED s1"
      "TICKS s1 = TICKS s + 1" "ready (PROCS s1 ! pid)"
      "CURRENT s1 = pid \<or> hop (CURRENT s1) pid < hop (CURRENT s) pid" by auto
    show ?thesis
    proof (cases "CURRENT s1 = pid")
      case True
      then show ?thesis using s1(1) by (intro exI [of _ 1]) (simp add: hop_def)
    next
      case False
      with s1(6) have h: "hop (CURRENT s1) pid < hop (CURRENT s) pid" by simp
      have "unat (TICKS s1) + length fs < 2 ^ 64"
        using Cons.prems(5) room by (simp add: s1(4) unat_add_no_wrap)
      with Cons.IH [OF s1(2,3) Cons.prems(3) s1(5)] Cons.prems(6,7) h obtain k s' where
        "k \<le> hop (CURRENT s1) pid" "run_ticks (take k fs) s1 = Inr s'" "CURRENT s' = pid" by auto
      with s1(1) h show ?thesis by (intro exI [of _ "Suc k"]) auto
    qed
  qed
qed

text \<open>A process table with three ready processes, process 0 running.\<close>

definition demo_sched :: sched_state where
  "demo_sched = \<lparr>mem = (\<lambda>_. 0), cr3 = 0, tss_rsp0 = 0, serial_out = [], port_writes = [], PMM = None, PML4_PHYS = 0,
     KMAP_NEXT = KMAP_BASE, HEAP = LockedBump_new, INITED = True, CURRENT = 0, TICKS = 0,
     MANTRA_NEXT_CR3 = 0x1000,
     PROCS = [new_proc 0x100 0x200 0x1000, new_proc 0x300 0x400 0x2000,
       (new_proc 0x500 0x600 0x3000)\<lparr>runnable := False, blocked_ep := 1\<rparr>,
       new_proc 0x700 0x800 0x4000] @ replicate 4 empty_proc\<rparr>"

lemma demo_sched_inv: "sched_inv demo_sched"
  by (simp add: sched_inv_def demo_sched_def MAX_PROCS_def list_all_iff proc_ok_def new_proc_def
      empty_proc_def)

text \<open>C18: the scheduler is round robin. For a table of eight processes, \<open>pick_next_runnable\<close> returns
  without panicking the first ready process in the cyclic order \<open>cur + 1, ..., cur + 8\<close> (so \<open>cur\<close>
  itself comes last), and \<open>cur\<close> when no process is ready.\<close>

theorem pick_next_round_robin:
  assumes "length (PROCS s) = 8"
  shows "pick_next_runnable cur s = Inr (case find (\<lambda>i. ready (PROCS s ! i)) (cyclic cur) of
    None \<Rightarrow> cur | Some n \<Rightarrow> n)"
  by (rule pick_next_eq [OF assms])

theorem pick_next_round_robin_witness: "pick_next_runnable 1 demo_sched = Inr 3"
  using pick_next_round_robin [of demo_sched 1] sched_invD(1) [OF demo_sched_inv]
  by (simp add: cyclic_def ready_def demo_sched_def new_proc_def upt_conv_Cons)

text \<open>C19: context switching. \<open>switch_from\<close> stores the frame of the interrupted process and either
  returns 0, with nothing else changed and no other process ready, or returns the frame under which
  another, ready process was last suspended, having made that process current and set the ring-0
  stack and the address space of exactly that process. The table stays well formed.\<close>

theorem context_switch:
  assumes "sched_inv s" "f \<noteq> 0"
  shows "\<exists>r s'. switch_from f s = Inr (r, s') \<and> sched_inv s'
    \<and> PROCS s' = (PROCS s)[CURRENT s := (PROCS s ! CURRENT s)\<lparr>tf_rsp := f\<rparr>]
    \<and> (if r = 0
       then CURRENT s' = CURRENT s \<and> cr3 s' = cr3 s \<and> tss_rsp0 s' = tss_rsp0 s
         \<and> MANTRA_NEXT_CR3 s' = MANTRA_NEXT_CR3 s \<and> \<not> has_other_runnable s
       else CURRENT s' \<noteq> CURRENT s \<and> ready (PROCS s ! CURRENT s')
         \<and> r = tf_rsp (PROCS s ! CURRENT s')
         \<and> tss_rsp0 s' = kstack_top (PROCS s ! CURRENT s')
         \<and> MANTRA_NEXT_CR3 s' = p_cr3 (PROCS s ! CURRENT s'))"
  using assms(1)
proof (cases rule: switch_fromE [where f = f])
  case stay
  with sched_invD(1) [OF assms(1)] have "\<not> has_other_runnable s"
    by (auto simp: has_other_runnable_def current_pid_def list_ex_iff in_set_enumerate_eq)
  with stay sched_inv_save [OF assms] show ?thesis by (simp add: save_frame_def)
next
  case (switch nxt)
  have "tf_rsp (PROCS s ! nxt) \<noteq> 0"
    using sched_invD(3) [OF assms(1) switch(3)] switch(4) by (simp add: proc_ok_def ready_def)
  with switch sched_inv_enter [OF sched_inv_save [OF assms] switch(3)] show ?thesis
    by (simp add: save_frame_def enter_def)
qed

theorem context_switch_witness:
  "\<exists>r s'. switch_from 0x180 demo_sched = Inr (r, s') \<and> sched_inv s' \<and> r = 0x300 \<and> CURRENT s' = 1
    \<and> MANTRA_NEXT_CR3 s' = 0x2000 \<and> tss_rsp0 s' = 0x400"
proof -
  have "case switch_from 0x180 demo_sched of Inr (r, s') \<Rightarrow> r = 0x300 \<and> CURRENT s' = 1 | _ \<Rightarrow> False"
    by code_simp
  with context_switch [of demo_sched "0x180", OF demo_sched_inv] show ?thesis
    by (auto simp: demo_sched_def new_proc_def)
qed

text \<open>C20: no ready process starves. From any well-formed state, whatever frames the timer interrupts
  bring, each of the eight processes that is ready becomes the current one after at most as many
  ticks as it is places ahead in the cyclic order, hence within eight ticks.\<close>

theorem timer_fair:
  assumes "sched_inv s" "INITED s" "pid < 8" "ready (PROCS s ! pid)"
    "length fs = 8" "0 \<notin> set fs" "unat (TICKS s) + 8 < 2 ^ 64"
  shows "\<exists>k s'. k \<le> hop (CURRENT s) pid \<and> k \<le> 8
    \<and> run_ticks (take k fs) s = Inr s' \<and> CURRENT s' = pid"
proof -
  have "hop (CURRENT s) pid \<le> 8" by (simp add: hop_def Suc_le_eq)
  with ticks_reach [OF assms(1-4), of fs] assms(5-7) show ?thesis by fastforce
qed

theorem timer_fair_witness:
  "\<exists>k s'. k \<le> 3 \<and> run_ticks (take k [1, 2, 3, 4, 5, 6, 7, 8]) demo_sched = Inr s' \<and> CURRENT s' = 3"
  using timer_fair [OF demo_sched_inv, of 3 "[1, 2, 3, 4, 5, 6, 7, 8]"]
  by (auto simp: demo_sched_def new_proc_def ready_def hop_def)

text \<open>C21: granting a capability. \<open>cap_alloc_for\<close> hands out a number between 1 and 32 that resolved to
  nothing before and now resolves to the endpoint, for that process alone; every other capability of
  every process resolves as before. It is refused, with the state unchanged, only for a bad process
  number, the null endpoint, or a full table.\<close>

theorem cap_grant_exact:
  assumes "sched_inv s"
  shows "case cap_alloc_for pid ep s of
      (Some c, s') \<Rightarrow> 1 \<le> c \<and> c \<le> 32 \<and> cap_lookup_of pid c s = None \<and> sched_inv s'
        \<and> (\<forall>q d. cap_lookup_of q d s' = (if q = pid \<and> d = c then Some ep else cap_lookup_of q d s))
    | (None, s') \<Rightarrow> s' = s \<and> (8 \<le> pid \<or> ep = 0 \<or> 0 \<notin> set (caps (PROCS s ! pid)))"
proof (cases "cap_alloc_for pid ep s")
  case (Pair r s')
  show ?thesis
  proof (cases r)
    case None
    from assms Pair None show ?thesis
      by (cases rule: cap_alloc_forE [where pid = pid and ep = ep]) auto
  next
    case (Some c)
    from assms Pair Some obtain i where "c = of_nat i + 1" "i < 32"
      by (cases rule: cap_alloc_forE [where pid = pid and ep = ep]) auto
    then have "1 \<le> c" "c \<le> 32" using unat_cap [of i] by (simp_all add: word_le_nat_alt)
    with Pair Some caps.grant_inv [OF assms, of pid ep] caps.grant_fresh [OF assms, of pid ep]
      caps.grant_resolve [OF assms, of pid ep] show ?thesis by auto
  qed
qed

theorem cap_grant_exact_witness:
  "\<exists>s'. cap_alloc_for 1 7 demo_sched = (Some 1, s') \<and> cap_lookup_of 1 1 s' = Some 7
    \<and> cap_lookup_of 0 1 s' = None"
proof -
  have a: "fst (cap_alloc_for 1 7 demo_sched) = Some 1" by code_simp
  have b: "cap_lookup_of 0 1 demo_sched = None" by code_simp
  from cap_grant_exact [OF demo_sched_inv, of 1 7] a b show ?thesis
    by (cases "cap_alloc_for 1 7 demo_sched") auto
qed

text \<open>Spawning. \<open>spawn_proc\<close> uses the first dead slot of the table for a ready process with no
  capabilities and leaves every other process and the current one alone; it fails, changing nothing,
  exactly when all eight processes are alive.\<close>

theorem spawn_first_dead:
  assumes "sched_inv s" "tf \<noteq> 0"
  shows "case spawn_proc tf kst root s of
      (Some pid, s') \<Rightarrow> pid < 8 \<and> \<not> alive (PROCS s ! pid) \<and> list_all alive (take pid (PROCS s))
        \<and> s' = s\<lparr>PROCS := (PROCS s)[pid := new_proc tf kst root]\<rparr> \<and> sched_inv s'
        \<and> (\<forall>cap. cap_lookup_of pid cap s' = None)
    | (None, s') \<Rightarrow> s' = s \<and> list_all alive (PROCS s)"
proof (cases "find_slot (\<lambda>p. \<not> alive p) (PROCS s)")
  case None
  then have "list_all alive (PROCS s)" by (simp add: find_slot_None_iff list_all_iff)
  with None show ?thesis by (simp add: spawn_proc_def)
next
  case (Some pid)
  let ?s' = "s\<lparr>PROCS := (PROCS s)[pid := new_proc tf kst root]\<rparr>"
  from find_slot_Some [OF Some] sched_invD(1) [OF assms(1)] have
    pid: "pid < 8" "\<not> alive (PROCS s ! pid)" "list_all alive (take pid (PROCS s))"
    by (auto simp: list_all_length)
  have "sched_inv ?s'" using assms by (intro sched_inv_update) (simp_all add: proc_ok_new)
  moreover have "cap_lookup_of pid cap ?s' = None" for cap
    using pid(1) sched_invD(1) [OF assms(1)] nth_replicate [of "unat cap - 1" 32 "0 :: u32"]
    by (cases "unat cap - 1 < 32") (simp_all add: cap_lookup_of_eq new_proc_def)
  ultimately show ?thesis using Some pid by (simp add: spawn_proc_def)
qed

theorem spawn_first_dead_witness:
  "\<exists>s'. spawn_proc 0x900 0xA00 0x5000 demo_sched = (Some 4, s') \<and> sched_inv s'"
proof -
  have a: "fst (spawn_proc 0x900 0xA00 0x5000 demo_sched) = Some 4" by code_simp
  from spawn_first_dead [OF demo_sched_inv, of "0x900" "0xA00" "0x5000"] a show ?thesis
    by (cases "spawn_proc 0x900 0xA00 0x5000 demo_sched") auto
qed

end
