(* ===== verification/Ring.thy ===== *)
theory Ring
  imports Rust_Prelude
begin

text \<open>
  Rings with free-running counters, and the contract of a first-in first-out queue. The endpoints of
  \<^verbatim>\<open>kernel/src/ipc.rs\<close> hold two such rings, one of messages and one of waiting processes; the locale
  \<open>fifo\<close> is interpreted on both.
\<close>

section \<open>Contents of a ring\<close>

definition ring_list :: "nat \<Rightarrow> 'a list \<Rightarrow> nat \<Rightarrow> nat \<Rightarrow> 'a list" where
  "ring_list n buf h t = map (\<lambda>i. buf ! (i mod n)) [h..<t]"

lemma ring_list_empty [simp]: "t \<le> h \<Longrightarrow> ring_list n buf h t = []"
  by (simp add: ring_list_def)

lemma length_ring_list [simp]: "length (ring_list n buf h t) = t - h"
  by (simp add: ring_list_def)

lemma ring_list_pop: "h < t \<Longrightarrow> ring_list n buf h t = buf ! (h mod n) # ring_list n buf (Suc h) t"
  by (simp add: ring_list_def upt_conv_Cons)

lemma slots_differ:
  assumes "h \<le> i" "i < t" "t < h + n"
  shows "i mod n \<noteq> t mod (n :: nat)"
proof
  assume "i mod n = t mod n"
  then have "n dvd t - i" using assms(2) by (metis less_imp_le mod_eq_dvd_iff_nat)
  then have "n \<le> t - i" using assms(2) by (intro dvd_imp_le) auto
  with assms show False by simp
qed

lemma ring_list_push:
  assumes "h \<le> t" "t < h + n" "length buf = n"
  shows "ring_list n (buf[t mod n := x]) h (Suc t) = ring_list n buf h t @ [x]"
proof -
  have "0 < n" using assms by simp
  then have "t mod n < length buf" using assms(3) by simp
  moreover have "buf[t mod n := x] ! (i mod n) = buf ! (i mod n)" if "h \<le> i" "i < t" for i
    using slots_differ [OF that assms(2)] by (metis nth_list_update_neq)
  ultimately show ?thesis using assms(1) by (simp add: ring_list_def)
qed

text \<open>Pushing onto a ring that already holds \<open>n\<close> entries replaces the oldest one.\<close>

lemma ring_list_overwrite:
  assumes "t = h + n" "length buf = n" "0 < n"
  shows "ring_list n (buf[t mod n := x]) h (Suc t) = x # tl (ring_list n buf h t) @ [x]"
proof -
  have hd: "h mod n < n" "t mod n = h mod n" using assms by simp_all
  have "ring_list n (buf[t mod n := x]) (Suc h) (Suc t) = ring_list n buf (Suc h) t @ [x]"
    using assms by (intro ring_list_push) simp_all
  moreover have "ring_list n (buf[t mod n := x]) h (Suc t)
      = x # ring_list n (buf[t mod n := x]) (Suc h) (Suc t)"
    using assms hd by (subst ring_list_pop) simp_all
  moreover have "tl (ring_list n buf h t) = ring_list n buf (Suc h) t"
    using assms by (subst ring_list_pop) simp_all
  ultimately show ?thesis by simp
qed

section \<open>First in, first out\<close>

datatype 'a op = Push 'a | Pop

text \<open>A run of operations; the accepted and the delivered items are collected in order. A push is
  attempted only while \<open>room\<close> holds.\<close>

fun run_ops ::
  "('a \<Rightarrow> 'q \<Rightarrow> (bool \<times> 'q) outcome) \<Rightarrow> ('q \<Rightarrow> ('a option \<times> 'q) outcome) \<Rightarrow> ('q \<Rightarrow> bool)
     \<Rightarrow> 'a op list \<Rightarrow> 'q \<Rightarrow> ('a list \<times> 'a list \<times> 'q) outcome" where
  "run_ops push pop room [] q = Inr ([], [], q)"
| "run_ops push pop room (Push a # ops) q =
     (if \<not> room q then run_ops push pop room ops q
      else and_then (push a q) (\<lambda>(ok, q1).
        and_then (run_ops push pop room ops q1) (\<lambda>(sent, got, q2).
          Inr (if ok then a # sent else sent, got, q2))))"
| "run_ops push pop room (Pop # ops) q =
     and_then (pop q) (\<lambda>(r, q1).
       and_then (run_ops push pop room ops q1) (\<lambda>(sent, got, q2).
         Inr (sent, case r of None \<Rightarrow> got | Some a \<Rightarrow> a # got, q2)))"

locale fifo =
  fixes push :: "'a \<Rightarrow> 'q \<Rightarrow> (bool \<times> 'q) outcome"
    and pop :: "'q \<Rightarrow> ('a option \<times> 'q) outcome"
    and inv :: "'q \<Rightarrow> bool"
    and room :: "'q \<Rightarrow> bool"
    and contents :: "'q \<Rightarrow> 'a list"
    and item :: "'a \<Rightarrow> bool"
  assumes push_law: "inv q \<Longrightarrow> room q \<Longrightarrow> item a \<Longrightarrow> \<exists>ok q'. push a q = Inr (ok, q') \<and> inv q'
      \<and> (if ok then contents q' = contents q @ [a] else q' = q)"
    and pop_law: "inv q \<Longrightarrow> \<exists>r q'. pop q = Inr (r, q') \<and> inv q'
      \<and> (case r of None \<Rightarrow> contents q = [] \<and> q' = q | Some a \<Rightarrow> contents q = a # contents q')"
begin

text \<open>What was in the queue followed by what was accepted is what was delivered followed by what is
  left: nothing is lost, duplicated or reordered.\<close>

lemma run_ops_fifo:
  assumes "inv q" "\<forall>a. Push a \<in> set ops \<longrightarrow> item a"
  shows "\<exists>sent got q'. run_ops push pop room ops q = Inr (sent, got, q') \<and> inv q'
    \<and> contents q @ sent = got @ contents q'"
  using assms
proof (induction ops arbitrary: q)
  case Nil
  then show ?case by simp
next
  case (Cons x ops)
  show ?case
  proof (cases x)
    case (Push a)
    show ?thesis
    proof (cases "room q")
      case True
      from push_law [OF Cons.prems(1) True, of a] Push Cons.prems(2) obtain ok q1 where
        q1: "push a q = Inr (ok, q1)" "inv q1" "if ok then contents q1 = contents q @ [a] else q1 = q"
        by auto
      from Cons.IH [OF q1(2)] Cons.prems(2) obtain sent got q2 where
        "run_ops push pop room ops q1 = Inr (sent, got, q2)" "inv q2"
        "contents q1 @ sent = got @ contents q2" by auto
      with q1 Push True show ?thesis by (cases ok) simp_all
    next
      case False
      with Cons Push show ?thesis by simp
    qed
  next
    case Pop
    from pop_law [OF Cons.prems(1)] obtain r q1 where
      q1: "pop q = Inr (r, q1)" "inv q1"
      "case r of None \<Rightarrow> contents q = [] \<and> q1 = q | Some a \<Rightarrow> contents q = a # contents q1" by blast
    from Cons.IH [OF q1(2)] Cons.prems(2) obtain sent got q2 where
      "run_ops push pop room ops q1 = Inr (sent, got, q2)" "inv q2"
      "contents q1 @ sent = got @ contents q2" by auto
    with q1 Pop show ?thesis by (cases r) simp_all
  qed
qed

end

end
