(* ===== verification/Ipc.thy ===== *)
theory Ipc
  imports Sched Ring
begin

text \<open>
  Message passing, \<^verbatim>\<open>kernel/src/ipc.rs\<close>: 32 endpoints, each with a ring of 32 messages and a ring of
  8 waiting processes. Head and tail are free-running counters; slots are counters modulo the ring
  size, while the test for a full ring compares the reduced tail with the counter \<open>head\<close> itself.
\<close>

section \<open>State and operations\<close>

definition MAX_ENDPOINTS :: nat where
  "MAX_ENDPOINTS = 32"

definition MAX_MSG :: nat where
  "MAX_MSG = 256"

definition Q_LEN :: nat where
  "Q_LEN = 32"

definition MAX_WAITERS :: nat where
  "MAX_WAITERS = 8"

record Msg =
  m_len :: u16
  xfer_ep :: u32
  m_data :: "u8 list"

definition EMPTY_MSG :: Msg where
  "EMPTY_MSG = \<lparr>m_len = 0, xfer_ep = 0, m_data = replicate MAX_MSG 0\<rparr>"

record Endpoint =
  q_head :: usize
  q_tail :: usize
  q_buf :: "Msg list"
  wait_head :: usize
  wait_tail :: usize
  waiters :: "u8 list"

definition empty_endpoint :: Endpoint where
  "empty_endpoint = \<lparr>q_head = 0, q_tail = 0, q_buf = replicate Q_LEN EMPTY_MSG, wait_head = 0,
     wait_tail = 0, waiters = replicate MAX_WAITERS 0\<rparr>"

record ipc_state = sched_state +
  ENDPOINTS :: "Endpoint list"
  NEXT_EP :: usize

definition slot :: "usize \<Rightarrow> nat \<Rightarrow> nat" where
  "slot i n = nat (uint i mod int n)"

text \<open>Numbers of the error returns.\<close>

abbreviation E_INVAL :: u64 where
  "E_INVAL \<equiv> u64_max"

abbreviation E_FULL :: u64 where
  "E_FULL \<equiv> u64_max - 1"

abbreviation E_EMPTY :: u64 where
  "E_EMPTY \<equiv> u64_max - 2"

definition endpoint_alloc :: "'z ipc_state_scheme \<Rightarrow> u32 option \<times> 'z ipc_state_scheme" where
  "endpoint_alloc s =
     (let i = NEXT_EP s; s1 = s\<lparr>NEXT_EP := NEXT_EP s + 1\<rparr> in
      if of_nat MAX_ENDPOINTS \<le> i then (None, s1) else (Some (ucast i + 1), s1))"

definition ep_create :: "'z ipc_state_scheme \<Rightarrow> u64 \<times> 'z ipc_state_scheme" where
  "ep_create s =
     (case endpoint_alloc s of
        (None, s1) \<Rightarrow> (E_INVAL, s1)
      | (Some ep, s1) \<Rightarrow>
          (case cap_alloc_current ep s1 of
             (None, s2) \<Rightarrow> (E_INVAL, s2)
           | (Some cap, s2) \<Rightarrow> (ucast cap, s2)))"

definition ep_update :: "nat \<Rightarrow> Endpoint \<Rightarrow> 'z ipc_state_scheme \<Rightarrow> 'z ipc_state_scheme" where
  "ep_update epi ep s = s\<lparr>ENDPOINTS := (ENDPOINTS s)[epi := ep]\<rparr>"

text \<open>The part of \<open>waiter_push\<close> and \<open>waiter_pop\<close> that works on one endpoint.\<close>

definition ep_waiter_push :: "nat \<Rightarrow> Endpoint \<Rightarrow> (bool \<times> Endpoint) outcome" where
  "ep_waiter_push pid ep =
     (let head = wait_head ep; tail = wait_tail ep in
      if (tail + 1) mod of_nat MAX_WAITERS = head then Inr (False, ep)
      else and_then (aset (waiters ep) (slot tail MAX_WAITERS) (of_nat pid)) (\<lambda>ws.
        Inr (True, ep\<lparr>waiters := ws, wait_tail := tail + 1\<rparr>)))"

definition ep_waiter_pop :: "Endpoint \<Rightarrow> (nat option \<times> Endpoint) outcome" where
  "ep_waiter_pop ep =
     (let head = wait_head ep; tail = wait_tail ep in
      if head = tail then Inr (None, ep)
      else and_then (aget (waiters ep) (slot head MAX_WAITERS)) (\<lambda>pid.
        Inr (Some (unat pid), ep\<lparr>wait_head := head + 1\<rparr>)))"

definition waiter_push ::
  "u32 \<Rightarrow> nat \<Rightarrow> 'z ipc_state_scheme \<Rightarrow> (bool \<times> 'z ipc_state_scheme) outcome" where
  "waiter_push endpoint_id pid s =
     (if endpoint_id = 0 \<or> 255 < pid then Inr (False, s)
      else let epi = unat endpoint_id - 1 in
        if MAX_ENDPOINTS \<le> epi then Inr (False, s)
        else and_then (aget (ENDPOINTS s) epi) (\<lambda>ep.
          and_then (ep_waiter_push pid ep) (\<lambda>(ok, ep'). Inr (ok, ep_update epi ep' s))))"

definition waiter_pop ::
  "u32 \<Rightarrow> 'z ipc_state_scheme \<Rightarrow> (nat option \<times> 'z ipc_state_scheme) outcome" where
  "waiter_pop endpoint_id s =
     (if endpoint_id = 0 then Inr (None, s)
      else let epi = unat endpoint_id - 1 in
        if MAX_ENDPOINTS \<le> epi then Inr (None, s)
        else and_then (aget (ENDPOINTS s) epi) (\<lambda>ep.
          and_then (ep_waiter_pop ep) (\<lambda>(r, ep'). Inr (r, ep_update epi ep' s))))"

text \<open>\<open>dst[..n].copy_from_slice(&src[..n])\<close>: both slices must have \<open>n\<close> elements.\<close>

definition copy_prefix :: "nat \<Rightarrow> 'a list \<Rightarrow> 'a list \<Rightarrow> 'a list outcome" where
  "copy_prefix n dst src =
     (if n \<le> length dst \<and> n \<le> length src then Inr (take n src @ drop n dst)
      else Inl SliceOutOfRange)"

definition ep_push_msg :: "u8 list \<Rightarrow> u32 \<Rightarrow> Endpoint \<Rightarrow> (u64 \<times> Endpoint) outcome" where
  "ep_push_msg msg xfer ep =
     (let n = min (length msg) MAX_MSG; head = q_head ep; tail = q_tail ep in
      if (tail + 1) mod of_nat Q_LEN = head then Inr (E_FULL, ep)
      else let sl = slot tail Q_LEN in
        and_then (aget (q_buf ep) sl) (\<lambda>m.
        and_then (copy_prefix n (m_data m) msg) (\<lambda>d.
        Inr (of_nat n, ep\<lparr>q_buf := (q_buf ep)[sl := \<lparr>m_len = of_nat n, xfer_ep = xfer, m_data = d\<rparr>],
                          q_tail := tail + 1\<rparr>))))"

definition ep_pop_msg :: "u8 list \<Rightarrow> Endpoint \<Rightarrow> (u64 \<times> u32 \<times> u8 list \<times> Endpoint) outcome" where
  "ep_pop_msg out ep =
     (let head = q_head ep; tail = q_tail ep in
      if head = tail then Inr (E_EMPTY, 0, out, ep)
      else and_then (aget (q_buf ep) (slot head Q_LEN)) (\<lambda>m.
        let n = min (unat (m_len m)) (length out) in
        and_then (copy_prefix n out (m_data m)) (\<lambda>out'.
        Inr (of_nat n, xfer_ep m, out', ep\<lparr>q_head := head + 1\<rparr>))))"

definition ep_send_cap ::
  "u32 \<Rightarrow> u8 list \<Rightarrow> u32 \<Rightarrow> 'z ipc_state_scheme \<Rightarrow> (u64 \<times> 'z ipc_state_scheme) outcome" where
  "ep_send_cap cap msg xfer s =
     (case cap_lookup_current cap s of
        None \<Rightarrow> Inr (E_INVAL, s)
      | Some e \<Rightarrow>
          let epi = unat e - 1 in
          if MAX_ENDPOINTS \<le> epi then Inr (E_INVAL, s)
          else and_then (aget (ENDPOINTS s) epi) (\<lambda>ep.
            and_then (ep_push_msg msg xfer ep) (\<lambda>(r, ep'). Inr (r, ep_update epi ep' s))))"

definition ep_send ::
  "u32 \<Rightarrow> u8 list \<Rightarrow> 'z ipc_state_scheme \<Rightarrow> (u64 \<times> 'z ipc_state_scheme) outcome" where
  "ep_send cap msg s = ep_send_cap cap msg 0 s"

text \<open>The receive buffer \<open>out\<close> is returned with the result.\<close>

definition ep_recv_cap ::
  "u32 \<Rightarrow> u8 list \<Rightarrow> 'z ipc_state_scheme \<Rightarrow> (u64 \<times> u32 \<times> u8 list \<times> 'z ipc_state_scheme) outcome" where
  "ep_recv_cap cap out s =
     (case cap_lookup_current cap s of
        None \<Rightarrow> Inr (E_INVAL, 0, out, s)
      | Some e \<Rightarrow>
          let epi = unat e - 1 in
          if MAX_ENDPOINTS \<le> epi then Inr (E_INVAL, 0, out, s)
          else and_then (aget (ENDPOINTS s) epi) (\<lambda>ep.
            and_then (ep_pop_msg out ep) (\<lambda>(n, x, out', ep').
            Inr (n, x, out', ep_update epi ep' s))))"

definition ep_recv ::
  "u32 \<Rightarrow> u8 list \<Rightarrow> 'z ipc_state_scheme \<Rightarrow> (u64 \<times> u8 list \<times> 'z ipc_state_scheme) outcome" where
  "ep_recv cap out s =
     and_then (ep_recv_cap cap out s) (\<lambda>(n, x, out', s'). Inr (n, out', s'))"

section \<open>The message ring\<close>

definition msg_ok :: "Msg \<Rightarrow> bool" where
  "msg_ok m \<longleftrightarrow> length (m_data m) = 256 \<and> unat (m_len m) \<le> 256"

text \<open>\<open>q_wf\<close> holds in every reachable state; \<open>q_inv\<close> adds that the ring has not overflowed.\<close>

definition q_wf :: "Endpoint \<Rightarrow> bool" where
  "q_wf ep \<longleftrightarrow> length (q_buf ep) = 32 \<and> list_all msg_ok (q_buf ep)
     \<and> unat (q_head ep) \<le> unat (q_tail ep)"

definition q_inv :: "Endpoint \<Rightarrow> bool" where
  "q_inv ep \<longleftrightarrow> q_wf ep \<and> unat (q_tail ep) \<le> unat (q_head ep) + 32"

text \<open>A message as the receiver sees it: its bytes and the endpoint transferred with it.\<close>

definition payload :: "Msg \<Rightarrow> u8 list \<times> u32" where
  "payload m = (take (unat (m_len m)) (m_data m), xfer_ep m)"

definition q_ring :: "Endpoint \<Rightarrow> Msg list" where
  "q_ring ep = ring_list 32 (q_buf ep) (unat (q_head ep)) (unat (q_tail ep))"

definition q_contents :: "Endpoint \<Rightarrow> (u8 list \<times> u32) list" where
  "q_contents ep = map payload (q_ring ep)"

definition q_room :: "Endpoint \<Rightarrow> bool" where
  "q_room ep \<longleftrightarrow> unat (q_tail ep) < unat (q_head ep) + 32 \<and> unat (q_tail ep) + 1 < 2 ^ 64"

lemma slot_nat: "slot i n = unat i mod n"
  by (simp only: slot_def uint_nat of_nat_mod [symmetric] nat_int)

lemma ring_full_test:
  fixes h t :: usize
  assumes "unat t + 1 < 2 ^ 64" "n < 2 ^ 64" "0 < n"
  shows "(t + 1) mod of_nat n = h \<longleftrightarrow> (unat t + 1) mod n = unat h"
proof -
  have "unat (of_nat n :: usize) = n" using assms(2) by (simp add: unat_of_nat)
  then have "unat ((t + 1) mod of_nat n) = (unat t + 1) mod n"
    using assms(1) by (simp add: unat_mod unat_add_no_wrap)
  then show ?thesis by (simp add: word_unat_eq_iff)
qed

text \<open>Comparing the reduced tail with the counter \<open>head\<close> detects a full ring only while \<open>head\<close> is
  itself below the ring size.\<close>

lemma ring_full_iff:
  assumes "h \<le> t" "t < h + n" "0 < (n :: nat)"
  shows "(t + 1) mod n = h \<longleftrightarrow> h < n \<and> t + 1 = h + n"
proof
  assume eq: "(t + 1) mod n = h"
  then have h: "h < n" using assms(3) by (metis mod_less_divisor)
  show "h < n \<and> t + 1 = h + n"
  proof (cases "t + 1 < n")
    case True
    with eq assms(1) show ?thesis by simp
  next
    case False
    then obtain r where r: "t + 1 = n + r" by (metis le_Suc_ex not_le)
    with assms(2) h have "r \<le> h" by simp
    with r eq h show ?thesis by simp
  qed
qed simp

definition stored :: "u8 list \<Rightarrow> u32 \<Rightarrow> Msg \<Rightarrow> Msg" where
  "stored msg x m = \<lparr>m_len = of_nat (min (length msg) 256), xfer_ep = x,
     m_data = take 256 msg @ drop (min (length msg) 256) (m_data m)\<rparr>"

lemma unat_msg_len: "unat (of_nat (min k 256) :: u16) = min k 256"
  by (simp add: unat_of_nat)

lemma payload_stored: "payload (stored msg x m) = (take 256 msg, x)"
  unfolding payload_def stored_def Msg.select_convs unat_msg_len by (simp add: min_def)

lemma msg_ok_stored: "msg_ok m \<Longrightarrow> msg_ok (stored msg x m)"
  by (simp add: msg_ok_def stored_def unat_msg_len)

text \<open>The state after an accepted message.\<close>

definition push_result :: "u8 list \<Rightarrow> u32 \<Rightarrow> Endpoint \<Rightarrow> Endpoint" where
  "push_result msg x ep = ep\<lparr>q_buf := (q_buf ep)[unat (q_tail ep) mod 32 :=
     stored msg x (q_buf ep ! (unat (q_tail ep) mod 32))], q_tail := q_tail ep + 1\<rparr>"

lemma ep_push_msg_eq:
  assumes "q_wf ep"
  shows "ep_push_msg msg x ep = (if (q_tail ep + 1) mod 32 = q_head ep then Inr (E_FULL, ep)
    else Inr (of_nat (min (length msg) 256), push_result msg x ep))"
proof -
  have len: "unat (q_tail ep) mod 32 < length (q_buf ep)" using assms by (simp add: q_wf_def)
  then have "length (m_data (q_buf ep ! (unat (q_tail ep) mod 32))) = 256"
    using assms by (auto simp: q_wf_def msg_ok_def list_all_length)
  then have "copy_prefix (min (length msg) 256) (m_data (q_buf ep ! (unat (q_tail ep) mod 32))) msg
      = Inr (m_data (stored msg x (q_buf ep ! (unat (q_tail ep) mod 32))))"
    by (simp add: copy_prefix_def stored_def min_def)
  with len show ?thesis
    by (simp add: ep_push_msg_def Let_def Q_LEN_def MAX_MSG_def slot_nat push_result_def stored_def
        del: of_nat_min)
qed

lemma push_result_simps [simp]:
  "q_head (push_result msg x ep) = q_head ep" "q_tail (push_result msg x ep) = q_tail ep + 1"
  "wait_head (push_result msg x ep) = wait_head ep" "wait_tail (push_result msg x ep) = wait_tail ep"
  "waiters (push_result msg x ep) = waiters ep"
  by (simp_all add: push_result_def)

lemma q_wf_push:
  assumes "q_wf ep" "unat (q_tail ep) + 1 < 2 ^ 64"
  shows "q_wf (push_result msg x ep)"
proof -
  let ?t = "unat (q_tail ep)"
  have len: "?t mod 32 < length (q_buf ep)" using assms(1) by (simp add: q_wf_def)
  have "list_all msg_ok ((q_buf ep)[?t mod 32 := stored msg x (q_buf ep ! (?t mod 32))])"
    using assms(1) len by (intro list_all_update msg_ok_stored) (auto simp: q_wf_def list_all_length)
  with assms show ?thesis by (simp add: q_wf_def push_result_def unat_add_no_wrap)
qed

lemma push_result_ring:
  assumes "q_inv ep" "q_room ep"
  shows "q_inv (push_result msg x ep)"
    "q_contents (push_result msg x ep) = q_contents ep @ [(take 256 msg, x)]"
proof -
  let ?t = "unat (q_tail ep)"
  have t: "unat (q_tail ep + 1) = Suc ?t" using assms(2) by (simp add: q_room_def unat_add_no_wrap)
  have len: "length (q_buf ep) = 32" "?t mod 32 < length (q_buf ep)"
    using assms(1) by (simp_all add: q_inv_def q_wf_def)
  show "q_inv (push_result msg x ep)"
    using assms t q_wf_push [of ep msg x] by (simp add: q_inv_def q_room_def)
  show "q_contents (push_result msg x ep) = q_contents ep @ [(take 256 msg, x)]"
    using assms len
    by (simp add: q_contents_def q_ring_def push_result_def t ring_list_push q_inv_def q_wf_def
        q_room_def payload_stored)
qed

lemma ep_pop_msg_eq:
  assumes "q_wf ep" "length out \<le> 256"
  shows "ep_pop_msg out ep = (case q_contents ep of
      [] \<Rightarrow> Inr (E_EMPTY, 0, out, ep)
    | (d, x) # rest \<Rightarrow> Inr (of_nat (min (length d) (length out)), x,
        take (length out) d @ drop (length d) out, ep\<lparr>q_head := q_head ep + 1\<rparr>))"
proof (cases "q_head ep = q_tail ep")
  case True
  then show ?thesis by (simp add: ep_pop_msg_def Let_def q_contents_def q_ring_def)
next
  case False
  let ?h = "unat (q_head ep)"
  from False assms(1) have lt: "?h < unat (q_tail ep)"
    by (auto simp: q_wf_def word_unat_eq_iff le_neq_implies_less)
  define m where "m = q_buf ep ! (?h mod 32)"
  have in_buf: "?h mod 32 < length (q_buf ep)" using assms(1) by (simp add: q_wf_def)
  then have m: "length (m_data m) = 256" "unat (m_len m) \<le> 256"
    using assms(1) by (auto simp: q_wf_def msg_ok_def m_def list_all_length)
  have "copy_prefix (min (unat (m_len m)) (length out)) out (m_data m)
      = Inr (take (length out) (take (unat (m_len m)) (m_data m)) @ drop (unat (m_len m)) out)"
    using m by (auto simp: copy_prefix_def min_def take_all)
  with False in_buf lt m show ?thesis
    by (simp add: ep_pop_msg_def Let_def Q_LEN_def slot_nat q_contents_def q_ring_def ring_list_pop
        payload_def m_def [symmetric] min.absorb1)
qed

lemma q_contents_bound: "q_wf ep \<Longrightarrow> m \<in> set (q_contents ep) \<Longrightarrow> length (fst m) \<le> 256"
  by (auto simp: q_wf_def q_contents_def q_ring_def ring_list_def payload_def msg_ok_def
      list_all_length min_le_iff_disj)

lemma pop_contents:
  assumes "q_wf ep" "q_contents ep = m # rest"
  shows "q_wf (ep\<lparr>q_head := q_head ep + 1\<rparr>)" "q_contents (ep\<lparr>q_head := q_head ep + 1\<rparr>) = rest"
    "unat (q_head ep + 1) = Suc (unat (q_head ep))"
proof -
  have lt: "unat (q_head ep) < unat (q_tail ep)"
    using arg_cong [OF assms(2), of length] by (simp add: q_contents_def q_ring_def)
  then show h: "unat (q_head ep + 1) = Suc (unat (q_head ep))"
    using unat_u64_lt [of "q_tail ep"] by (simp add: unat_add_no_wrap)
  with lt assms(1) show "q_wf (ep\<lparr>q_head := q_head ep + 1\<rparr>)" by (simp add: q_wf_def)
  show "q_contents (ep\<lparr>q_head := q_head ep + 1\<rparr>) = rest"
    using assms(2) lt by (simp add: q_contents_def q_ring_def h ring_list_pop)
qed

lemma q_inv_pop: "q_inv ep \<Longrightarrow> q_contents ep = m # rest \<Longrightarrow> q_inv (ep\<lparr>q_head := q_head ep + 1\<rparr>)"
  using pop_contents [of ep m rest] by (simp add: q_inv_def)

lemma q_inv_wf [simp]: "q_inv ep \<Longrightarrow> q_wf ep"
  by (simp add: q_inv_def)

text \<open>Sending and receiving whole messages, as queue operations.\<close>

definition msg_push :: "u8 list \<times> u32 \<Rightarrow> Endpoint \<Rightarrow> (bool \<times> Endpoint) outcome" where
  "msg_push m ep = and_then (ep_push_msg (fst m) (snd m) ep) (\<lambda>(r, ep'). Inr (r \<noteq> E_FULL, ep'))"

definition msg_pop :: "Endpoint \<Rightarrow> ((u8 list \<times> u32) option \<times> Endpoint) outcome" where
  "msg_pop ep = and_then (ep_pop_msg (replicate 256 0) ep) (\<lambda>(n, x, out, ep').
     Inr (if n = E_EMPTY then None else Some (take (unat n) out, x), ep'))"

lemma small_not_error:
  assumes "n \<le> 256"
  shows "(of_nat n :: u64) \<noteq> E_FULL" "(of_nat n :: u64) \<noteq> E_EMPTY" "(of_nat n :: u64) \<noteq> E_INVAL"
    "unat (of_nat n :: u64) = n"
proof -
  show n: "unat (of_nat n :: u64) = n" using assms by (simp add: unat_of_nat)
  have "unat E_FULL = 2 ^ 64 - 2" "unat E_EMPTY = 2 ^ 64 - 3" "unat E_INVAL = 2 ^ 64 - 1"
    by (simp_all add: unsigned_minus_1_eq_mask mask_eq_exp_minus_1 unat_sub_if')
  with n assms show "(of_nat n :: u64) \<noteq> E_FULL" "(of_nat n :: u64) \<noteq> E_EMPTY"
    "(of_nat n :: u64) \<noteq> E_INVAL" by (auto simp: word_unat_eq_iff)
qed

interpretation msgs: fifo msg_push msg_pop q_inv q_room q_contents "\<lambda>m. length (fst m) \<le> 256"
proof
  fix ep :: Endpoint and m :: "u8 list \<times> u32"
  assume inv: "q_inv ep"
  show "\<exists>ok ep'. msg_push m ep = Inr (ok, ep') \<and> q_inv ep'
      \<and> (if ok then q_contents ep' = q_contents ep @ [m] else ep' = ep)"
    if "q_room ep" "length (fst m) \<le> 256"
    using push_result_ring [OF inv that(1), of "fst m" "snd m"] that inv
      small_not_error [of "length (fst m)"]
    by (auto simp: msg_push_def ep_push_msg_eq)
  show "\<exists>r ep'. msg_pop ep = Inr (r, ep') \<and> q_inv ep'
      \<and> (case r of None \<Rightarrow> q_contents ep = [] \<and> ep' = ep | Some m \<Rightarrow> q_contents ep = m # q_contents ep')"
  proof (cases "q_contents ep")
    case Nil
    with inv show ?thesis by (simp add: msg_pop_def ep_pop_msg_eq)
  next
    case (Cons m rest)
    obtain d x where m: "m = (d, x)" by (cases m)
    have "length d \<le> 256" using q_contents_bound [OF q_inv_wf [OF inv], of m] Cons m by simp
    with Cons inv m pop_contents [OF q_inv_wf [OF inv] Cons] q_inv_pop [OF inv Cons]
      small_not_error [of "length d"] show ?thesis
      by (simp add: msg_pop_def ep_pop_msg_eq)
  qed
qed

section \<open>The waiter ring\<close>

definition w_inv :: "Endpoint \<Rightarrow> bool" where
  "w_inv ep \<longleftrightarrow> length (waiters ep) = 8
     \<and> unat (wait_head ep) \<le> unat (wait_tail ep) \<and> unat (wait_tail ep) \<le> unat (wait_head ep) + 8"

definition w_contents :: "Endpoint \<Rightarrow> nat list" where
  "w_contents ep = map unat (ring_list 8 (waiters ep) (unat (wait_head ep)) (unat (wait_tail ep)))"

definition w_room :: "Endpoint \<Rightarrow> bool" where
  "w_room ep \<longleftrightarrow> unat (wait_tail ep) < unat (wait_head ep) + 8 \<and> unat (wait_tail ep) + 1 < 2 ^ 64"

lemma ep_waiter_push_eq:
  assumes "w_inv ep"
  shows "ep_waiter_push pid ep = (if (wait_tail ep + 1) mod 8 = wait_head ep then Inr (False, ep)
    else Inr (True, ep\<lparr>waiters := (waiters ep)[unat (wait_tail ep) mod 8 := of_nat pid],
                       wait_tail := wait_tail ep + 1\<rparr>))"
  using assms by (simp add: ep_waiter_push_def Let_def MAX_WAITERS_def slot_nat w_inv_def)

lemma ep_waiter_pop_eq:
  assumes "w_inv ep"
  shows "ep_waiter_pop ep = (case w_contents ep of
      [] \<Rightarrow> Inr (None, ep)
    | pid # rest \<Rightarrow> Inr (Some pid, ep\<lparr>wait_head := wait_head ep + 1\<rparr>))"
proof (cases "wait_head ep = wait_tail ep")
  case True
  then show ?thesis by (simp add: ep_waiter_pop_def Let_def w_contents_def)
next
  case False
  with assms have "unat (wait_head ep) < unat (wait_tail ep)"
    by (auto simp: w_inv_def word_unat_eq_iff le_neq_implies_less)
  with False assms show ?thesis
    by (simp add: ep_waiter_pop_def Let_def MAX_WAITERS_def slot_nat w_contents_def w_inv_def
        ring_list_pop)
qed

lemma waiter_pop_contents:
  assumes "w_inv ep" "w_contents ep = pid # rest"
  shows "w_inv (ep\<lparr>wait_head := wait_head ep + 1\<rparr>)"
    "w_contents (ep\<lparr>wait_head := wait_head ep + 1\<rparr>) = rest"
proof -
  have lt: "unat (wait_head ep) < unat (wait_tail ep)"
    using arg_cong [OF assms(2), of length] by (simp add: w_contents_def)
  then have h: "unat (wait_head ep + 1) = Suc (unat (wait_head ep))"
    using unat_u64_lt [of "wait_tail ep"] by (simp add: unat_add_no_wrap)
  with lt assms(1) show "w_inv (ep\<lparr>wait_head := wait_head ep + 1\<rparr>)" by (simp add: w_inv_def)
  show "w_contents (ep\<lparr>wait_head := wait_head ep + 1\<rparr>) = rest"
    using assms(2) lt by (simp add: w_contents_def h ring_list_pop)
qed

lemma waiter_push_contents:
  assumes "w_inv ep" "w_room ep" "pid < 256"
    "ep' = ep\<lparr>waiters := (waiters ep)[unat (wait_tail ep) mod 8 := of_nat pid],
              wait_tail := wait_tail ep + 1\<rparr>"
  shows "w_inv ep'" "w_contents ep' = w_contents ep @ [pid]"
proof -
  have t: "unat (wait_tail ep + 1) = Suc (unat (wait_tail ep))"
    using assms(2) by (simp add: w_room_def unat_add_no_wrap)
  show "w_inv ep'" using assms t by (simp add: w_inv_def w_room_def)
  show "w_contents ep' = w_contents ep @ [pid]"
    using assms by (simp add: w_contents_def t ring_list_push w_inv_def w_room_def unat_of_nat)
qed

interpretation waiting: fifo ep_waiter_push ep_waiter_pop w_inv w_room w_contents "\<lambda>pid. pid < 256"
proof
  fix ep :: Endpoint and pid :: nat
  assume inv: "w_inv ep"
  show "\<exists>ok ep'. ep_waiter_push pid ep = Inr (ok, ep') \<and> w_inv ep'
      \<and> (if ok then w_contents ep' = w_contents ep @ [pid] else ep' = ep)"
    if "w_room ep" "pid < 256"
    using waiter_push_contents [OF inv that refl] inv by (auto simp: ep_waiter_push_eq)
  show "\<exists>r ep'. ep_waiter_pop ep = Inr (r, ep') \<and> w_inv ep'
      \<and> (case r of None \<Rightarrow> w_contents ep = [] \<and> ep' = ep | Some pid \<Rightarrow> w_contents ep = pid # w_contents ep')"
    using waiter_pop_contents [OF inv] inv
    by (cases "w_contents ep") (simp_all add: ep_waiter_pop_eq)
qed

section \<open>Numbers as seen by user code\<close>

lemma msg_ring_full_exact_aux:
  assumes "q_inv ep" "q_room ep"
  shows "(ep_push_msg msg x ep = Inr (E_FULL, ep))
    \<longleftrightarrow> unat (q_head ep) < 32 \<and> length (q_contents ep) = 31"
proof -
  have test: "(q_tail ep + 1) mod 32 = q_head ep
      \<longleftrightarrow> unat (q_head ep) < 32 \<and> unat (q_tail ep) + 1 = unat (q_head ep) + 32"
    using assms ring_full_test [of "q_tail ep" 32 "q_head ep"]
      ring_full_iff [of "unat (q_head ep)" "unat (q_tail ep)" 32]
    by (simp add: q_inv_def q_wf_def q_room_def)
  have "push_result msg x ep \<noteq> ep" by (metis push_result_simps(2) add_cancel_left_right zero_neq_one)
  then have "ep_push_msg msg x ep = Inr (E_FULL, ep) \<longleftrightarrow> (q_tail ep + 1) mod 32 = q_head ep"
    using ep_push_msg_eq [OF q_inv_wf [OF assms(1)], of msg x] by auto
  with test assms show ?thesis
    by (auto simp: q_contents_def q_ring_def q_inv_def q_wf_def)
qed

lemma ucast_ucast_u32: "ucast (ucast (c :: u32) :: u64) = c"
  by (rule bit_word_eqI) (auto simp: bit_simps)

lemma ucast_u32_neq_max: "(ucast (c :: u32) :: u64) \<noteq> u64_max"
proof
  assume "(ucast c :: u64) = u64_max"
  then have "bit (ucast c :: u64) 40" by simp
  then show False using bit_imp_le_length [of c 40] by (simp add: bit_simps)
qed

section \<open>Endpoints in the kernel state\<close>

definition ep_ok :: "Endpoint \<Rightarrow> bool" where
  "ep_ok ep \<longleftrightarrow> q_wf ep \<and> w_inv ep"

definition ipc_inv :: "'z ipc_state_scheme \<Rightarrow> bool" where
  "ipc_inv s \<longleftrightarrow> sched_inv s \<and> length (ENDPOINTS s) = 32 \<and> list_all ep_ok (ENDPOINTS s)"

lemma ipc_invD:
  assumes "ipc_inv s"
  shows "sched_inv s" "length (ENDPOINTS s) = 32" "i < 32 \<Longrightarrow> q_wf (ENDPOINTS s ! i)"
    "i < 32 \<Longrightarrow> w_inv (ENDPOINTS s ! i)"
  using assms by (auto simp: ipc_inv_def ep_ok_def list_all_length)

lemma sched_inv_ep_update [simp]: "sched_inv (ep_update i ep s) = sched_inv s"
  by (simp add: sched_inv_def ep_update_def)

lemma ipc_inv_ep_update: "ipc_inv s \<Longrightarrow> ep_ok ep \<Longrightarrow> ipc_inv (ep_update i ep s)"
  by (simp add: ipc_inv_def list_all_update) (simp add: ep_update_def list_all_update)

lemma ep_ok_empty: "ep_ok empty_endpoint"
  by (simp add: ep_ok_def q_wf_def w_inv_def empty_endpoint_def Q_LEN_def MAX_WAITERS_def
      list_all_iff msg_ok_def EMPTY_MSG_def MAX_MSG_def)

lemma ep_ok_push:
  "ep_ok ep \<Longrightarrow> unat (q_tail ep) + 1 < 2 ^ 64 \<Longrightarrow> ep_ok (push_result msg x ep)"
  using q_wf_push by (simp add: ep_ok_def w_inv_def)

lemma ep_ok_pop: "ep_ok ep \<Longrightarrow> q_contents ep = m # rest \<Longrightarrow> ep_ok (ep\<lparr>q_head := q_head ep + 1\<rparr>)"
  using pop_contents(1) by (simp add: ep_ok_def w_inv_def)

lemma lookup_ep_update [simp]:
  "cap_lookup_current cap (ep_update i ep s) = cap_lookup_current cap s"
  "cap_lookup_of pid cap (ep_update i ep s) = cap_lookup_of pid cap s"
  by (simp_all add: cap_lookup_of_def cap_lookup_current_def ep_update_def current_pid_def Let_def)

text \<open>The endpoint a capability names, if its identifier is in range.\<close>

lemma ep_send_cap_eq:
  assumes "ipc_inv s" "cap_lookup_current cap s = Some e" "unat e \<le> 32"
  shows "ep_send_cap cap msg x s = (let i = unat e - 1; ep = ENDPOINTS s ! i in
    if (q_tail ep + 1) mod 32 = q_head ep then Inr (E_FULL, ep_update i ep s)
    else Inr (of_nat (min (length msg) 256), ep_update i (push_result msg x ep) s))"
proof -
  have "unat e - 1 < 32" using assms(3) by simp
  with assms ipc_invD [OF assms(1)] show ?thesis
    by (simp add: ep_send_cap_def Let_def MAX_ENDPOINTS_def ep_push_msg_eq)
qed

lemma ep_recv_cap_eq:
  assumes "ipc_inv s" "cap_lookup_current cap s = Some e" "unat e \<le> 32" "length out \<le> 256"
  shows "ep_recv_cap cap out s = (let i = unat e - 1; ep = ENDPOINTS s ! i in
    case q_contents ep of
      [] \<Rightarrow> Inr (E_EMPTY, 0, out, ep_update i ep s)
    | (d, x) # rest \<Rightarrow> Inr (of_nat (min (length d) (length out)), x,
        take (length out) d @ drop (length d) out,
        ep_update i (ep\<lparr>q_head := q_head ep + 1\<rparr>) s))"
proof -
  have "unat e - 1 < 32" using assms(3) by simp
  with assms ipc_invD [OF assms(1)] show ?thesis
    by (simp add: ep_recv_cap_def Let_def MAX_ENDPOINTS_def ep_pop_msg_eq split: list.split)
qed

section \<open>Properties\<close>

definition demo_ipc :: ipc_state where
  "demo_ipc = sched_state.extend (demo_sched\<lparr>PROCS := (PROCS demo_sched)
       [0 := (new_proc 0x100 0x200 0x1000)\<lparr>caps := 1 # replicate 31 0\<rparr>]\<rparr>)
     (ipc_state.fields (replicate 32 empty_endpoint) 1)"

lemma demo_ipc_inv: "ipc_inv demo_ipc"
  by (simp add: ipc_inv_def demo_ipc_def sched_inv_def MAX_PROCS_def proc_ok_def new_proc_def
      empty_proc_def demo_sched_def list_all_iff ep_ok_empty sched_state.defs ipc_state.defs)

text \<open>C22: the message ring of an endpoint is a first-in first-out queue as long as it is never
  pushed while it holds 32 messages: for every sequence of sends (of at most 256 bytes) and receives,
  no operation panics, and what was queued followed by what was accepted equals what was delivered
  followed by what is still queued, contents and transferred endpoints included.\<close>

theorem msg_ring_fifo:
  assumes "q_inv ep" "list_all (\<lambda>op. case op of Push m \<Rightarrow> length (fst m) \<le> 256 | Pop \<Rightarrow> True) ops"
  shows "\<exists>sent got ep'. run_ops msg_push msg_pop q_room ops ep = Inr (sent, got, ep') \<and> q_inv ep'
    \<and> q_contents ep @ sent = got @ q_contents ep'"
  using assms by (intro msgs.run_ops_fifo) (auto simp: list_all_iff)

theorem msg_ring_fifo_witness:
  "\<exists>sent got ep'. run_ops msg_push msg_pop q_room
       [Push ([1, 2], 0), Push ([3], 5), Pop] empty_endpoint = Inr (sent, got, ep')
    \<and> sent = got @ q_contents ep'"
proof -
  have "q_inv empty_endpoint"
    using ep_ok_empty by (simp add: ep_ok_def q_inv_def) (simp add: empty_endpoint_def)
  moreover have "q_contents empty_endpoint = []"
    by (simp add: q_contents_def q_ring_def empty_endpoint_def)
  ultimately show ?thesis
    using msg_ring_fifo [of empty_endpoint "[Push ([1, 2], 0), Push ([3], 5), Pop]"] by auto
qed

text \<open>C23: when a send is refused. A ring with fewer than 32 messages refuses a send exactly when 31
  are queued and fewer than 32 have ever been received; from the 32nd receive on no send is refused,
  however many messages are queued.\<close>

theorem msg_ring_full_exact:
  assumes "q_inv ep" "q_room ep"
  shows "(ep_push_msg msg x ep = Inr (E_FULL, ep))
    \<longleftrightarrow> unat (q_head ep) < 32 \<and> length (q_contents ep) = 31"
  by (rule msg_ring_full_exact_aux [OF assms])

text \<open>An endpoint on which 31 messages are waiting, and one after 32 receives that holds 32.\<close>

definition demo_ring :: "usize \<Rightarrow> usize \<Rightarrow> Endpoint" where
  "demo_ring h t = empty_endpoint\<lparr>q_head := h, q_tail := t\<rparr>"

lemma demo_ring_inv: "unat h \<le> unat t \<Longrightarrow> unat t \<le> unat h + 32 \<Longrightarrow> q_inv (demo_ring h t)"
  using ep_ok_empty by (simp add: demo_ring_def ep_ok_def q_inv_def q_wf_def)

theorem msg_ring_full_exact_witness:
  "ep_push_msg [7] 0 (demo_ring 3 34) = Inr (E_FULL, demo_ring 3 34)
    \<and> ep_push_msg [7] 0 (demo_ring 35 66) \<noteq> Inr (E_FULL, demo_ring 35 66)"
proof -
  have "q_room (demo_ring 3 34)" "q_room (demo_ring 35 66)" by (simp_all add: q_room_def demo_ring_def)
  with msg_ring_full_exact [OF demo_ring_inv, of 3 34 "[7]" 0]
    msg_ring_full_exact [OF demo_ring_inv, of 35 66 "[7]" 0]
  show ?thesis by (simp add: q_contents_def q_ring_def demo_ring_def)
qed

text \<open>Messages are lost. On an endpoint that has delivered at least 32 messages and has 32 queued,
  a send is accepted but overwrites the oldest queued message: the next receive returns the message
  just sent, and the overwritten one is never delivered.\<close>

theorem msg_ring_overwrites:
  assumes "q_inv ep" "32 \<le> unat (q_head ep)" "unat (q_tail ep) = unat (q_head ep) + 32"
    "unat (q_tail ep) + 1 < 2 ^ 64"
  shows "\<exists>ep'. ep_push_msg msg x ep = Inr (of_nat (min (length msg) 256), ep')
    \<and> q_contents ep' = (take 256 msg, x) # tl (q_contents ep) @ [(take 256 msg, x)]"
proof -
  have "(unat (q_tail ep) + 1) mod 32 \<noteq> unat (q_head ep)"
    using assms(2) mod_less_divisor [of 32 "unat (q_tail ep) + 1"] by linarith
  then have ok: "(q_tail ep + 1) mod 32 \<noteq> q_head ep"
    using ring_full_test [of "q_tail ep" 32 "q_head ep"] assms(4) by simp
  have t: "unat (q_tail ep + 1) = Suc (unat (q_tail ep))"
    using assms(4) by (simp add: unat_add_no_wrap)
  have "length (q_buf ep) = 32" using assms(1) by (simp add: q_inv_def q_wf_def)
  then have "q_contents (push_result msg x ep) = (take 256 msg, x) # tl (q_contents ep) @ [(take 256 msg, x)]"
    using ring_list_overwrite [OF assms(3), of "q_buf ep"]
    by (simp add: q_contents_def q_ring_def push_result_def t payload_stored map_tl)
  with ep_push_msg_eq [OF q_inv_wf [OF assms(1)], of msg x] ok show ?thesis by simp
qed

theorem msg_ring_overwrites_witness:
  "\<exists>ep'. ep_push_msg [7] 9 (demo_ring 32 64) = Inr (1, ep') \<and> hd (q_contents ep') = ([7], 9)"
  using msg_ring_overwrites [OF demo_ring_inv, of 32 64 "[7]" 9] by (auto simp: demo_ring_def)



text \<open>C25: sending and receiving are inverse. If a process sends on a capability for an empty endpoint
  that accepts the message, then whichever process receives next through a capability for the same
  endpoint gets the first 256 bytes of the message, cut to its buffer, and the transferred endpoint;
  the endpoint is empty again and no other endpoint has changed.\<close>

theorem send_recv_roundtrip:
  assumes "ipc_inv s" "cap_lookup_current cap s = Some e" "unat e \<le> 32"
    "q_contents (ENDPOINTS s ! (unat e - 1)) = []" "q_room (ENDPOINTS s ! (unat e - 1))"
    "cap_lookup_of pid cap2 s = Some e" "pid < 8" "length out \<le> 256"
  shows "\<exists>s1 s2. ep_send_cap cap msg x s = Inr (of_nat (min (length msg) 256), s1)
    \<and> ep_recv_cap cap2 out (s1\<lparr>CURRENT := pid\<rparr>)
        = Inr (of_nat (min (min (length msg) 256) (length out)), x,
            take (length out) (take 256 msg) @ drop (min (length msg) 256) out, s2)
    \<and> q_contents (ENDPOINTS s2 ! (unat e - 1)) = []
    \<and> (\<forall>i. i \<noteq> unat e - 1 \<longrightarrow> ENDPOINTS s2 ! i = ENDPOINTS s ! i)"
proof -
  define i where "i = unat e - 1"
  define ep where "ep = ENDPOINTS s ! i"
  define s1 where "s1 = ep_update i (push_result msg x ep) s"
  have i: "i < 32" using assms(3) by (simp add: i_def)
  note inv = ipc_invD [OF assms(1)]
  have wf: "q_wf ep" "w_inv ep" "q_room ep" "q_contents ep = []"
    using inv i assms(4,5) by (simp_all add: ep_def i_def)
  have ep: "q_inv ep" "w_inv ep" "q_room ep" "q_contents ep = []"
    using wf by (simp_all add: q_inv_def q_room_def)
  have "ep_push_msg msg x ep \<noteq> Inr (E_FULL, ep)"
    using msg_ring_full_exact_aux [OF ep(1,3)] ep(4) by simp
  then have nf: "(q_tail ep + 1) mod 32 \<noteq> q_head ep" using ep_push_msg_eq [OF wf(1), of msg x] by auto
  have snd: "ep_send_cap cap msg x s = Inr (of_nat (min (length msg) 256), s1)"
    using ep_send_cap_eq [OF assms(1-3), of msg x, folded i_def, unfolded Let_def, folded ep_def] nf
    by (simp add: s1_def)
  have c1: "q_contents (push_result msg x ep) = [(take 256 msg, x)]"
    using push_result_ring(2) [OF ep(1,3)] ep(4) by simp
  have ok1: "ep_ok (push_result msg x ep)" using wf by (intro ep_ok_push) (simp_all add: ep_ok_def q_room_def)
  have "ipc_inv s1" unfolding s1_def by (rule ipc_inv_ep_update [OF assms(1) ok1])
  then have inv1: "ipc_inv (s1\<lparr>CURRENT := pid\<rparr>)"
    using assms(7) by (simp add: ipc_inv_def sched_inv_def MAX_PROCS_def)
  have look: "cap_lookup_current cap2 (s1\<lparr>CURRENT := pid\<rparr>) = Some e"
    using assms(6) by (simp add: s1_def cap_lookup_of_def [symmetric])
  have at: "ENDPOINTS (s1\<lparr>CURRENT := pid\<rparr>) ! i = push_result msg x ep"
    using i inv(2) by (simp add: s1_def ep_update_def)
  define s2 where "s2 = ep_update i ((push_result msg x ep)\<lparr>q_head := q_head ep + 1\<rparr>) (s1\<lparr>CURRENT := pid\<rparr>)"
  have rcv: "ep_recv_cap cap2 out (s1\<lparr>CURRENT := pid\<rparr>)
      = Inr (of_nat (min (min (length msg) 256) (length out)), x,
          take (length out) (take 256 msg) @ drop (min (length msg) 256) out, s2)"
    using ep_recv_cap_eq [OF inv1 look assms(3,8), folded i_def, unfolded Let_def at c1]
    by (simp add: s2_def)
  have "ENDPOINTS s2 ! i = (push_result msg x ep)\<lparr>q_head := q_head (push_result msg x ep) + 1\<rparr>"
    using i inv(2) by (simp add: s2_def s1_def ep_update_def)
  then have "q_contents (ENDPOINTS s2 ! i) = []"
    using pop_contents(2) [OF _ c1] ok1 by (simp add: ep_ok_def)
  moreover have "\<forall>j. j \<noteq> i \<longrightarrow> ENDPOINTS s2 ! j = ENDPOINTS s ! j"
    by (simp add: s2_def s1_def ep_update_def)
  ultimately show ?thesis using snd rcv by (auto simp: i_def)
qed

theorem send_recv_roundtrip_witness:
  "\<exists>s1 s2. ep_send_cap 1 [65, 66, 67] 4 demo_ipc = Inr (3, s1)
    \<and> ep_recv_cap 1 [0, 0] (s1\<lparr>CURRENT := 0\<rparr>) = Inr (2, 4, [65, 66], s2)"
proof -
  have l: "cap_lookup_current 1 demo_ipc = Some 1" "cap_lookup_of 0 1 demo_ipc = Some 1"
    by code_simp+
  have e: "ENDPOINTS demo_ipc ! (unat (1 :: u32) - 1) = empty_endpoint"
    by (simp add: demo_ipc_def sched_state.defs ipc_state.defs)
  have "q_contents empty_endpoint = []" "q_room empty_endpoint"
    by (simp_all add: q_contents_def q_ring_def q_room_def empty_endpoint_def)
  with send_recv_roundtrip [OF demo_ipc_inv l(1) _ _ _ l(2), of "[0, 0]" "[65, 66, 67]" 4] e
  show ?thesis by auto
qed

text \<open>Creating an endpoint. \<open>ep_create\<close> always uses up one endpoint number; when it succeeds, the
  capability it returns resolves to that number for the caller, and no capability of any process
  changes otherwise. It fails only when all 32 numbers are used or the caller's table is full.\<close>

theorem ep_create_fresh:
  assumes "ipc_inv s"
  shows "case ep_create s of (r, s') \<Rightarrow> NEXT_EP s' = NEXT_EP s + 1
    \<and> (if r = E_INVAL
       then (32 \<le> unat (NEXT_EP s) \<or> 0 \<notin> set (caps (PROCS s ! CURRENT s))) \<and> PROCS s' = PROCS s
       else \<forall>pid c. cap_lookup_of pid c s'
          = (if pid = CURRENT s \<and> ucast c = r then Some (ucast (NEXT_EP s) + 1)
             else cap_lookup_of pid c s))"
proof (cases "32 \<le> NEXT_EP s")
  case True
  then show ?thesis
    by (simp add: ep_create_def endpoint_alloc_def Let_def MAX_ENDPOINTS_def word_le_nat_alt)
next
  case False
  then have n: "unat (NEXT_EP s) < 32" by (simp add: word_le_nat_alt)
  let ?e = "ucast (NEXT_EP s) + 1 :: u32" and ?t = "s\<lparr>NEXT_EP := NEXT_EP s + 1\<rparr>"
  have al: "endpoint_alloc s = (Some ?e, ?t)"
    using False by (simp add: endpoint_alloc_def Let_def MAX_ENDPOINTS_def)
  have e0: "?e \<noteq> 0"
  proof -
    have "unat (ucast (NEXT_EP s) :: u32) = unat (NEXT_EP s)"
      using n by (simp add: unsigned_ucast_eq take_bit_nat_eq_self)
    then have "unat ?e = unat (NEXT_EP s) + 1" using n by (simp add: unat_add_no_wrap)
    then show ?thesis by (metis Suc_eq_plus1 nat.distinct(1) unat_0)
  qed
  have inv: "sched_inv ?t" using assms by (simp add: ipc_inv_def sched_inv_def)
  have cur: "CURRENT s < 8" using assms sched_invD(2) by (auto simp: ipc_inv_def)
  have lk: "cap_lookup_of pid c ?t = cap_lookup_of pid c s" for pid c
    by (simp add: cap_lookup_of_eq)
  obtain r s' where a: "cap_alloc_for (CURRENT s) ?e ?t = (r, s')" by fastforce
  from inv have nx: "NEXT_EP s' = NEXT_EP s + 1"
    using a by (cases rule: cap_alloc_forE [where pid = "CURRENT s" and ep = ?e]) auto
  show ?thesis
  proof (cases r)
    case None
    from inv have "s' = ?t \<and> 0 \<notin> set (caps (PROCS s ! CURRENT s))"
      using a None e0 cur by (cases rule: cap_alloc_forE [where pid = "CURRENT s" and ep = ?e]) auto
    with al a None show ?thesis
      by (simp add: ep_create_def cap_alloc_current_def current_pid_def)
  next
    case (Some c)
    have res: "cap_lookup_of q d s' = (if q = CURRENT s \<and> d = c then Some ?e else cap_lookup_of q d s)"
      for q d using caps.grant_resolve [OF inv, of "CURRENT s" ?e c s' q d] a Some lk by simp
    have up: "ucast d = (ucast c :: u64) \<longleftrightarrow> d = c" for d :: u32
      by (metis ucast_ucast_u32)
    have "(ucast c :: u64) \<noteq> E_INVAL" by (rule ucast_u32_neq_max)
    with al a Some res nx up show ?thesis
      by (simp add: ep_create_def cap_alloc_current_def current_pid_def)
  qed
qed

theorem ep_create_fresh_witness:
  "\<exists>s'. ep_create demo_ipc = (2, s') \<and> cap_lookup_of 0 2 s' = Some 2 \<and> cap_lookup_of 0 1 s' = Some 1"
proof -
  have a: "fst (ep_create demo_ipc) = 2" by code_simp
  have b: "cap_lookup_of 0 1 demo_ipc = Some 1" "CURRENT demo_ipc = 0" "NEXT_EP demo_ipc = 1" by code_simp+
  obtain s' where s': "ep_create demo_ipc = (2, s')" using a by (cases "ep_create demo_ipc") auto
  have "cap_lookup_of 0 2 s' = Some 2" "cap_lookup_of 0 1 s' = Some 1"
    using ep_create_fresh [OF demo_ipc_inv] s' b by simp_all
  with s' show ?thesis by blast
qed

end
