(* ===== verification/User.thy ===== *)
theory User
  imports Ipc
begin

text \<open>
  User address spaces and processes, \<^verbatim>\<open>kernel/src/user.rs\<close>: the page-table code that maps a process,
  the ELF loader, the construction of the first trap frame, and the creation of processes. The bytes
  of the embedded init program are produced by the build and are a parameter of the operations that
  load it.
\<close>

section \<open>Page tables of a process\<close>

record user_state = ipc_state +
  BOOT_KB :: u64
  BOOT_KE :: u64
  BOOT_MAX :: u64

definition user_alloc_table :: "'z pmm_state_scheme \<Rightarrow> (u64 \<times> 'z pmm_state_scheme) outcome" where
  "user_alloc_table = alloc_table_msg ''user: alloc_pages failed''"

definition get_or_alloc_table ::
  "u64 \<Rightarrow> u64 \<Rightarrow> 'z pmm_state_scheme \<Rightarrow> (u64 \<times> 'z pmm_state_scheme) outcome" where
  "get_or_alloc_table ent flags s =
     (let v = vread64 ent s in
      if v AND PTE_P \<noteq> 0
      then if flags AND PTE_U \<noteq> 0 \<and> v AND PTE_U = 0
           then let v' = v OR PTE_U in Inr (v' AND ADDR_MASK, vwrite64 ent v' s)
           else Inr (v AND ADDR_MASK, s)
      else and_then (user_alloc_table s) (\<lambda>(t, s1).
        let e = t OR (PTE_P OR PTE_RW);
            e' = (if flags AND PTE_U \<noteq> 0 then e OR PTE_U else e) in
        Inr (t, vwrite64 ent e' s1)))"

definition map_4k ::
  "u64 \<Rightarrow> u64 \<Rightarrow> u64 \<Rightarrow> u64 \<Rightarrow> 'z pmm_state_scheme \<Rightarrow> 'z pmm_state_scheme outcome" where
  "map_4k pml4 virt0 phys0 flags s =
     (let virt = align_down virt0 PAGE_SIZE; phys = align_down phys0 PAGE_SIZE in
      and_then (get_or_alloc_table (table_entry_mut pml4 (pt_index 39 virt)) flags s) (\<lambda>(pdpt, s1).
      and_then (get_or_alloc_table (table_entry_mut pdpt (pt_index 30 virt)) flags s1) (\<lambda>(pd, s2).
      and_then (get_or_alloc_table (table_entry_mut pd (pt_index 21 virt)) flags s2) (\<lambda>(pt, s3).
      Inr (vwrite64 (table_entry_mut pt (pt_index 12 virt)) (phys OR (PTE_P OR flags)) s3)))))"

definition hhdm_fill_pd ::
  "u64 \<Rightarrow> u64 \<Rightarrow> 'z machine_scheme \<Rightarrow> 'z machine_scheme" where
  "hhdm_fill_pd pd chunk_base s =
     fold (\<lambda>j s. vwrite64 (table_entry_mut pd (of_nat j))
        ((chunk_base + of_nat j * (2 * 1024 * 1024)) OR (PTE_P OR PTE_RW OR PTE_PS)) s) [0..<512] s"

fun hhdm_chunks :: "u64 \<Rightarrow> nat list \<Rightarrow> 'z pmm_state_scheme \<Rightarrow> 'z pmm_state_scheme outcome" where
  "hhdm_chunks pdpt [] s = Inr s"
| "hhdm_chunks pdpt (i # is) s =
     and_then (user_alloc_table s) (\<lambda>(pd, s1).
       let s2 = vwrite64 (table_entry_mut pdpt (of_nat i)) (pd OR (PTE_P OR PTE_RW)) s1 in
       hhdm_chunks pdpt is (hhdm_fill_pd pd (of_nat i * (1024 * 1024 * 1024)) s2))"

definition map_hhdm_huge ::
  "u64 \<Rightarrow> u64 \<Rightarrow> 'z pmm_state_scheme \<Rightarrow> 'z pmm_state_scheme outcome" where
  "map_hhdm_huge pml4 max_phys_inclusive s =
     and_then (pdpt_entries_for max_phys_inclusive) (\<lambda>(max_end, pdpt_entries).
     and_then (user_alloc_table s) (\<lambda>(pdpt, s1).
       let s2 = vwrite64 (table_entry_mut pml4 256) (pdpt OR (PTE_P OR PTE_RW)) s1 in
       hhdm_chunks pdpt [0..<pdpt_entries] s2))"

definition translate_4k :: "u64 \<Rightarrow> u64 \<Rightarrow> 'z machine_scheme \<Rightarrow> u64 option" where
  "translate_4k pml4 virt s =
     (let off = virt AND 0xfff;
          pml4e = vread64 (table_entry_mut pml4 (pt_index 39 virt)) s in
      if pml4e AND PTE_P = 0 then None
      else let pdpt = pml4e AND ADDR_MASK;
               pdpte = vread64 (table_entry_mut pdpt (pt_index 30 virt)) s in
      if pdpte AND PTE_P = 0 then None
      else let pd = pdpte AND ADDR_MASK;
               pde = vread64 (table_entry_mut pd (pt_index 21 virt)) s in
      if pde AND PTE_P = 0 then None
      else let pt = pde AND ADDR_MASK;
               pte = vread64 (table_entry_mut pt (pt_index 12 virt)) s in
      if pte AND PTE_P = 0 then None
      else Some ((pte AND ADDR_MASK) + off))"

section \<open>The ELF loader\<close>

record Elf64Ehdr =
  e_ident :: "u8 list"
  e_type :: u16
  e_machine :: u16
  e_version :: u32
  e_entry :: u64
  e_phoff :: u64
  e_shoff :: u64
  e_flags :: u32
  e_ehsize :: u16
  e_phentsize :: u16
  e_phnum :: u16
  e_shentsize :: u16
  e_shnum :: u16
  e_shstrndx :: u16

record Elf64Phdr =
  p_type :: u32
  p_flags :: u32
  p_offset :: u64
  p_vaddr :: u64
  p_paddr :: u64
  p_filesz :: u64
  p_memsz :: u64
  p_align :: u64

text \<open>Little-endian fields of the \<open>repr(C)\<close> structures, at their offsets.\<close>

definition le_at :: "nat \<Rightarrow> nat \<Rightarrow> u8 list \<Rightarrow> 'a::len word" where
  "le_at off n bs = foldr (\<lambda>b acc. acc * 256 + ucast b) (take n (drop off bs)) 0"

definition parse_ehdr :: "u8 list \<Rightarrow> Elf64Ehdr" where
  "parse_ehdr bs = \<lparr>e_ident = take 16 bs, e_type = le_at 16 2 bs, e_machine = le_at 18 2 bs,
     e_version = le_at 20 4 bs, e_entry = le_at 24 8 bs, e_phoff = le_at 32 8 bs,
     e_shoff = le_at 40 8 bs, e_flags = le_at 48 4 bs, e_ehsize = le_at 52 2 bs,
     e_phentsize = le_at 54 2 bs, e_phnum = le_at 56 2 bs, e_shentsize = le_at 58 2 bs,
     e_shnum = le_at 60 2 bs, e_shstrndx = le_at 62 2 bs\<rparr>"

definition parse_phdr :: "u8 list \<Rightarrow> Elf64Phdr" where
  "parse_phdr bs = \<lparr>p_type = le_at 0 4 bs, p_flags = le_at 4 4 bs, p_offset = le_at 8 8 bs,
     p_vaddr = le_at 16 8 bs, p_paddr = le_at 24 8 bs, p_filesz = le_at 32 8 bs,
     p_memsz = le_at 40 8 bs, p_align = le_at 48 8 bs\<rparr>"

definition PT_LOAD :: u32 where
  "PT_LOAD = 1"

definition PF_W :: u32 where
  "PF_W = 2"

text \<open>Allocating and mapping the pages of a segment.\<close>

function map_seg ::
  "u64 \<Rightarrow> u64 \<Rightarrow> u64 \<Rightarrow> u64 \<Rightarrow> 'z pmm_state_scheme \<Rightarrow> 'z pmm_state_scheme outcome" where
  "map_seg pml4 flags v seg_end s =
     (if v < seg_end
      then and_then (alloc_frame s) (\<lambda>(r, s1).
           and_then (expect ''user: alloc_frame segment'' r) (\<lambda>p.
           and_then (map_4k pml4 v p flags s1) (\<lambda>s2.
           and_then (add_chk v PAGE_SIZE) (\<lambda>v'. map_seg pml4 flags v' seg_end s2))))
      else Inr s)"
  by pat_completeness auto
termination
proof (relation "measure (\<lambda>(pml4, flags, v, seg_end, s). 2 ^ 64 - unat v)", goal_cases)
  case (2 pml4 flags v seg_end s x r s1 p s2 v')
  then have "unat v' = unat v + 4096" "unat v + 4096 < 2 ^ 64"
    by (auto simp: add_chk_nat unat_add_no_wrap split: if_splits)
  then show ?case by simp
qed simp

declare map_seg.simps [simp del]

text \<open>Copying the file bytes of a segment, and clearing the rest; the early return is \<open>None\<close>.\<close>

fun copy_file ::
  "u64 \<Rightarrow> u64 \<Rightarrow> u8 list \<Rightarrow> nat \<Rightarrow> nat \<Rightarrow> nat \<Rightarrow> 'z machine_scheme
     \<Rightarrow> (unit option \<times> 'z machine_scheme) outcome" where
  "copy_file pml4 vaddr elf foff off 0 s = Inr (Some (), s)"
| "copy_file pml4 vaddr elf foff off (Suc n) s =
     and_then (add_chk vaddr (of_nat off)) (\<lambda>va.
       case translate_4k pml4 va s of
         None \<Rightarrow> Inr (None, s)
       | Some pa \<Rightarrow> and_then (aget elf (foff + off)) (\<lambda>src.
           copy_file pml4 vaddr elf foff (Suc off) n (vwrite8 (phys_to_virt pa) src s)))"

fun zero_bss ::
  "u64 \<Rightarrow> u64 \<Rightarrow> u64 \<Rightarrow> nat \<Rightarrow> nat \<Rightarrow> 'z machine_scheme
     \<Rightarrow> (unit option \<times> 'z machine_scheme) outcome" where
  "zero_bss pml4 vaddr filesz off 0 s = Inr (Some (), s)"
| "zero_bss pml4 vaddr filesz off (Suc n) s =
     and_then (add_chk vaddr filesz) (\<lambda>b. and_then (add_chk b (of_nat off)) (\<lambda>va.
       case translate_4k pml4 va s of
         None \<Rightarrow> Inr (None, s)
       | Some pa \<Rightarrow> zero_bss pml4 vaddr filesz (Suc off) n (vwrite8 (phys_to_virt pa) 0 s)))"

definition past_end :: "u64 \<Rightarrow> u64 \<Rightarrow> u8 list \<Rightarrow> bool" where
  "past_end off n bs \<longleftrightarrow>
     of_nat (length bs) < (case checked_add off n of None \<Rightarrow> u64_max | Some v \<Rightarrow> v)"

definition load_segment ::
  "u64 \<Rightarrow> u8 list \<Rightarrow> Elf64Phdr \<Rightarrow> 'z pmm_state_scheme
     \<Rightarrow> (unit option \<times> 'z pmm_state_scheme) outcome" where
  "load_segment pml4 elf ph s =
     (if p_type ph \<noteq> PT_LOAD \<or> p_memsz ph = 0 then Inr (Some (), s)
      else let seg_start = align_down (p_vaddr ph) PAGE_SIZE in
        and_then (align_up (saturating_add (p_vaddr ph) (p_memsz ph)) PAGE_SIZE) (\<lambda>seg_end.
        let flags = (if p_flags ph AND PF_W \<noteq> 0 then PTE_U OR PTE_RW else PTE_U) in
        and_then (map_seg pml4 flags seg_start seg_end s) (\<lambda>s1.
        and_then (if p_filesz ph = 0 then Inr (Some (), s1)
                  else if past_end (p_offset ph) (p_filesz ph) elf then Inr (None, s1)
                  else copy_file pml4 (p_vaddr ph) elf (unat (p_offset ph)) 0
                         (unat (p_filesz ph)) s1) (\<lambda>(r, s2). case r of
          None \<Rightarrow> Inr (None, s2)
        | Some _ \<Rightarrow>
            if p_filesz ph < p_memsz ph
            then zero_bss pml4 (p_vaddr ph) (p_filesz ph) 0 (unat (p_memsz ph - p_filesz ph)) s2
            else Inr (Some (), s2)))))"

fun load_segments ::
  "u64 \<Rightarrow> u8 list \<Rightarrow> nat \<Rightarrow> nat list \<Rightarrow> 'z pmm_state_scheme
     \<Rightarrow> (unit option \<times> 'z pmm_state_scheme) outcome" where
  "load_segments pml4 elf phoff [] s = Inr (Some (), s)"
| "load_segments pml4 elf phoff (i # is) s =
     and_then (load_segment pml4 elf (parse_phdr (drop (phoff + i * 56) elf)) s) (\<lambda>(r, s1).
       case r of None \<Rightarrow> Inr (None, s1) | Some _ \<Rightarrow> load_segments pml4 elf phoff is s1)"

definition elf_header_ok :: "Elf64Ehdr \<Rightarrow> bool" where
  "elf_header_ok eh \<longleftrightarrow>
     take 6 (e_ident eh) = [0x7f, 0x45, 0x4c, 0x46, 2, 1] \<and> e_machine eh = 0x3e
     \<and> e_phentsize eh = 56"

definition load_elf_into_user ::
  "u64 \<Rightarrow> u8 list \<Rightarrow> 'z pmm_state_scheme \<Rightarrow> (u64 option \<times> 'z pmm_state_scheme) outcome" where
  "load_elf_into_user pml4 elf s =
     (if length elf < 64 then Inr (None, s)
      else let eh = parse_ehdr elf in
        if \<not> elf_header_ok eh then Inr (None, s)
        else if past_end (e_phoff eh) (ucast (e_phnum eh) * 56) elf then Inr (None, s)
        else and_then (load_segments pml4 elf (unat (e_phoff eh)) [0..<unat (e_phnum eh)] s) (\<lambda>(r, s1).
          Inr (case r of None \<Rightarrow> None | Some _ \<Rightarrow> Some (e_entry eh), s1)))"

section \<open>Trap frames\<close>

text \<open>The fields of \<open>TaskTrapFrame\<close>, \<open>TrapFrame\<close> and \<open>SyscallFrame\<close>, which share one layout of
  twenty 64-bit words.\<close>

datatype tf_field =
    R15 | R14 | R13 | R12 | R11 | R10 | R9 | R8 | RSI | RDI | RBP | RDX | RCX | RBX | RAX
  | RIP | CS | RFLAGS | RSP | SS

fun tf_index :: "tf_field \<Rightarrow> nat" where
  "tf_index R15 = 0" | "tf_index R14 = 1" | "tf_index R13 = 2" | "tf_index R12 = 3"
| "tf_index R11 = 4" | "tf_index R10 = 5" | "tf_index R9 = 6" | "tf_index R8 = 7"
| "tf_index RSI = 8" | "tf_index RDI = 9" | "tf_index RBP = 10" | "tf_index RDX = 11"
| "tf_index RCX = 12" | "tf_index RBX = 13" | "tf_index RAX = 14" | "tf_index RIP = 15"
| "tf_index CS = 16" | "tf_index RFLAGS = 17" | "tf_index RSP = 18" | "tf_index SS = 19"

definition tf_addr :: "u64 \<Rightarrow> tf_field \<Rightarrow> u64" where
  "tf_addr tf f = tf + 8 * of_nat (tf_index f)"

definition tf_get :: "tf_field \<Rightarrow> u64 \<Rightarrow> 'z machine_scheme \<Rightarrow> u64" where
  "tf_get f tf s = vread64 (tf_addr tf f) s"

definition tf_set :: "tf_field \<Rightarrow> u64 \<Rightarrow> u64 \<Rightarrow> 'z machine_scheme \<Rightarrow> 'z machine_scheme" where
  "tf_set f v tf s = vwrite64 (tf_addr tf f) v s"

definition TF_SIZE :: u64 where
  "TF_SIZE = 160"

definition fill_zero :: "u64 \<Rightarrow> u64 \<Rightarrow> 'z machine_scheme \<Rightarrow> 'z machine_scheme" where
  "fill_zero va n s =
     s\<lparr>mem := (\<lambda>a. if a - (va - HHDM_BASE) < n then 0 else mem s a)\<rparr>"

definition build_initial_tf ::
  "u64 \<Rightarrow> u64 \<Rightarrow> u64 \<Rightarrow> u64 \<Rightarrow> u64 \<Rightarrow> 'z machine_scheme \<Rightarrow> (u64 \<times> 'z machine_scheme) outcome" where
  "build_initial_tf kst entry_v user_rsp role init_ep_cap s =
     and_then (sub_chk kst TF_SIZE) (\<lambda>tf.
       let s0 = fill_zero tf TF_SIZE s;
           s1 = tf_set RDI role tf s0;
           s2 = tf_set RSI init_ep_cap tf s1;
           s3 = tf_set RIP entry_v tf s2;
           s4 = tf_set CS (ucast UCODE_SEL OR 3) tf s3;
           s5 = tf_set RFLAGS 0x202 tf s4;
           s6 = tf_set RSP user_rsp tf s5;
           s7 = tf_set SS (ucast UDATA_SEL OR 3) tf s6 in
       Inr (tf, s7))"

section \<open>Processes\<close>

definition KSTACK_SIZE :: u64 where
  "KSTACK_SIZE = 16 * 1024"

text \<open>\<open>Box::new\<close> of a 16 KiB array of zero bytes; the allocation-failure handler panics.\<close>

definition kstack_alloc_top ::
  "'z heap_state_scheme \<Rightarrow> (u64 \<times> 'z heap_state_scheme) outcome" where
  "kstack_alloc_top s =
     and_then (kalloc (KSTACK_SIZE, 1) s) (\<lambda>(r, s1). case r of
       None \<Rightarrow> Inl (Explicit ''memory allocation failed'')
     | Some base \<Rightarrow>
         and_then (add_chk base KSTACK_SIZE) (\<lambda>top. Inr (top, fill_zero base KSTACK_SIZE s1)))"

function map_identity ::
  "u64 \<Rightarrow> u64 \<Rightarrow> u64 \<Rightarrow> 'z pmm_state_scheme \<Rightarrow> 'z pmm_state_scheme outcome" where
  "map_identity pml4 p ke s =
     (if p < ke
      then and_then (map_4k pml4 p p PTE_RW s) (\<lambda>s1.
           and_then (add_chk p PAGE_SIZE) (\<lambda>p'. map_identity pml4 p' ke s1))
      else Inr s)"
  by pat_completeness auto
termination
proof (relation "measure (\<lambda>(pml4, p, ke, s). 2 ^ 64 - unat p)", goal_cases)
  case (2 pml4 p ke s s1 p')
  then have "unat p' = unat p + 4096" "unat p + 4096 < 2 ^ 64"
    by (auto simp: add_chk_nat unat_add_no_wrap split: if_splits)
  then show ?case by simp
qed simp

declare map_identity.simps [simp del]

definition USER_STACK_TOP :: u64 where
  "USER_STACK_TOP = 0x20000000"

definition USER_CODE_V :: u64 where
  "USER_CODE_V = 0x10000000"

fun map_stack :: "u64 \<Rightarrow> nat list \<Rightarrow> 'z pmm_state_scheme \<Rightarrow> 'z pmm_state_scheme outcome" where
  "map_stack pml4 [] s = Inr s"
| "map_stack pml4 (i # is) s =
     and_then (alloc_frame s) (\<lambda>(r, s1).
     and_then (expect ''user: alloc_frame stack'' r) (\<lambda>sp.
     and_then (map_4k pml4 (USER_STACK_TOP - 4 * PAGE_SIZE + of_nat i * PAGE_SIZE) sp
                 (PTE_U OR PTE_RW) s1) (\<lambda>s2.
     map_stack pml4 is s2)))"

text \<open>Without an embedded program, a four-byte stub is the code: \<open>int 0x80; jmp $\<close>.\<close>

definition load_code ::
  "u64 \<Rightarrow> u8 list \<Rightarrow> 'z pmm_state_scheme \<Rightarrow> (u64 \<times> 'z pmm_state_scheme) outcome" where
  "load_code pml4 INIT_ELF s =
     (if INIT_ELF \<noteq> []
      then and_then (load_elf_into_user pml4 INIT_ELF s) (\<lambda>(r, s1).
           and_then (expect ''user: init ELF load failed'' r) (\<lambda>entry_v. Inr (entry_v, s1)))
      else and_then (alloc_frame s) (\<lambda>(r, s1).
           and_then (expect ''user: alloc_frame code'' r) (\<lambda>code_p.
           and_then (map_4k pml4 USER_CODE_V code_p PTE_U s1) (\<lambda>s2.
           let code_ptr = phys_to_virt code_p;
               s3 = vwrite8 code_ptr 0xCD s2;
               s4 = vwrite8 (code_ptr + 1) 0x80 s3;
               s5 = vwrite8 (code_ptr + 2) 0xEB s4;
               s6 = vwrite8 (code_ptr + 3) 0xFE s5 in
           Inr (USER_CODE_V, s6)))))"

definition build_proc_from_init ::
  "u8 list \<Rightarrow> u64 \<Rightarrow> u64 \<Rightarrow> 'z user_state_scheme
     \<Rightarrow> ((u64 \<times> u64 \<times> u64 \<times> u64) \<times> 'z user_state_scheme) outcome" where
  "build_proc_from_init INIT_ELF role init_ep_cap s =
     (if BOOT_KB s = 0 \<or> BOOT_KE s = 0 \<or> BOOT_MAX s = 0
      then Inl (Explicit ''user: boot params not set'')
      else and_then (user_alloc_table s) (\<lambda>(pml4, s1).
        let kb = align_down (BOOT_KB s) PAGE_SIZE in
        and_then (align_up (BOOT_KE s) PAGE_SIZE) (\<lambda>ke.
        and_then (map_identity pml4 kb ke s1) (\<lambda>s2.
        and_then (map_hhdm_huge pml4 (BOOT_MAX s) s2) (\<lambda>s3.
        and_then (map_stack pml4 [0..<4] s3) (\<lambda>s4.
        let user_rsp = USER_STACK_TOP - 8 in
        and_then (load_code pml4 INIT_ELF s4) (\<lambda>(entry_v, s5).
        and_then (kstack_alloc_top s5) (\<lambda>(kst, s6).
        and_then (build_initial_tf kst entry_v user_rsp role init_ep_cap s6) (\<lambda>(tf, s7).
        Inr ((tf, kst, pml4, entry_v), s7))))))))))"

definition spawn_init_from_syscall ::
  "u8 list \<Rightarrow> u64 \<Rightarrow> u64 \<Rightarrow> u32 \<Rightarrow> 'z user_state_scheme
     \<Rightarrow> (u64 \<times> 'z user_state_scheme) outcome" where
  "spawn_init_from_syscall INIT_ELF prog_id role share_cap s =
     (if prog_id \<noteq> 1 then Inr (u64_max, s)
      else let ep_id = (if share_cap \<noteq> 0
                        then (case cap_lookup_current share_cap s of None \<Rightarrow> 0 | Some e \<Rightarrow> e)
                        else 0) in
        and_then (build_proc_from_init INIT_ELF role 0 s) (\<lambda>((tf, kst, root, entry_v), s1).
        case spawn_proc tf kst root s1 of
          (None, s2) \<Rightarrow> Inr (u64_max, s2)
        | (Some pid, s2) \<Rightarrow>
            let (child_cap, s3) =
                  (if ep_id \<noteq> 0
                   then (case cap_alloc_for pid ep_id s2 of
                           (None, s3) \<Rightarrow> (0, s3)
                         | (Some c, s3) \<Rightarrow> (ucast c, s3))
                   else (0, s2)) in
            Inr (of_nat pid, tf_set RSI child_cap tf s3)))"

text \<open>The frame that is resumed, and the state after the address space is loaded.\<close>

definition enter_first_user ::
  "u8 list \<Rightarrow> u64 \<Rightarrow> u64 \<Rightarrow> u64 \<Rightarrow> 'z user_state_scheme \<Rightarrow> (u64 \<times> 'z user_state_scheme) outcome" where
  "enter_first_user INIT_ELF kbase kend max_phys_hint s =
     (let s0 = write_str (''user: setting up address space'' @ nl) s;
          s1 = s0\<lparr>BOOT_KB := kbase, BOOT_KE := kend, BOOT_MAX := max_phys_hint\<rparr> in
      and_then (build_proc_from_init INIT_ELF 0 0 s1) (\<lambda>((tf, kst, root, entry_v), s2).
        let s3 = write_str ''user: cr3='' s2;
            s4 = write_hex_u64 root s3;
            s5 = write_str '' entry='' s4;
            s6 = write_hex_u64 entry_v s5;
            s7 = write_str nl s6;
            s8 = install_first tf kst root s7;
            s9 = set_rsp0 kst s8 in
        Inr (tf, load_cr3 root s9)))"

end
