(* ===== verification/Pic.thy ===== *)
theory Pic
  imports Machine
begin

text \<open>
  Port output and the interrupt controllers: \<^verbatim>\<open>port.rs\<close>, \<^verbatim>\<open>pic.rs\<close>. Each \<open>outb\<close> appends to the
  sequence of port writes of the machine; a model of the two cascaded controllers interprets that
  sequence, so that lemmas can say what the writes achieve.
\<close>

section \<open>Ports\<close>

definition outb :: "u16 \<Rightarrow> u8 \<Rightarrow> 'z machine_scheme \<Rightarrow> 'z machine_scheme" where
  "outb port val s = s\<lparr>port_writes := port_writes s @ [(port, val)]\<rparr>"

definition io_wait :: "'z machine_scheme \<Rightarrow> 'z machine_scheme" where
  "io_wait s = outb 0x80 0 s"

section \<open>Programming the controllers\<close>

definition PIC1_CMD :: u16 where "PIC1_CMD = 0x20"
definition PIC1_DATA :: u16 where "PIC1_DATA = 0x21"
definition PIC2_CMD :: u16 where "PIC2_CMD = 0xA0"
definition PIC2_DATA :: u16 where "PIC2_DATA = 0xA1"
definition ICW1_INIT :: u8 where "ICW1_INIT = 0x10"
definition ICW1_ICW4 :: u8 where "ICW1_ICW4 = 0x01"
definition ICW4_8086 :: u8 where "ICW4_8086 = 0x01"

definition pic_init :: "'z machine_scheme \<Rightarrow> 'z machine_scheme" where
  "pic_init s =
     (let s = io_wait (outb PIC1_CMD (ICW1_INIT OR ICW1_ICW4) s);
          s = io_wait (outb PIC2_CMD (ICW1_INIT OR ICW1_ICW4) s);
          s = io_wait (outb PIC1_DATA 0x20 s);
          s = io_wait (outb PIC2_DATA 0x28 s);
          s = io_wait (outb PIC1_DATA 0x04 s);
          s = io_wait (outb PIC2_DATA 0x02 s);
          s = io_wait (outb PIC1_DATA ICW4_8086 s);
          s = io_wait (outb PIC2_DATA ICW4_8086 s);
          s = outb PIC1_DATA 0xFA s in
      outb PIC2_DATA 0xFF s)"

definition pic_eoi :: "u8 \<Rightarrow> 'z machine_scheme \<Rightarrow> 'z machine_scheme" where
  "pic_eoi irq s =
     (let s1 = (if 8 \<le> irq then outb PIC2_CMD 0x20 s else s) in outb PIC1_CMD 0x20 s1)"

section \<open>The interrupt controllers as hardware\<close>

text \<open>One 8259A controller: how many initialisation words it still expects, the vector offset, the
  cascade word, the mask, and whether an interrupt is in service.\<close>

record pic8259 =
  icw_step :: nat
  vec_offset :: u8
  cascade :: u8
  irq_mask :: u8
  in_service :: bool

definition pic_cmd_write :: "u8 \<Rightarrow> pic8259 \<Rightarrow> pic8259" where
  "pic_cmd_write v p =
     (if v AND 0x10 \<noteq> 0 then p\<lparr>icw_step := 2, irq_mask := 0, in_service := False\<rparr>
      else if v = 0x20 then p\<lparr>in_service := False\<rparr> else p)"

definition pic_data_write :: "u8 \<Rightarrow> pic8259 \<Rightarrow> pic8259" where
  "pic_data_write v p =
     (if icw_step p = 2 then p\<lparr>vec_offset := v AND 0xF8, icw_step := 3\<rparr>
      else if icw_step p = 3 then p\<lparr>cascade := v, icw_step := 4\<rparr>
      else if icw_step p = 4 then p\<lparr>icw_step := 0\<rparr>
      else p\<lparr>irq_mask := v\<rparr>)"

fun pic_port :: "u16 \<times> u8 \<Rightarrow> pic8259 \<times> pic8259 \<Rightarrow> pic8259 \<times> pic8259" where
  "pic_port (port, v) (m, s) =
     (if port = 0x20 then (pic_cmd_write v m, s)
      else if port = 0x21 then (pic_data_write v m, s)
      else if port = 0xA0 then (m, pic_cmd_write v s)
      else if port = 0xA1 then (m, pic_data_write v s)
      else (m, s))"

definition pics_after :: "(u16 \<times> u8) list \<Rightarrow> pic8259 \<times> pic8259 \<Rightarrow> pic8259 \<times> pic8259" where
  "pics_after ws ps = fold pic_port ws ps"

text \<open>The processor vector at which interrupt line \<open>n\<close> of a controller arrives, if it is not masked.\<close>

definition pic_vector :: "pic8259 \<Rightarrow> nat \<Rightarrow> nat option" where
  "pic_vector p n = (if bit (irq_mask p) n then None else Some (unat (vec_offset p) + n))"

lemmas port_simps = outb_def io_wait_def PIC1_CMD_def PIC1_DATA_def PIC2_CMD_def PIC2_DATA_def ICW1_INIT_def
  ICW1_ICW4_def ICW4_8086_def

lemma pic_init_writes: "port_writes (pic_init s) = port_writes s @
   [(0x20, 0x11), (0x80, 0), (0xA0, 0x11), (0x80, 0), (0x21, 0x20), (0x80, 0), (0xA1, 0x28), (0x80, 0),
    (0x21, 4), (0x80, 0), (0xA1, 2), (0x80, 0), (0x21, 1), (0x80, 0), (0xA1, 1), (0x80, 0), (0x21, 0xFA), (0xA1, 0xFF)]"
  by (simp add: pic_init_def Let_def port_simps)

lemma pic_eoi_writes:
  "port_writes (pic_eoi irq s) = port_writes s @ (if 8 \<le> irq then [(0xA0, 0x20)] else []) @ [(0x20, 0x20)]"
  by (simp add: pic_eoi_def Let_def port_simps)

lemma pics_after_append: "pics_after (ws @ ws') ps = pics_after ws' (pics_after ws ps)"
  by (simp add: pics_after_def)

lemma acknowledged: "\<not> in_service (fst (pics_after (ws @ [(0x20, 0x20)]) ps))"
  by (cases "pics_after ws ps") (simp add: pics_after_append, simp add: pics_after_def pic_cmd_write_def)

end
