(* ===== verification/Isr.thy ===== *)
theory Isr
  imports User Pic
begin

text \<open>
  Interrupt and system-call handling, \<^verbatim>\<open>kernel/src/arch/x86_64/isr.rs\<close>: the software page walk and
  the copies between kernel and user memory, the whole \<open>int 0x80\<close> handler, direct delivery of a
  message to a blocked receiver, the timer handler, and the entry and exit stubs that save and restore
  the registers. The handlers read and write the trap frame in memory, at the address the stub passes.
\<close>

section \<open>Access to user memory\<close>

definition virt_to_phys_in :: "u64 \<Rightarrow> u64 \<Rightarrow> 'z machine_scheme \<Rightarrow> u64 option" where
  "virt_to_phys_in pml4_phys virt s =
     (let pml4 = pml4_phys AND ADDR_MASK; off = virt AND 0xfff; PU = PTE_P OR PTE_U;
          pml4e = vread64 (phys_to_virt pml4 + 8 * pt_index 39 virt) s in
      if pml4e AND PU \<noteq> PU then None
      else let pdpt = pml4e AND ADDR_MASK;
               pdpte = vread64 (phys_to_virt pdpt + 8 * pt_index 30 virt) s in
      if pdpte AND PU \<noteq> PU then None
      else let pd = pdpte AND ADDR_MASK;
               pde = vread64 (phys_to_virt pd + 8 * pt_index 21 virt) s in
      if pde AND PU \<noteq> PU then None
      else let pt = pde AND ADDR_MASK;
               pte = vread64 (phys_to_virt pt + 8 * pt_index 12 virt) s in
      if pte AND PU \<noteq> PU then None
      else Some ((pte AND ADDR_MASK) + off))"

definition current_user_pml4 :: "'z machine_scheme \<Rightarrow> u64" where
  "current_user_pml4 s = cr3 s AND ADDR_MASK"

definition user_virt_to_phys :: "u64 \<Rightarrow> 'z machine_scheme \<Rightarrow> u64 option" where
  "user_virt_to_phys virt s =
     (let pml4 = current_user_pml4 s; off = virt AND 0xfff; PU = PTE_P OR PTE_U;
          pml4e = vread64 (phys_to_virt pml4 + 8 * pt_index 39 virt) s in
      if pml4e AND PU \<noteq> PU then None
      else let pdpt = pml4e AND ADDR_MASK;
               pdpte = vread64 (phys_to_virt pdpt + 8 * pt_index 30 virt) s in
      if pdpte AND PU \<noteq> PU then None
      else let pd = pdpte AND ADDR_MASK;
               pde = vread64 (phys_to_virt pd + 8 * pt_index 21 virt) s in
      if pde AND PU \<noteq> PU then None
      else let pt = pde AND ADDR_MASK;
               pte = vread64 (phys_to_virt pt + 8 * pt_index 12 virt) s in
      if pte AND PU \<noteq> PU then None
      else Some ((pte AND ADDR_MASK) + off))"

text \<open>The copies go byte by byte and stop at the first address that does not translate; the bytes
  before it have been copied. The pointer wraps around.\<close>

fun user_copy_out_in ::
  "u64 \<Rightarrow> u64 \<Rightarrow> u8 list \<Rightarrow> 'z machine_scheme \<Rightarrow> unit option \<times> 'z machine_scheme" where
  "user_copy_out_in pml4_phys user_ptr [] s = (Some (), s)"
| "user_copy_out_in pml4_phys user_ptr (b # src) s =
     (case virt_to_phys_in pml4_phys user_ptr s of
        None \<Rightarrow> (None, s)
      | Some p \<Rightarrow> user_copy_out_in pml4_phys (user_ptr + 1) src (vwrite8 (phys_to_virt p) b s))"

fun user_copy_out :: "u64 \<Rightarrow> u8 list \<Rightarrow> 'z machine_scheme \<Rightarrow> unit option \<times> 'z machine_scheme" where
  "user_copy_out user_ptr [] s = (Some (), s)"
| "user_copy_out user_ptr (b # src) s =
     (case user_virt_to_phys user_ptr s of
        None \<Rightarrow> (None, s)
      | Some p \<Rightarrow> user_copy_out (user_ptr + 1) src (vwrite8 (phys_to_virt p) b s))"

fun user_copy_in :: "nat \<Rightarrow> u64 \<Rightarrow> 'z machine_scheme \<Rightarrow> u8 list option" where
  "user_copy_in 0 user_ptr s = Some []"
| "user_copy_in (Suc n) user_ptr s =
     (case user_virt_to_phys user_ptr s of
        None \<Rightarrow> None
      | Some p \<Rightarrow> map_option (Cons (vread8 (phys_to_virt p) s)) (user_copy_in n (user_ptr + 1) s))"

section \<open>The system calls\<close>

definition SYS_PUTC :: u64 where
  "SYS_PUTC = 1"

definition SYS_YIELD :: u64 where
  "SYS_YIELD = 2"

definition SYS_WRITE :: u64 where
  "SYS_WRITE = 3"

definition SYS_IPC_EP_CREATE :: u64 where
  "SYS_IPC_EP_CREATE = 0x10"

definition SYS_IPC_SEND :: u64 where
  "SYS_IPC_SEND = 0x11"

definition SYS_IPC_RECV :: u64 where
  "SYS_IPC_RECV = 0x12"

definition SYS_IPC_SEND_CAP :: u64 where
  "SYS_IPC_SEND_CAP = 0x13"

definition SYS_IPC_RECV_CAP :: u64 where
  "SYS_IPC_RECV_CAP = 0x14"

definition SYS_PROC_SPAWN :: u64 where
  "SYS_PROC_SPAWN = 0x20"

definition deliver_ipc ::
  "nat \<Rightarrow> u8 list \<Rightarrow> u32 \<Rightarrow> 'z sched_state_scheme \<Rightarrow> u64 \<times> 'z sched_state_scheme" where
  "deliver_ipc pid msg xfer s =
     (case proc_cr3 pid s of None \<Rightarrow> (u64_max, s)
      | Some root \<Rightarrow>
     (case proc_tf_rsp pid s of None \<Rightarrow> (u64_max, s)
      | Some tf \<Rightarrow>
        let user_ptr = tf_get RSI tf s;
            max_len = min (unat (tf_get RDX tf s)) 1024;
            n = min (min max_len 256) (length msg) in
        case user_copy_out_in root user_ptr (take n msg) s of
          (None, s1) \<Rightarrow> (u64_max, s1)
        | (Some _, s1) \<Rightarrow>
            let s2 = tf_set RAX (of_nat n) tf s1;
                s3 = tf_set RDX 0 tf s2;
                s4 = (if xfer \<noteq> 0
                      then (case cap_alloc_for pid xfer s3 of
                              (Some new_cap, s') \<Rightarrow> tf_set RDX (ucast new_cap) tf s'
                            | (None, s') \<Rightarrow> s')
                      else s3) in
            (of_nat n, wake pid s4)))"

text \<open>Each branch of the handler returns the frame to switch to (0: stay).\<close>

definition sys_putc ::
  "u64 \<Rightarrow> 'z user_state_scheme \<Rightarrow> (u64 \<times> 'z user_state_scheme) outcome" where
  "sys_putc tf s = Inr (0, tf_set RAX 0 tf (write_byte (ucast (tf_get RDI tf s)) s))"

definition sys_yield ::
  "u64 \<Rightarrow> 'z user_state_scheme \<Rightarrow> (u64 \<times> 'z user_state_scheme) outcome" where
  "sys_yield tf s = yield_from_syscall tf (tf_set RAX 0 tf s)"

fun write_loop :: "nat \<Rightarrow> nat \<Rightarrow> u64 \<Rightarrow> 'z machine_scheme \<Rightarrow> nat \<times> 'z machine_scheme" where
  "write_loop 0 written v s = (written, s)"
| "write_loop (Suc n) written v s =
     (case user_virt_to_phys v s of
        None \<Rightarrow> (written, s)
      | Some p \<Rightarrow> write_loop n (Suc written) (v + 1) (write_byte (vread8 (phys_to_virt p) s) s))"

definition sys_write ::
  "u64 \<Rightarrow> 'z user_state_scheme \<Rightarrow> (u64 \<times> 'z user_state_scheme) outcome" where
  "sys_write tf s =
     (let (written, s1) = write_loop (min (unat (tf_get RSI tf s)) 1024) 0 (tf_get RDI tf s) s in
      Inr (0, tf_set RAX (of_nat written) tf s1))"

definition sys_ep_create ::
  "u64 \<Rightarrow> 'z user_state_scheme \<Rightarrow> (u64 \<times> 'z user_state_scheme) outcome" where
  "sys_ep_create tf s = (let (r, s1) = ep_create s in Inr (0, tf_set RAX r tf s1))"

text \<open>The common part of the two send calls: deliver to a waiting receiver, or queue.\<close>

definition send_from ::
  "u64 \<Rightarrow> u32 \<Rightarrow> u32 \<Rightarrow> 'z user_state_scheme \<Rightarrow> (u64 \<times> 'z user_state_scheme) outcome" where
  "send_from tf cap xfer s =
     (let n = min (min (unat (tf_get RDX tf s)) 1024) 256 in
      case user_copy_in n (tf_get RSI tf s) s of
        None \<Rightarrow> Inr (0, tf_set RAX u64_max tf s)
      | Some tmp \<Rightarrow>
          (case cap_lookup_current cap s of
             None \<Rightarrow> Inr (0, tf_set RAX u64_max tf s)
           | Some ep_id \<Rightarrow>
               and_then (waiter_pop ep_id s) (\<lambda>(w, s1). case w of
                 Some pid \<Rightarrow>
                   let (r, s2) = deliver_ipc pid tmp xfer s1 in Inr (0, tf_set RAX r tf s2)
               | None \<Rightarrow>
                   and_then (ep_send_cap cap tmp xfer s1) (\<lambda>(r, s2).
                     Inr (0, tf_set RAX r tf s2)))))"

definition sys_send ::
  "u64 \<Rightarrow> 'z user_state_scheme \<Rightarrow> (u64 \<times> 'z user_state_scheme) outcome" where
  "sys_send tf s = send_from tf (ucast (tf_get RDI tf s)) 0 s"

definition sys_send_cap ::
  "u64 \<Rightarrow> 'z user_state_scheme \<Rightarrow> (u64 \<times> 'z user_state_scheme) outcome" where
  "sys_send_cap tf s =
     (let cap = ucast (tf_get RDI tf s); xfer_cap = ucast (tf_get RCX tf s) in
      if xfer_cap = 0 then send_from tf cap 0 s
      else case cap_lookup_current xfer_cap s of
        None \<Rightarrow> Inr (0, tf_set RAX u64_max tf s)
      | Some ep \<Rightarrow> send_from tf cap ep s)"

text \<open>The common part of the two receive calls when nothing is queued: block on the endpoint if
  another process can run. The second component says whether the caller was blocked.\<close>

definition recv_block ::
  "u64 \<Rightarrow> u32 \<Rightarrow> u64 \<Rightarrow> 'z user_state_scheme \<Rightarrow> (u64 \<times> bool \<times> 'z user_state_scheme) outcome" where
  "recv_block tf cap got s =
     (if got = E_EMPTY \<and> has_other_runnable s
      then case cap_lookup_current cap s of
        None \<Rightarrow> Inr (0, False, tf_set RAX u64_max tf s)
      | Some ep_id \<Rightarrow>
          and_then (waiter_push ep_id (current_pid s) s) (\<lambda>(ok, s1).
            if ok
            then and_then (block_current_on_ep ep_id s1) (\<lambda>s2.
                 and_then (yield_from_syscall tf s2) (\<lambda>(switch_to, s3). Inr (switch_to, True, s3)))
            else Inr (0, False, tf_set RAX got tf s1))
      else Inr (0, False, tf_set RAX got tf s))"

definition sys_recv ::
  "u64 \<Rightarrow> 'z user_state_scheme \<Rightarrow> (u64 \<times> 'z user_state_scheme) outcome" where
  "sys_recv tf s =
     (let cap = ucast (tf_get RDI tf s); user_ptr = tf_get RSI tf s;
          n = min (min (unat (tf_get RDX tf s)) 1024) 256 in
      and_then (ep_recv cap (replicate n 0) s) (\<lambda>(got, tmp, s1).
        if got = E_INVAL \<or> got = E_EMPTY
        then and_then (recv_block tf cap got s1) (\<lambda>(sw, b, s2). Inr (sw, s2))
        else case user_copy_out user_ptr (take (unat got) tmp) s1 of
          (Some _, s2) \<Rightarrow> Inr (0, tf_set RAX got tf s2)
        | (None, s2) \<Rightarrow> Inr (0, tf_set RAX u64_max tf s2)))"

definition sys_recv_cap ::
  "u64 \<Rightarrow> 'z user_state_scheme \<Rightarrow> (u64 \<times> 'z user_state_scheme) outcome" where
  "sys_recv_cap tf s =
     (let cap = ucast (tf_get RDI tf s); user_ptr = tf_get RSI tf s;
          n = min (min (unat (tf_get RDX tf s)) 1024) 256 in
      and_then (ep_recv_cap cap (replicate n 0) s) (\<lambda>(got, xfer, tmp, s1).
        if got = E_INVAL \<or> got = E_EMPTY
        then and_then (recv_block tf cap got s1) (\<lambda>(sw, blocked, s2).
               Inr (sw, if blocked then s2 else tf_set RDX 0 tf s2))
        else case user_copy_out user_ptr (take (unat got) tmp) s1 of
          (Some _, s2) \<Rightarrow>
            let s3 = tf_set RDX 0 tf s2;
                s4 = (if xfer \<noteq> 0
                      then (case cap_alloc_current xfer s3 of
                              (Some new_cap, s') \<Rightarrow> tf_set RDX (ucast new_cap) tf s'
                            | (None, s') \<Rightarrow> tf_set RDX 0 tf s')
                      else s3) in
            Inr (0, tf_set RAX got tf s4)
        | (None, s2) \<Rightarrow> Inr (0, tf_set RDX 0 tf (tf_set RAX u64_max tf s2))))"

definition sys_spawn ::
  "u8 list \<Rightarrow> u64 \<Rightarrow> 'z user_state_scheme \<Rightarrow> (u64 \<times> 'z user_state_scheme) outcome" where
  "sys_spawn INIT_ELF tf s =
     and_then (spawn_init_from_syscall INIT_ELF (tf_get RDI tf s) (tf_get RSI tf s)
                 (ucast (tf_get RDX tf s)) s) (\<lambda>(r, s1).
       Inr (0, tf_set RAX r tf s1))"

definition mantra_syscall80_rust ::
  "u8 list \<Rightarrow> u64 \<Rightarrow> 'z user_state_scheme \<Rightarrow> (u64 \<times> 'z user_state_scheme) outcome" where
  "mantra_syscall80_rust INIT_ELF tf s =
     (let n = tf_get RAX tf s in
      if n = SYS_PUTC then sys_putc tf s
      else if n = SYS_YIELD then sys_yield tf s
      else if n = SYS_WRITE then sys_write tf s
      else if n = SYS_IPC_EP_CREATE then sys_ep_create tf s
      else if n = SYS_IPC_SEND then sys_send tf s
      else if n = SYS_IPC_RECV then sys_recv tf s
      else if n = SYS_IPC_SEND_CAP then sys_send_cap tf s
      else if n = SYS_IPC_RECV_CAP then sys_recv_cap tf s
      else if n = SYS_PROC_SPAWN then sys_spawn INIT_ELF tf s
      else let s1 = write_str ''SYS: unknown int80 n='' s;
               s2 = write_hex_u64 n s1;
               s3 = write_str nl s2 in
           Inr (0, tf_set RAX u64_max tf s3))"

text \<open>The end-of-interrupt command to the interrupt controller has no effect on the modelled state.\<close>

definition mantra_timer_irq_rust ::
  "u64 \<Rightarrow> 'z sched_state_scheme \<Rightarrow> (u64 \<times> 'z sched_state_scheme) outcome" where
  "mantra_timer_irq_rust tf s = on_timer_irq tf (pic_eoi 0 s)"

section \<open>Entry and exit\<close>

text \<open>The register contents of an interrupted user process. The processor pushes the first five
  words onto the ring-0 stack, the stub the other fifteen.\<close>

type_synonym regs = "tf_field \<Rightarrow> u64"

definition cpu_push_order :: "tf_field list" where
  "cpu_push_order = [SS, RSP, RFLAGS, CS, RIP]"

definition stub_push_order :: "tf_field list" where
  "stub_push_order = [RAX, RBX, RCX, RDX, RBP, RDI, RSI, R8, R9, R10, R11, R12, R13, R14, R15]"

definition trap_return_order :: "tf_field list" where
  "trap_return_order = [R15, R14, R13, R12, R11, R10, R9, R8, RSI, RDI, RBP, RDX, RCX, RBX, RAX]"

definition iretq_order :: "tf_field list" where
  "iretq_order = [RIP, CS, RFLAGS, RSP, SS]"

definition push_word :: "u64 \<Rightarrow> u64 \<times> 'z machine_scheme \<Rightarrow> u64 \<times> 'z machine_scheme" where
  "push_word v st = (case st of (sp, s) \<Rightarrow> (sp - 8, vwrite64 (sp - 8) v s))"

definition push_regs :: "regs \<Rightarrow> u64 \<Rightarrow> 'z machine_scheme \<Rightarrow> u64 \<times> 'z machine_scheme" where
  "push_regs r sp s = fold (\<lambda>f. push_word (r f)) (cpu_push_order @ stub_push_order) (sp, s)"

fun pop_regs :: "tf_field list \<Rightarrow> u64 \<Rightarrow> 'z machine_scheme \<Rightarrow> regs \<Rightarrow> regs" where
  "pop_regs [] sp s r = r"
| "pop_regs (f # fs) sp s r = pop_regs fs (sp + 8) s (r(f := vread64 sp s))"

definition mantra_trap_return :: "u64 \<Rightarrow> 'z machine_scheme \<Rightarrow> regs" where
  "mantra_trap_return sp s = pop_regs (trap_return_order @ iretq_order) sp s (\<lambda>_. 0)"

text \<open>The processor aligns the ring-0 stack pointer of the TSS to 16 bytes before it pushes.\<close>

definition ring0_stack :: "'z machine_scheme \<Rightarrow> u64" where
  "ring0_stack s = align_down (tss_rsp0 s) 16"

text \<open>After the handler: a non-zero result is the stack pointer of the process to resume.\<close>

definition stub_exit :: "u64 \<Rightarrow> u64 \<times> 'z sched_state_scheme \<Rightarrow> regs \<times> 'z sched_state_scheme" where
  "stub_exit tf res = (case res of (r, s) \<Rightarrow>
     if r = 0 then (mantra_trap_return tf s, s)
     else let s' = s\<lparr>cr3 := MANTRA_NEXT_CR3 s\<rparr> in (mantra_trap_return r s', s'))"

definition mantra_syscall80_stub ::
  "u8 list \<Rightarrow> regs \<Rightarrow> 'z user_state_scheme \<Rightarrow> (regs \<times> 'z user_state_scheme) outcome" where
  "mantra_syscall80_stub INIT_ELF r s =
     (let (tf, s1) = push_regs r (ring0_stack s) s in
      and_then (mantra_syscall80_rust INIT_ELF tf s1) (\<lambda>res. Inr (stub_exit tf res)))"

definition mantra_timer_irq_stub ::
  "regs \<Rightarrow> 'z user_state_scheme \<Rightarrow> (regs \<times> 'z user_state_scheme) outcome" where
  "mantra_timer_irq_stub r s =
     (let (tf, s1) = push_regs r (ring0_stack s) s in
      and_then (mantra_timer_irq_rust tf s1) (\<lambda>res. Inr (stub_exit tf res)))"

end
