(* ===== verification/Kernel_Inv.thy ===== *)
theory Kernel_Inv
  imports Isr
begin

text \<open>
  The invariant of the running kernel, and that every system call and timer interrupt preserves it.
  \<open>kview\<close> is the part of the state the invariant speaks about; operations that only touch memory, the
  allocators or the serial line leave it alone.
\<close>

section \<open>The view of the kernel data\<close>

definition kview :: "'z user_state_scheme \<Rightarrow>
    (bool \<times> nat \<times> u64 \<times> u64 \<times> Proc list) \<times> (Endpoint list \<times> usize) \<times> (u64 \<times> u64)" where
  "kview s = ((INITED s, CURRENT s, TICKS s, MANTRA_NEXT_CR3 s, PROCS s),
     (ENDPOINTS s, NEXT_EP s), (cr3 s, tss_rsp0 s))"

named_theorems kview_simps \<open>operations that leave the kernel data alone\<close>

lemma kview_eqD:
  assumes "kview s' = kview s"
  shows "INITED s' = INITED s" "CURRENT s' = CURRENT s" "TICKS s' = TICKS s"
    "MANTRA_NEXT_CR3 s' = MANTRA_NEXT_CR3 s" "PROCS s' = PROCS s" "ENDPOINTS s' = ENDPOINTS s"
    "NEXT_EP s' = NEXT_EP s" "cr3 s' = cr3 s" "tss_rsp0 s' = tss_rsp0 s"
  using assms by (simp_all add: kview_def)

lemma kview_updates [kview_simps]:
  "kview (s\<lparr>mem := m\<rparr>) = kview s" "kview (s\<lparr>PMM := p\<rparr>) = kview s" "kview (s\<lparr>HEAP := h\<rparr>) = kview s"
  "kview (s\<lparr>serial_out := out\<rparr>) = kview s"
  by (simp_all add: kview_def)

lemma kview_writes [kview_simps]:
  "kview (vwrite64 a v s) = kview s" "kview (vwrite8 a b s) = kview s"
  "kview (tf_set f v tf s) = kview s" "kview (write_byte b s) = kview s"
  "kview (write_str msg s) = kview s" "kview (write_hex_u64 v s) = kview s"
  "kview (fill_zero va n s) = kview s" "kview (zero_page p s) = kview s"
  by (simp_all add: vwrite64_def vwrite8_def tf_set_def serial_eqs fill_zero_def zero_page_def
      kview_updates)

lemma kview_copy_out_in [kview_simps]: "kview (snd (user_copy_out_in root p bs s)) = kview s"
  by (induction root p bs s rule: user_copy_out_in.induct)
    (auto simp: kview_simps split: option.split)

lemma kview_copy_out [kview_simps]: "kview (snd (user_copy_out p bs s)) = kview s"
  by (induction p bs s rule: user_copy_out.induct) (auto simp: kview_simps split: option.split)

lemma kview_write_loop [kview_simps]: "kview (snd (write_loop n w v s)) = kview s"
  by (induction n w v s rule: write_loop.induct) (auto simp: kview_simps split: option.split)

section \<open>Building a process touches only memory and the allocators\<close>

lemma kview_alloc_pages: "alloc_pages n s = Inr (r, s') \<Longrightarrow> kview s' = kview s"
  by (auto simp: alloc_pages_def and_then_eq_Inr_iff kview_simps split: if_splits option.splits)

lemma kview_user_alloc_table: "user_alloc_table s = Inr (t, s') \<Longrightarrow> kview s' = kview s"
  by (auto simp: user_alloc_table_def alloc_table_msg_def and_then_eq_Inr_iff kview_simps
      dest: kview_alloc_pages)

lemma kview_get_or_alloc: "get_or_alloc_table e fl s = Inr (t, s') \<Longrightarrow> kview s' = kview s"
  by (auto simp: get_or_alloc_table_def and_then_eq_Inr_iff kview_simps Let_def
      split: if_splits dest: kview_user_alloc_table)

lemma kview_map_4k: "map_4k pml4 v p fl s = Inr s' \<Longrightarrow> kview s' = kview s"
  by (auto simp: map_4k_def and_then_eq_Inr_iff kview_simps Let_def dest!: kview_get_or_alloc)

lemma kview_map_seg: "map_seg pml4 fl v e s = Inr s' \<Longrightarrow> kview s' = kview s"
proof (induction pml4 fl v e s rule: map_seg.induct)
  case (1 pml4 fl v e s)
  show ?case
  proof (cases "v < e")
    case True
    with "1.prems" obtain p s1 s2 v' where "alloc_frame s = Inr (Some p, s1)"
      "map_4k pml4 v p fl s1 = Inr s2" "add_chk v PAGE_SIZE = Inr v'" "map_seg pml4 fl v' e s2 = Inr s'"
      by (subst (asm) map_seg.simps) (auto simp: and_then_eq_Inr_iff)
    with "1.IH" [OF True] show ?thesis
      by (metis kview_alloc_pages kview_map_4k alloc_frame_def expect_simps(2))
  next
    case False
    with "1.prems" show ?thesis by (subst (asm) map_seg.simps) simp
  qed
qed

lemma kview_copy_file: "copy_file pml4 v elf fo off n s = Inr (r, s') \<Longrightarrow> kview s' = kview s"
  by (induction pml4 v elf fo off n s rule: copy_file.induct)
    (auto simp: and_then_eq_Inr_iff kview_simps split: option.splits)

lemma kview_zero_bss: "zero_bss pml4 v fz off n s = Inr (r, s') \<Longrightarrow> kview s' = kview s"
  by (induction pml4 v fz off n s rule: zero_bss.induct)
    (auto simp: and_then_eq_Inr_iff kview_simps split: option.splits)

lemma kview_load_segment: "load_segment pml4 elf ph s = Inr (r, s') \<Longrightarrow> kview s' = kview s"
  by (auto simp: load_segment_def and_then_eq_Inr_iff Let_def split: if_splits option.splits
      dest!: kview_map_seg kview_copy_file kview_zero_bss)

lemma kview_load_segments: "load_segments pml4 elf po is s = Inr (r, s') \<Longrightarrow> kview s' = kview s"
  by (induction "is" arbitrary: s)
    (auto simp: and_then_eq_Inr_iff split: option.splits dest!: kview_load_segment)

lemma kview_load_elf: "load_elf_into_user pml4 elf s = Inr (r, s') \<Longrightarrow> kview s' = kview s"
  by (auto simp: load_elf_into_user_def and_then_eq_Inr_iff Let_def split: if_splits
      dest!: kview_load_segments)

lemma kview_load_code: "load_code pml4 elf s = Inr (r, s') \<Longrightarrow> kview s' = kview s"
  by (auto simp: load_code_def and_then_eq_Inr_iff Let_def kview_simps alloc_frame_def
      split: if_splits dest!: kview_load_elf kview_map_4k kview_alloc_pages)

lemma kview_hhdm_fill: "kview (hhdm_fill_pd pd base s) = kview s"
proof -
  have "kview (fold (\<lambda>j s. vwrite64 (table_entry_mut pd (of_nat j)) (g j) s) js s) = kview s" for g js
    by (induction js arbitrary: s) (simp_all add: kview_simps)
  then show ?thesis by (simp add: hhdm_fill_pd_def)
qed

lemma kview_hhdm_chunks: "hhdm_chunks pdpt is s = Inr s' \<Longrightarrow> kview s' = kview s"
  by (induction "is" arbitrary: s)
    (auto simp: and_then_eq_Inr_iff Let_def kview_hhdm_fill kview_simps dest!: kview_user_alloc_table)

lemma kview_map_hhdm: "map_hhdm_huge pml4 m s = Inr s' \<Longrightarrow> kview s' = kview s"
  by (auto simp: map_hhdm_huge_def and_then_eq_Inr_iff Let_def kview_simps
      dest!: kview_hhdm_chunks kview_user_alloc_table)

lemma kview_map_identity: "map_identity pml4 p e s = Inr s' \<Longrightarrow> kview s' = kview s"
proof (induction pml4 p e s rule: map_identity.induct)
  case (1 pml4 p e s)
  show ?case
  proof (cases "p < e")
    case True
    with "1.prems" obtain s1 p' where "map_4k pml4 p p PTE_RW s = Inr s1"
      "add_chk p PAGE_SIZE = Inr p'" "map_identity pml4 p' e s1 = Inr s'"
      by (subst (asm) map_identity.simps) (auto simp: and_then_eq_Inr_iff)
    with "1.IH" [OF True] show ?thesis by (metis kview_map_4k)
  next
    case False
    with "1.prems" show ?thesis by (subst (asm) map_identity.simps) simp
  qed
qed

lemma kview_map_stack: "map_stack pml4 is s = Inr s' \<Longrightarrow> kview s' = kview s"
  by (induction "is" arbitrary: s)
    (auto simp: and_then_eq_Inr_iff alloc_frame_def dest!: kview_map_4k kview_alloc_pages)

lemma kview_kstack: "kstack_alloc_top s = Inr (t, s') \<Longrightarrow> kview s' = kview s"
  by (auto simp: kstack_alloc_top_def kalloc_def and_then_eq_Inr_iff Let_def kview_simps
      split: if_splits option.splits)

lemma kview_initial_tf: "build_initial_tf k e u r c s = Inr (tf, s') \<Longrightarrow> kview s' = kview s"
  by (auto simp: build_initial_tf_def and_then_eq_Inr_iff Let_def kview_simps)

lemma kview_build_proc: "build_proc_from_init elf role c s = Inr (r, s') \<Longrightarrow> kview s' = kview s"
  by (auto simp: build_proc_from_init_def and_then_eq_Inr_iff Let_def split: if_splits
      dest!: kview_initial_tf kview_kstack kview_load_code kview_map_stack kview_map_hhdm
        kview_map_identity kview_user_alloc_table)

section \<open>The invariant\<close>

text \<open>A process in the waiting ring of endpoint \<open>i\<close> is blocked on it and holds a capability for it.\<close>

definition waiter_ok :: "Proc list \<Rightarrow> nat \<Rightarrow> nat \<Rightarrow> bool" where
  "waiter_ok procs i pid \<longleftrightarrow> pid < 8 \<and> alive (procs ! pid) \<and> \<not> runnable (procs ! pid)
     \<and> unat (blocked_ep (procs ! pid)) = i + 1 \<and> blocked_ep (procs ! pid) \<in> set (caps (procs ! pid))"

text \<open>No process waits twice, and an endpoint with a waiting receiver has no message queued.\<close>

definition waiters_ok :: "Proc list \<Rightarrow> Endpoint list \<Rightarrow> bool" where
  "waiters_ok procs eps \<longleftrightarrow> (\<forall>i < 32. distinct (w_contents (eps ! i))
     \<and> (\<forall>pid \<in> set (w_contents (eps ! i)). waiter_ok procs i pid)
     \<and> (w_contents (eps ! i) = [] \<or> q_contents (eps ! i) = []))"

text \<open>Every endpoint number in a capability table or a message has been handed out.\<close>

definition id_ok :: "nat \<Rightarrow> u32 \<Rightarrow> bool" where
  "id_ok k e \<longleftrightarrow> unat e \<le> k \<and> unat e \<le> 32"

definition ids_ok :: "nat \<Rightarrow> Proc list \<Rightarrow> Endpoint list \<Rightarrow> bool" where
  "ids_ok k procs eps \<longleftrightarrow> (\<forall>p \<in> set procs. \<forall>e \<in> set (caps p). id_ok k e)
     \<and> (\<forall>ep \<in> set eps. \<forall>m \<in> set (q_buf ep). id_ok k (xfer_ep m))"

text \<open>The 64-bit counters have been incremented at most \<open>n\<close> times.\<close>

definition counts_ok :: "nat \<Rightarrow> 'z ipc_state_scheme \<Rightarrow> bool" where
  "counts_ok n s \<longleftrightarrow> unat (TICKS s) \<le> n \<and> unat (NEXT_EP s) \<le> n
     \<and> (\<forall>ep \<in> set (ENDPOINTS s). unat (q_tail ep) \<le> n \<and> unat (wait_tail ep) \<le> n)"

definition stacks_ok :: "Proc list \<Rightarrow> bool" where
  "stacks_ok procs \<longleftrightarrow> (\<forall>p \<in> set procs. alive p \<longrightarrow> 16384 \<le> unat (kstack_top p))"

definition core_inv :: "nat \<Rightarrow> 'z user_state_scheme \<Rightarrow> bool" where
  "core_inv n s \<longleftrightarrow> ipc_inv s \<and> INITED s \<and> stacks_ok (PROCS s)
     \<and> ids_ok (unat (NEXT_EP s)) (PROCS s) (ENDPOINTS s) \<and> waiters_ok (PROCS s) (ENDPOINTS s)
     \<and> counts_ok n s"

text \<open>Between two interrupts the current process is ready and runs on its own kernel stack, in its
  own address space.\<close>

definition sys_inv :: "nat \<Rightarrow> 'z user_state_scheme \<Rightarrow> bool" where
  "sys_inv n s \<longleftrightarrow> core_inv n s \<and> ready (PROCS s ! CURRENT s)
     \<and> tss_rsp0 s = kstack_top (PROCS s ! CURRENT s) \<and> cr3 s = p_cr3 (PROCS s ! CURRENT s)"

text \<open>The state after the exit stub has acted on the result of a handler.\<close>

definition exit_state :: "u64 \<Rightarrow> 'z user_state_scheme \<Rightarrow> 'z user_state_scheme" where
  "exit_state r s = (if r = 0 then s else s\<lparr>cr3 := MANTRA_NEXT_CR3 s\<rparr>)"

lemma exit_state_simps [simp]:
  "exit_state 0 s = s" "PROCS (exit_state r s) = PROCS s" "ENDPOINTS (exit_state r s) = ENDPOINTS s"
  "CURRENT (exit_state r s) = CURRENT s" "NEXT_EP (exit_state r s) = NEXT_EP s"
  by (simp_all add: exit_state_def)

lemma core_inv_cong: "kview s' = kview s \<Longrightarrow> core_inv n s' \<longleftrightarrow> core_inv n s"
  by (simp add: kview_def core_inv_def ipc_inv_def sched_inv_def counts_ok_def)

lemma sys_inv_cong: "kview s' = kview s \<Longrightarrow> sys_inv n s' \<longleftrightarrow> sys_inv n s"
  using core_inv_cong [of s' s n] by (auto simp: sys_inv_def kview_def)

lemma core_invD:
  assumes "core_inv n s"
  shows "ipc_inv s" "sched_inv s" "INITED s" "length (PROCS s) = 8" "CURRENT s < 8"
    "length (ENDPOINTS s) = 32" "stacks_ok (PROCS s)"
    "ids_ok (unat (NEXT_EP s)) (PROCS s) (ENDPOINTS s)" "waiters_ok (PROCS s) (ENDPOINTS s)"
    "counts_ok n s"
  using assms sched_invD by (auto simp: core_inv_def ipc_inv_def)

lemma core_inv_mono: "core_inv n s \<Longrightarrow> n \<le> m \<Longrightarrow> core_inv m s"
  by (fastforce simp: core_inv_def counts_ok_def)

lemma waiter_okD: "waiters_ok procs eps \<Longrightarrow> i < 32 \<Longrightarrow> pid \<in> set (w_contents (eps ! i)) \<Longrightarrow> waiter_ok procs i pid"
  by (simp add: waiters_ok_def)

text \<open>Changing a process that is in no waiting ring, or without touching its status.\<close>

lemma waiters_ok_update:
  assumes "waiters_ok procs eps" "length procs = 8"
    "\<And>i. i < 32 \<Longrightarrow> pid \<in> set (w_contents (eps ! i)) \<Longrightarrow> alive p = alive (procs ! pid)
       \<and> runnable p = runnable (procs ! pid) \<and> blocked_ep p = blocked_ep (procs ! pid)
       \<and> set (caps (procs ! pid)) - {0} \<subseteq> set (caps p)"
  shows "waiters_ok (procs[pid := p]) eps"
proof -
  have "waiter_ok (procs[pid := p]) i q" if "i < 32" "q \<in> set (w_contents (eps ! i))" for i q
  proof (cases "q = pid")
    case True
    with that assms(3) [OF that(1)] waiter_okD [OF assms(1) that] assms(2) show ?thesis
      by (auto simp: waiter_ok_def)
  next
    case False
    with waiter_okD [OF assms(1) that] show ?thesis by (simp add: waiter_ok_def)
  qed
  with assms(1) show ?thesis by (simp add: waiters_ok_def)
qed

lemma core_inv_proc:
  assumes "core_inv n s" "proc_ok p" "alive p \<longrightarrow> 16384 \<le> unat (kstack_top p)"
    "\<forall>e \<in> set (caps p). id_ok (unat (NEXT_EP s)) e"
    "\<And>i. i < 32 \<Longrightarrow> pid \<in> set (w_contents (ENDPOINTS s ! i)) \<Longrightarrow> alive p = alive (PROCS s ! pid)
       \<and> runnable p = runnable (PROCS s ! pid) \<and> blocked_ep p = blocked_ep (PROCS s ! pid)
       \<and> set (caps (PROCS s ! pid)) - {0} \<subseteq> set (caps p)"
  shows "core_inv n (s\<lparr>PROCS := (PROCS s)[pid := p]\<rparr>)"
proof -
  note d = core_invD [OF assms(1)]
  have "stacks_ok ((PROCS s)[pid := p])" "ids_ok (unat (NEXT_EP s)) ((PROCS s)[pid := p]) (ENDPOINTS s)"
    using d(7,8) assms(3,4) set_update_subset_insert [of "PROCS s" pid p]
    by (auto simp: stacks_ok_def ids_ok_def)
  moreover have "sched_inv (s\<lparr>PROCS := (PROCS s)[pid := p]\<rparr>)"
    using d(2) assms(2) by (intro sched_inv_update)
  moreover have "waiters_ok ((PROCS s)[pid := p]) (ENDPOINTS s)"
    using d(9,4) assms(5) by (rule waiters_ok_update)
  ultimately show ?thesis
    using assms(1) by (simp add: core_inv_def ipc_inv_def counts_ok_def)
qed

text \<open>The entry of an alive process in the table.\<close>

lemma proc_facts:
  assumes "core_inv n s" "pid < 8"
  shows "proc_ok (PROCS s ! pid)" "alive (PROCS s ! pid) \<longrightarrow> 16384 \<le> unat (kstack_top (PROCS s ! pid))"
    "\<forall>e \<in> set (caps (PROCS s ! pid)). id_ok (unat (NEXT_EP s)) e"
  using assms core_invD [OF assms(1)] sched_invD(3)
  by (auto simp: stacks_ok_def ids_ok_def)

lemma lookup_id_ok:
  assumes "core_inv n s" "cap_lookup_of pid cap s = Some e"
  shows "id_ok (unat (NEXT_EP s)) e" "e \<noteq> 0" "unat e \<le> 32" "unat e - 1 < 32" "pid < 8"
proof -
  from assms(2) have p: "pid < 8" "unat cap - 1 < 32" "e = caps (PROCS s ! pid) ! (unat cap - 1)" "e \<noteq> 0"
    by (auto simp: cap_lookup_of_eq split: if_splits)
  moreover have "length (caps (PROCS s ! pid)) = 32"
    using proc_facts(1) [OF assms(1) p(1)] by (simp add: proc_ok_def)
  ultimately have "e \<in> set (caps (PROCS s ! pid))" by simp
  with proc_facts(3) [OF assms(1) p(1)] show "id_ok (unat (NEXT_EP s)) e" by blast
  then show "unat e \<le> 32" "unat e - 1 < 32" by (auto simp: id_ok_def)
  show "e \<noteq> 0" "pid < 8" using p by simp_all
qed

lemma lookup_current: "cap_lookup_current cap s = cap_lookup_of (CURRENT s) cap s"
  by (simp add: cap_lookup_of_def)

section \<open>Operations of the scheduler\<close>

lemma set_update_zero: "xs ! i = (0 :: u32) \<Longrightarrow> set xs - {0} \<subseteq> set (xs[i := e])"
  by (auto simp: in_set_conv_nth) (metis length_list_update nth_list_update_neq)

lemma lookup_held: "core_inv n s \<Longrightarrow> cap_lookup_of pid cap s = Some e \<Longrightarrow> e \<in> set (caps (PROCS s ! pid))"
  using sched_invD(4) [OF core_invD(2)]
  by (fastforce simp: cap_lookup_of_eq split: if_splits)

lemma core_inv_cap_alloc:
  assumes "core_inv n s" "id_ok (unat (NEXT_EP s)) e"
  shows "core_inv n (snd (cap_alloc_for pid e s))"
  using core_invD(2) [OF assms(1)]
proof (cases rule: cap_alloc_forE [where pid = pid and ep = e])
  case (slot i)
  have "core_inv n (s\<lparr>PROCS := (PROCS s)[pid := (PROCS s ! pid)\<lparr>caps := (caps (PROCS s ! pid))[i := e]\<rparr>]\<rparr>)"
    using proc_facts [OF assms(1) slot(1)] assms(2) set_update_zero [OF slot(4)]
      set_update_subset_insert [of "caps (PROCS s ! pid)" i e]
    by (intro core_inv_proc [OF assms(1)]) (auto simp: proc_ok_def)
  with slot show ?thesis by simp
qed (use assms(1) in auto)

text \<open>What granting a capability leaves alone.\<close>

lemma cap_alloc_shape:
  assumes "sched_inv s" "cap_alloc_for pid e s = (r, s')"
  obtains c where "s' = s\<lparr>PROCS := (PROCS s)[pid := (PROCS s ! pid)\<lparr>caps := c\<rparr>]\<rparr>"
proof -
  have id: "s = s\<lparr>PROCS := (PROCS s)[pid := (PROCS s ! pid)\<lparr>caps := caps (PROCS s ! pid)\<rparr>]\<rparr>" by simp
  from assms(1) have "s' = s \<or> (\<exists>c. s' = s\<lparr>PROCS := (PROCS s)[pid := (PROCS s ! pid)\<lparr>caps := c\<rparr>]\<rparr>)"
    using assms(2) by (cases rule: cap_alloc_forE [where pid = pid and ep = e]) auto
  with id that show thesis by metis
qed

lemma cap_alloc_frame:
  assumes "sched_inv s" "cap_alloc_for pid e s = (r, s')"
  shows "ENDPOINTS s' = ENDPOINTS s" "NEXT_EP s' = NEXT_EP s" "CURRENT s' = CURRENT s"
    "tss_rsp0 s' = tss_rsp0 s" "cr3 s' = cr3 s" "INITED s' = INITED s" "length (PROCS s') = length (PROCS s)"
    "q < 8 \<Longrightarrow> ready (PROCS s' ! q) = ready (PROCS s ! q)"
    "q < 8 \<Longrightarrow> kstack_top (PROCS s' ! q) = kstack_top (PROCS s ! q)"
    "q < 8 \<Longrightarrow> alive (PROCS s' ! q) = alive (PROCS s ! q)"
proof -
  from cap_alloc_shape [OF assms] obtain c where
    s': "s' = s\<lparr>PROCS := (PROCS s)[pid := (PROCS s ! pid)\<lparr>caps := c\<rparr>]\<rparr>" .
  show "ENDPOINTS s' = ENDPOINTS s" "NEXT_EP s' = NEXT_EP s" "CURRENT s' = CURRENT s"
    "tss_rsp0 s' = tss_rsp0 s" "cr3 s' = cr3 s" "INITED s' = INITED s"
    "length (PROCS s') = length (PROCS s)"
    by (simp_all add: s')
  assume "q < 8"
  then show "ready (PROCS s' ! q) = ready (PROCS s ! q)"
    "kstack_top (PROCS s' ! q) = kstack_top (PROCS s ! q)"
    "alive (PROCS s' ! q) = alive (PROCS s ! q)"
    using sched_invD(1) [OF assms(1)] by (cases "q = pid"; simp add: s' ready_def)+
qed

lemma core_inv_wake:
  assumes "core_inv n s" "\<And>i. i < 32 \<Longrightarrow> pid \<notin> set (w_contents (ENDPOINTS s ! i))"
  shows "core_inv n (wake pid s)"
proof (cases "pid < 8 \<and> alive (PROCS s ! pid)")
  case True
  have "core_inv n (s\<lparr>PROCS := (PROCS s)[pid := (PROCS s ! pid)\<lparr>runnable := True, blocked_ep := 0\<rparr>]\<rparr>)"
    using proc_facts [OF assms(1), of pid] True assms(2)
    by (intro core_inv_proc [OF assms(1)]) (auto simp: proc_ok_def)
  with True show ?thesis by (simp add: wake_def MAX_PROCS_def Let_def)
next
  case False
  with assms(1) show ?thesis by (auto simp: wake_def MAX_PROCS_def Let_def)
qed

section \<open>Operations on endpoints\<close>

text \<open>Replacing one endpoint.\<close>

lemma core_inv_endpoint:
  assumes "core_inv n s" "n \<le> m" "i < 32" "ep_ok ep"
    "\<forall>x \<in> set (q_buf ep). id_ok (unat (NEXT_EP s)) (xfer_ep x)"
    "unat (q_tail ep) \<le> m" "unat (wait_tail ep) \<le> m"
    "distinct (w_contents ep)" "\<forall>pid \<in> set (w_contents ep). waiter_ok (PROCS s) i pid"
    "w_contents ep = [] \<or> q_contents ep = []"
  shows "core_inv m (ep_update i ep s)"
proof -
  note d = core_invD [OF core_inv_mono [OF assms(1,2)]]
  have sub: "set ((ENDPOINTS s)[i := ep]) \<subseteq> insert ep (set (ENDPOINTS s))"
    by (rule set_update_subset_insert)
  have "ipc_inv (ep_update i ep s)" using d(1) assms(4) by (rule ipc_inv_ep_update)
  moreover have "ids_ok (unat (NEXT_EP s)) (PROCS s) ((ENDPOINTS s)[i := ep])"
    using d(8) assms(5) sub by (auto simp: ids_ok_def)
  moreover have "waiters_ok (PROCS s) ((ENDPOINTS s)[i := ep])"
    using d(9) d(6) assms(3,8-10) by (auto simp: waiters_ok_def nth_list_update)
  moreover have "counts_ok m (s\<lparr>ENDPOINTS := (ENDPOINTS s)[i := ep]\<rparr>)"
    using d(10) assms(6,7) sub by (auto simp: counts_ok_def)
  ultimately show ?thesis
    using d(3,7) by (simp add: core_inv_def ep_update_def)
qed

lemma endpoint_facts:
  assumes "core_inv n s" "i < 32"
  shows "ep_ok (ENDPOINTS s ! i)" "q_wf (ENDPOINTS s ! i)" "w_inv (ENDPOINTS s ! i)"
    "\<forall>x \<in> set (q_buf (ENDPOINTS s ! i)). id_ok (unat (NEXT_EP s)) (xfer_ep x)"
    "unat (q_tail (ENDPOINTS s ! i)) \<le> n" "unat (wait_tail (ENDPOINTS s ! i)) \<le> n"
    "distinct (w_contents (ENDPOINTS s ! i))"
    "\<forall>pid \<in> set (w_contents (ENDPOINTS s ! i)). waiter_ok (PROCS s) i pid"
    "w_contents (ENDPOINTS s ! i) = [] \<or> q_contents (ENDPOINTS s ! i) = []"
proof -
  note d = core_invD [OF assms(1)]
  have mem: "ENDPOINTS s ! i \<in> set (ENDPOINTS s)" using d(6) assms(2) by simp
  show "ep_ok (ENDPOINTS s ! i)" using d(1) mem by (auto simp: ipc_inv_def list_all_iff)
  then show "q_wf (ENDPOINTS s ! i)" "w_inv (ENDPOINTS s ! i)" by (simp_all add: ep_ok_def)
  show "\<forall>x \<in> set (q_buf (ENDPOINTS s ! i)). id_ok (unat (NEXT_EP s)) (xfer_ep x)"
    "unat (q_tail (ENDPOINTS s ! i)) \<le> n" "unat (wait_tail (ENDPOINTS s ! i)) \<le> n"
    using d(8,10) mem by (auto simp: ids_ok_def counts_ok_def)
  show "distinct (w_contents (ENDPOINTS s ! i))"
    "\<forall>pid \<in> set (w_contents (ENDPOINTS s ! i)). waiter_ok (PROCS s) i pid"
    "w_contents (ENDPOINTS s ! i) = [] \<or> q_contents (ENDPOINTS s ! i) = []"
    using d(9) assms(2) by (auto simp: waiters_ok_def)
qed

lemma ep_update_same: "ep_update i (ENDPOINTS s ! i) s = s"
  by (simp add: ep_update_def)

lemma w_contents_q [simp]:
  "w_contents (ep\<lparr>q_head := h\<rparr>) = w_contents ep" "w_contents (push_result msg x ep) = w_contents ep"
  "q_contents (ep\<lparr>wait_head := wh\<rparr>) = q_contents ep"
  "q_contents (ep\<lparr>waiters := ws, wait_tail := wt\<rparr>) = q_contents ep"
  by (simp_all add: w_contents_def q_contents_def q_ring_def)

text \<open>Taking the first waiting receiver.\<close>

lemma waiter_popE:
  assumes "core_inv n s" "e \<noteq> 0" "unat e - 1 < 32"
  obtains (none) "waiter_pop e s = Inr (None, s)" "w_contents (ENDPOINTS s ! (unat e - 1)) = []"
  | (some) pid s' where "waiter_pop e s = Inr (Some pid, s')" "core_inv n s'"
      "waiter_ok (PROCS s) (unat e - 1) pid"
      "\<And>i. i < 32 \<Longrightarrow> pid \<notin> set (w_contents (ENDPOINTS s' ! i))"
      "s' = s\<lparr>ENDPOINTS := ENDPOINTS s'\<rparr>"
      "\<And>i. i < 32 \<Longrightarrow> q_contents (ENDPOINTS s' ! i) = q_contents (ENDPOINTS s ! i)"
      "pid \<in> set (w_contents (ENDPOINTS s ! (unat e - 1)))"
      "\<And>i. i < 32 \<Longrightarrow> set (w_contents (ENDPOINTS s' ! i)) \<subseteq> set (w_contents (ENDPOINTS s ! i))"
      "pid = hd (w_contents (ENDPOINTS s ! (unat e - 1)))"
proof -
  define i where "i = unat e - 1"
  define ep where "ep = ENDPOINTS s ! i"
  have i: "i < 32" using assms(3) by (simp add: i_def)
  note f = endpoint_facts [OF assms(1) i, folded ep_def]
  note d = core_invD [OF assms(1)]
  have pop: "waiter_pop e s = (case w_contents ep of
      [] \<Rightarrow> Inr (None, s)
    | pid # rest \<Rightarrow> Inr (Some pid, ep_update i (ep\<lparr>wait_head := wait_head ep + 1\<rparr>) s))"
    unfolding waiter_pop_def Let_def i_def [symmetric]
    using assms(2) d(6) i ep_waiter_pop_eq [OF f(3)] ep_update_same [of i s]
    by (simp add: MAX_ENDPOINTS_def ep_def [symmetric] split: list.split)
  show thesis
  proof (cases "w_contents ep")
    case Nil
    with pop none show thesis by (simp add: i_def ep_def)
  next
    case (Cons pid rest)
    let ?ep = "ep\<lparr>wait_head := wait_head ep + 1\<rparr>"
    note w = waiter_pop_contents [OF f(3) Cons]
    have inv: "core_inv n (ep_update i ?ep s)"
      using f w Cons by (intro core_inv_endpoint [OF assms(1) order_refl i])
        (simp_all add: ep_ok_def q_wf_def)
    have ok: "waiter_ok (PROCS s) i pid" using f(8) Cons by simp
    have out: "pid \<notin> set (w_contents (ENDPOINTS (ep_update i ?ep s) ! j))" if "j < 32" for j
    proof (cases "j = i")
      case True
      with d(6) i f(7) Cons w(2) show ?thesis by (simp add: ep_update_def)
    next
      case False
      show ?thesis
      proof
        assume "pid \<in> set (w_contents (ENDPOINTS (ep_update i ?ep s) ! j))"
        with False have "pid \<in> set (w_contents (ENDPOINTS s ! j))" by (simp add: ep_update_def)
        with waiter_okD [OF d(9) that] ok False show False by (auto simp: waiter_ok_def)
      qed
    qed
    have "waiter_pop e s = Inr (Some pid, ep_update i ?ep s)" using pop Cons by simp
    then show thesis
      by (rule some [OF _ inv])
        (use i ok out d(6) w(2) Cons in \<open>auto simp: i_def ep_update_def nth_list_update ep_def\<close>)
  qed
qed

text \<open>Queueing a message on an endpoint nobody waits on.\<close>

lemma core_inv_send:
  assumes "core_inv n s" "n + 1 < 2 ^ 64" "cap_lookup_current cap s = Some e"
    "w_contents (ENDPOINTS s ! (unat e - 1)) = []" "id_ok (unat (NEXT_EP s)) x"
  obtains r s' where "ep_send_cap cap msg x s = Inr (r, s')" "core_inv (n + 1) s'"
    "s' = s\<lparr>ENDPOINTS := ENDPOINTS s'\<rparr>"
    "\<And>i. i < 32 \<Longrightarrow> set (w_contents (ENDPOINTS s' ! i)) = set (w_contents (ENDPOINTS s ! i))"
proof -
  note lk = lookup_id_ok [OF assms(1) assms(3) [unfolded lookup_current]]
  define i where "i = unat e - 1"
  define ep where "ep = ENDPOINTS s ! i"
  have i: "i < 32" using lk(4) by (simp add: i_def)
  note f = endpoint_facts [OF assms(1) i, folded ep_def]
  have t: "unat (q_tail ep) + 1 < 2 ^ 64" using f(5) assms(2) by simp
  have "set (q_buf (push_result msg x ep)) \<subseteq>
      insert (stored msg x (q_buf ep ! (unat (q_tail ep) mod 32))) (set (q_buf ep))"
    unfolding push_result_def by (simp add: set_update_subset_insert)
  then have "\<forall>m \<in> set (q_buf (push_result msg x ep)). id_ok (unat (NEXT_EP s)) (xfer_ep m)"
    using f(4) assms(5) by (auto simp: stored_def)
  then have new: "core_inv (n + 1) (ep_update i (push_result msg x ep) s)"
    using f t assms(4) ep_ok_push [OF f(1) t]
    by (intro core_inv_endpoint [OF assms(1) _ i]) (simp_all add: unat_add_no_wrap i_def ep_def)
  have send: "ep_send_cap cap msg x s = (if (q_tail ep + 1) mod 32 = q_head ep then Inr (E_FULL, s)
      else Inr (of_nat (min (length msg) 256), ep_update i (push_result msg x ep) s))"
    using ep_send_cap_eq [OF core_invD(1) [OF assms(1)] assms(3) lk(3), of msg x, folded i_def,
        unfolded Let_def ep_update_same, folded ep_def] .
  show thesis
  proof (cases "(q_tail ep + 1) mod 32 = q_head ep")
    case True
    with send that [of E_FULL s] core_inv_mono [OF assms(1), of "n + 1"] show thesis by simp
  next
    case False
    have "ep_send_cap cap msg x s = Inr (of_nat (min (length msg) 256), ep_update i (push_result msg x ep) s)"
      using send False by simp
    then show thesis
      by (rule that [OF _ new])
        (use i core_invD(6) [OF assms(1)] in \<open>auto simp: ep_update_def nth_list_update ep_def\<close>)
  qed
qed

text \<open>Taking a message.\<close>

lemma ep_recv_capE:
  assumes "core_inv n s" "length out \<le> 256"
  obtains (bad) "cap_lookup_current cap s = None" "ep_recv_cap cap out s = Inr (E_INVAL, 0, out, s)"
  | (empty) e where "cap_lookup_current cap s = Some e"
      "ep_recv_cap cap out s = Inr (E_EMPTY, 0, out, s)" "q_contents (ENDPOINTS s ! (unat e - 1)) = []"
  | (msg) e d x rest s' where "cap_lookup_current cap s = Some e"
      "q_contents (ENDPOINTS s ! (unat e - 1)) = (d, x) # rest" "length d \<le> 256"
      "ep_recv_cap cap out s = Inr (of_nat (min (length d) (length out)), x,
         take (length out) d @ drop (length d) out, s')"
      "core_inv n s'" "s' = s\<lparr>ENDPOINTS := ENDPOINTS s'\<rparr>" "id_ok (unat (NEXT_EP s)) x"
      "\<And>i. i < 32 \<Longrightarrow> w_contents (ENDPOINTS s' ! i) = w_contents (ENDPOINTS s ! i)"
      "\<And>i. i < 32 \<Longrightarrow> set (q_contents (ENDPOINTS s' ! i)) \<subseteq> set (q_contents (ENDPOINTS s ! i))"
proof (cases "cap_lookup_current cap s")
  case None
  then show thesis by (intro bad) (simp_all add: ep_recv_cap_def)
next
  case (Some e)
  note lk = lookup_id_ok [OF assms(1) Some [unfolded lookup_current]]
  define i where "i = unat e - 1"
  define ep where "ep = ENDPOINTS s ! i"
  have i: "i < 32" using lk(4) by (simp add: i_def)
  note f = endpoint_facts [OF assms(1) i, folded ep_def]
  note r = ep_recv_cap_eq [OF core_invD(1) [OF assms(1)] Some lk(3) assms(2), folded i_def,
      unfolded Let_def ep_update_same, folded ep_def]
  show thesis
  proof (cases "q_contents ep")
    case Nil
    with r Some show thesis by (intro empty) (simp_all add: i_def ep_def)
  next
    case (Cons m rest)
    obtain d x where m: "m = (d, x)" by (cases m)
    let ?ep = "ep\<lparr>q_head := q_head ep + 1\<rparr>"
    have inv: "core_inv n (ep_update i ?ep s)"
      using f ep_ok_pop [OF f(1) Cons] pop_contents(2) [OF f(2) Cons] Cons
      by (intro core_inv_endpoint [OF assms(1) order_refl i]) auto
    have "unat (q_head ep) < unat (q_tail ep)"
      using arg_cong [OF Cons, of length] by (simp add: q_contents_def q_ring_def)
    then have "x = xfer_ep (q_buf ep ! (unat (q_head ep) mod 32))"
      using Cons m by (simp add: q_contents_def q_ring_def ring_list_pop payload_def)
    then have x: "id_ok (unat (NEXT_EP s)) x" using f(2,4) by (simp add: q_wf_def)
    have d: "length d \<le> 256" using q_contents_bound [OF f(2), of m] Cons m by simp
    show thesis
      by (rule msg [OF Some _ d _ inv _ x])
        (use r Cons m i core_invD(6) [OF assms(1)] pop_contents(2) [OF f(2) Cons] in
          \<open>auto simp: i_def ep_def ep_update_def nth_list_update\<close>)
  qed
qed

section \<open>Switching and blocking\<close>

lemma core_inv_save:
  assumes "core_inv n s" "f \<noteq> 0"
  shows "core_inv n (save_frame f s)"
  unfolding save_frame_def
  using proc_facts [OF assms(1) core_invD(5) [OF assms(1)]] assms(2)
  by (intro core_inv_proc [OF assms(1)]) (auto simp: proc_ok_def)

lemma core_inv_current: "core_inv n s \<Longrightarrow> pid < 8 \<Longrightarrow> core_inv n (enter pid s)"
  by (simp add: core_inv_def ipc_inv_def counts_ok_def sched_inv_enter) (simp add: enter_def)

lemma sys_inv_switch:
  assumes "core_inv n s" "f \<noteq> 0"
    "sys_inv n s \<or> (\<exists>pid < 8. pid \<noteq> CURRENT s \<and> ready (PROCS s ! pid))"
  obtains r s' where "switch_from f s = Inr (r, s')" "sys_inv n (exit_state r s')"
    "ENDPOINTS s' = ENDPOINTS s" "NEXT_EP s' = NEXT_EP s" "TICKS s' = TICKS s"
    "map caps (PROCS s') = map caps (PROCS s)" "map alive (PROCS s') = map alive (PROCS s)"
    "map runnable (PROCS s') = map runnable (PROCS s)"
proof -
  note d = core_invD [OF assms(1)]
  have same: "map caps (PROCS (save_frame f s)) = map caps (PROCS s)"
    "map alive (PROCS (save_frame f s)) = map alive (PROCS s)"
    "map runnable (PROCS (save_frame f s)) = map runnable (PROCS s)"
    using d(4,5) by (simp_all add: save_frame_def map_update list_update_same_conv)
  have keep: "kstack_top (PROCS (save_frame f s) ! pid) = kstack_top (PROCS s ! pid)"
    "p_cr3 (PROCS (save_frame f s) ! pid) = p_cr3 (PROCS s ! pid)" if "pid < 8" for pid
    using that d(4) by (cases "pid = CURRENT s"; simp add: save_frame_def)+
  from d(2) show thesis
  proof (cases rule: switch_fromE [where f = f])
    case stay
    then have sy: "sys_inv n s" using assms(3) by blast
    then have "sys_inv n (save_frame f s)"
      using core_inv_save [OF assms(1,2)] ready_save_frame [of "CURRENT s" s f] d(4,5) keep [OF d(5)]
      by (simp add: sys_inv_def) (simp add: save_frame_def)
    then have inv: "sys_inv n (exit_state 0 (save_frame f s))" by simp
    show thesis by (rule that [OF stay(1) inv]) (use same in \<open>simp_all add: save_frame_def\<close>)
  next
    case (switch nxt)
    let ?r = "tf_rsp (PROCS s ! nxt)" and ?t = "enter nxt (save_frame f s)"
    have "?r \<noteq> 0"
      using proc_facts(1) [OF assms(1) switch(3)] switch(4) by (simp add: proc_ok_def ready_def)
    then have ex: "exit_state ?r ?t = ?t\<lparr>cr3 := p_cr3 (PROCS s ! nxt)\<rparr>"
      using keep(2) [OF switch(3)] by (simp add: exit_state_def enter_def)
    have "core_inv n (?t\<lparr>cr3 := p_cr3 (PROCS s ! nxt)\<rparr>)"
      using core_inv_current [OF core_inv_save [OF assms(1,2)] switch(3)]
      by (simp add: core_inv_def ipc_inv_def sched_inv_def counts_ok_def)
    then have inv: "sys_inv n (exit_state ?r ?t)"
      using switch ready_save_frame [of nxt s f] d(4) keep [OF switch(3)]
      by (simp add: ex sys_inv_def) (simp add: enter_def)
    show thesis
      by (rule that [OF switch(1) inv]) (use same in \<open>simp_all add: save_frame_def enter_def\<close>)
  qed
qed

text \<open>While another process is ready besides the current one, at most six processes wait on an
  endpoint, so the waiting ring always has room.\<close>

lemma waiting_bound:
  assumes "core_inv n s" "i < 32" "ready (PROCS s ! CURRENT s)"
    "pid < 8" "pid \<noteq> CURRENT s" "ready (PROCS s ! pid)"
  shows "length (w_contents (ENDPOINTS s ! i)) \<le> 6"
proof -
  note f = endpoint_facts [OF assms(1,2)]
  have "set (w_contents (ENDPOINTS s ! i)) \<subseteq> {..<8} - {CURRENT s, pid}"
    using f(8) assms(3,6) by (auto simp: waiter_ok_def ready_def)
  moreover have "card ({..<8} - {CURRENT s, pid} :: nat set) = 6"
    using assms(4,5) core_invD(5) [OF assms(1)] by (subst card_Diff_subset) auto
  ultimately have "card (set (w_contents (ENDPOINTS s ! i))) \<le> 6"
    by (metis card_mono finite_Diff finite_lessThan)
  with f(7) show ?thesis by (simp add: distinct_card)
qed

lemma not_waiting:
  assumes "core_inv n s" "ready (PROCS s ! pid)" "i < 32"
  shows "pid \<notin> set (w_contents (ENDPOINTS s ! i))"
  using waiter_okD [OF core_invD(9) [OF assms(1)] assms(3)] assms(2)
  by (auto simp: waiter_ok_def ready_def)

lemma has_otherE:
  assumes "has_other_runnable s" "length (PROCS s) = 8"
  obtains pid where "pid < 8" "pid \<noteq> CURRENT s" "ready (PROCS s ! pid)"
  using assms by (auto simp: has_other_runnable_def list_ex_iff in_set_enumerate_eq current_pid_def)

text \<open>Entering the waiting ring and giving up the processor.\<close>

lemma push_and_block:
  assumes "sys_inv n s" "n + 1 < 2 ^ 64" "e \<noteq> 0" "unat e - 1 < 32" "has_other_runnable s"
    "q_contents (ENDPOINTS s ! (unat e - 1)) = []" "e \<in> set (caps (PROCS s ! CURRENT s))"
  obtains s1 s2 where "waiter_push e (CURRENT s) s = Inr (True, s1)"
    "block_current_on_ep e s1 = Inr s2" "core_inv (n + 1) s2" "CURRENT s2 = CURRENT s"
    "\<exists>pid < 8. pid \<noteq> CURRENT s2 \<and> ready (PROCS s2 ! pid)"
    "map caps (PROCS s2) = map caps (PROCS s)" "map alive (PROCS s2) = map alive (PROCS s)" "NEXT_EP s2 = NEXT_EP s" "cr3 s2 = cr3 s"
    "map q_contents (ENDPOINTS s2) = map q_contents (ENDPOINTS s)"
    "map q_buf (ENDPOINTS s2) = map q_buf (ENDPOINTS s)"
    "\<And>pid. pid \<noteq> CURRENT s \<Longrightarrow> PROCS s2 ! pid = PROCS s ! pid"
    "\<And>i. i < 32 \<Longrightarrow> set (w_contents (ENDPOINTS s2 ! i)) \<subseteq> insert (CURRENT s) (set (w_contents (ENDPOINTS s ! i)))"
proof -
  from assms(1) have c: "core_inv n s" and rdy: "ready (PROCS s ! CURRENT s)" by (simp_all add: sys_inv_def)
  note d = core_invD [OF c]
  obtain q where q: "q < 8" "q \<noteq> CURRENT s" "ready (PROCS s ! q)"
    using has_otherE [OF assms(5) d(4)] .
  define i where "i = unat e - 1"
  define ep where "ep = ENDPOINTS s ! i"
  have i: "i < 32" using assms(4) by (simp add: i_def)
  note f = endpoint_facts [OF c i, folded ep_def]
  define ep' where "ep' = ep\<lparr>waiters := (waiters ep)[unat (wait_tail ep) mod 8 := of_nat (CURRENT s)],
                             wait_tail := wait_tail ep + 1\<rparr>"
  have len: "length (w_contents ep) \<le> 6" unfolding ep_def by (rule waiting_bound [OF c i rdy q])
  then have tl: "unat (wait_tail ep) \<le> unat (wait_head ep) + 6" by (simp add: w_contents_def)
  have t: "unat (wait_tail ep) + 1 < 2 ^ 64" using f(6) assms(2) by simp
  have room: "w_room ep" using tl t by (simp add: w_room_def)
  have "(wait_tail ep + 1) mod 8 \<noteq> wait_head ep"
    using ring_full_test [OF t, of 8 "wait_head ep"] f(3) tl
      ring_full_iff [of "unat (wait_head ep)" "unat (wait_tail ep)" 8] by (simp add: w_inv_def)
  then have push: "waiter_push e (CURRENT s) s = Inr (True, ep_update i ep' s)"
    unfolding waiter_push_def Let_def i_def [symmetric]
    using assms(3) d(5,6) i ep_waiter_push_eq [OF f(3), of "CURRENT s"]
    by (simp add: MAX_ENDPOINTS_def ep_def [symmetric] ep'_def)
  define p where "p = (PROCS s ! CURRENT s)\<lparr>runnable := False, blocked_ep := e\<rparr>"
  let ?s0 = "s\<lparr>PROCS := (PROCS s)[CURRENT s := p]\<rparr>"
  have blk: "block_current_on_ep e (ep_update i ep' s) = Inr (ep_update i ep' ?s0)"
    using d(4,5) by (simp add: block_current_on_ep_def ep_update_def current_pid_def Let_def p_def)
  have c0: "core_inv n ?s0"
    using proc_facts [OF c d(5)] not_waiting [OF c rdy]
    by (intro core_inv_proc [OF c]) (auto simp: p_def proc_ok_def)
  note f0 = endpoint_facts [OF c0 i]
  have w: "w_inv ep'" "w_contents ep' = w_contents ep @ [CURRENT s]"
    using waiter_push_contents [OF f(3) room _ ep'_def] d(5) by simp_all
  have ei: "unat e = i + 1" using assms(3) by (simp add: i_def unat_eq_0 [symmetric])
  have c2: "core_inv (n + 1) (ep_update i ep' ?s0)"
  proof (rule core_inv_endpoint [OF c0 _ i])
    show "ep_ok ep'" using w(1) f(2) by (simp add: ep_ok_def q_wf_def ep'_def)
    show "\<forall>x \<in> set (q_buf ep'). id_ok (unat (NEXT_EP ?s0)) (xfer_ep x)" using f(4) by (simp add: ep'_def)
    show "unat (q_tail ep') \<le> n + 1" using f(5) by (simp add: ep'_def)
    show "unat (wait_tail ep') \<le> n + 1" using f(6) t by (simp add: ep'_def unat_add_no_wrap)
    show "distinct (w_contents ep')" using w(2) f(7) not_waiting [OF c rdy i] by (simp add: ep_def)
    show "\<forall>pid \<in> set (w_contents ep'). waiter_ok (PROCS ?s0) i pid"
      using w(2) f0(8) d(4,5) rdy ei assms(7)
      by (auto simp: ep_def waiter_ok_def p_def ready_def)
    show "w_contents ep' = [] \<or> q_contents ep' = []"
      using assms(6) by (simp add: ep'_def ep_def i_def)
  qed simp
  have caps: "map caps (PROCS ?s0) = map caps (PROCS s)" "map alive (PROCS ?s0) = map alive (PROCS s)"
    using d(5,4) by (simp_all add: p_def map_update list_update_same_conv)
  have qs: "map q_contents ((ENDPOINTS s)[i := ep']) = map q_contents (ENDPOINTS s)"
    "map q_buf ((ENDPOINTS s)[i := ep']) = map q_buf (ENDPOINTS s)"
    using i d(6) by (simp_all add: map_update list_update_same_conv ep'_def ep_def)
  have q': "ready (PROCS ?s0 ! q)" using q by simp
  show thesis
    by (rule that [OF push blk c2])
      (use q q' caps qs w(2) i d(6) in \<open>auto simp: ep_update_def nth_list_update ep_def\<close>)
qed

end
