(* ===== verification/Kernel_Steps.thy ===== *)
theory Kernel_Steps
  imports Kernel_Inv
begin

text \<open>
  Every system call and every timer interrupt preserves the kernel invariant and confines authority:
  a process can gain the right to an endpoint only by creating it, by receiving it in a message on an
  endpoint it may use, or by a process that holds it passing it on.
\<close>

section \<open>Authority\<close>

definition auth :: "'z user_state_scheme \<Rightarrow> nat \<Rightarrow> u32 set" where
  "auth s pid = (if alive (PROCS s ! pid) then set (caps (PROCS s ! pid)) - {0} else {})"

definition queued :: "'z user_state_scheme \<Rightarrow> nat \<Rightarrow> u32 set" where
  "queued s i = snd ` set (q_contents (ENDPOINTS s ! i)) - {0}"

text \<open>What the current process may be handed by a receive, and the number it would get for a new
  endpoint.\<close>

definition recvable :: "'z user_state_scheme \<Rightarrow> u32 set" where
  "recvable s = (\<Union>e \<in> auth s (CURRENT s). queued s (unat e - 1))"

definition fresh_ep :: "'z user_state_scheme \<Rightarrow> u32" where
  "fresh_ep s = ucast (NEXT_EP s) + 1"

definition fresh_eps :: "'z user_state_scheme \<Rightarrow> u32 set" where
  "fresh_eps s = (if NEXT_EP s < 32 then {fresh_ep s} else {})"

text \<open>What a process may gain in one step: the current process a new endpoint or what it can receive,
  a process that shares an endpoint with the current one what that one holds, and a process that is
  created what its creator holds.\<close>

definition gainable :: "'z user_state_scheme \<Rightarrow> nat \<Rightarrow> u32 set" where
  "gainable s pid =
     (if pid = CURRENT s then fresh_eps s \<union> recvable s
      else if alive (PROCS s ! pid) \<and> auth s pid \<inter> auth s (CURRENT s) = {} then {}
      else auth s (CURRENT s))"

text \<open>What may be put into the queue of an endpoint in one step: only a process that holds the endpoint
  can put something there, and only what it holds itself.\<close>

definition queueable :: "'z user_state_scheme \<Rightarrow> nat \<Rightarrow> u32 set" where
  "queueable s i = (if \<exists>e \<in> auth s (CURRENT s). unat e = i + 1 then auth s (CURRENT s) else {})"

text \<open>A process that is blocked without being in a waiting ring.\<close>

definition stuck :: "'z user_state_scheme \<Rightarrow> nat \<Rightarrow> bool" where
  "stuck s pid \<longleftrightarrow> alive (PROCS s ! pid) \<and> \<not> runnable (PROCS s ! pid)
     \<and> (\<forall>i < 32. pid \<notin> set (w_contents (ENDPOINTS s ! i)))"

definition confined :: "'z user_state_scheme \<Rightarrow> 'z user_state_scheme \<Rightarrow> bool" where
  "confined s s' \<longleftrightarrow> (\<forall>pid < 8. auth s' pid \<subseteq> auth s pid \<union> gainable s pid)
     \<and> (\<forall>i < 32. queued s' i \<subseteq> queued s i \<union> queueable s i)
     \<and> (\<forall>pid < 8. alive (PROCS s ! pid) \<longrightarrow> alive (PROCS s' ! pid))
     \<and> NEXT_EP s \<le> NEXT_EP s' \<and> (\<forall>pid < 8. stuck s pid \<longrightarrow> stuck s' pid)"

lemma confined_refl: "confined s s"
  by (auto simp: confined_def)

lemma confinedI:
  assumes "\<And>pid. pid < 8 \<Longrightarrow> auth s' pid \<subseteq> auth s pid \<union> gainable s pid"
    "\<And>i. i < 32 \<Longrightarrow> queued s' i \<subseteq> queued s i \<union> queueable s i"
    "\<And>pid. pid < 8 \<Longrightarrow> alive (PROCS s ! pid) \<Longrightarrow> alive (PROCS s' ! pid)" "NEXT_EP s \<le> NEXT_EP s'"
    "\<And>pid. pid < 8 \<Longrightarrow> stuck s pid \<Longrightarrow> stuck s' pid"
  shows "confined s s'"
  using assms by (simp add: confined_def)

lemma auth_cong: "PROCS s' = PROCS s \<Longrightarrow> auth s' = auth s"
  by (simp add: auth_def fun_eq_iff)

lemma queued_cong: "ENDPOINTS s' = ENDPOINTS s \<Longrightarrow> queued s' = queued s"
  by (simp add: queued_def fun_eq_iff)

lemma stuck_cong: "PROCS s' = PROCS s \<Longrightarrow> ENDPOINTS s' = ENDPOINTS s \<Longrightarrow> stuck s' = stuck s"
  by (simp add: stuck_def fun_eq_iff)

lemma confined_kview: "kview s'' = kview s' \<Longrightarrow> confined s s'' \<longleftrightarrow> confined s s'"
  using auth_cong [of s'' s'] queued_cong [of s'' s'] stuck_cong [of s'' s'] by (simp add: confined_def kview_def)

lemma confined_exit [simp]: "confined s (exit_state r s') \<longleftrightarrow> confined s s'"
  using auth_cong [of "exit_state r s'" s'] queued_cong [of "exit_state r s'" s'] stuck_cong [of "exit_state r s'" s']
  by (simp add: confined_def)

lemma auth_lookup:
  assumes "sched_inv s" "cap_lookup_of pid cap s = Some e" "alive (PROCS s ! pid)"
  shows "e \<in> auth s pid"
proof -
  from assms(2) have "pid < 8" "unat cap - 1 < 32" "e = caps (PROCS s ! pid) ! (unat cap - 1)" "e \<noteq> 0"
    by (auto simp: cap_lookup_of_eq split: if_splits)
  with sched_invD(4) [OF assms(1), of pid] assms(3) show ?thesis by (simp add: auth_def)
qed

lemma map_nthD: "map f xs = map f ys \<Longrightarrow> i < length ys \<Longrightarrow> f (xs ! i) = f (ys ! i)"
  by (metis length_map nth_map)

lemma auth_caps:
  assumes "map caps (PROCS s') = map caps (PROCS s)" "map alive (PROCS s') = map alive (PROCS s)"
    "pid < length (PROCS s)"
  shows "auth s' pid = auth s pid"
  using map_nthD [OF assms(1,3)] map_nthD [OF assms(2,3)] by (simp add: auth_def)

lemma confined_caps:
  assumes "map caps (PROCS s') = map caps (PROCS s)" "map alive (PROCS s') = map alive (PROCS s)"
    "length (PROCS s) = 8" "NEXT_EP s' = NEXT_EP s"
    "\<And>i. i < 32 \<Longrightarrow> queued s' i \<subseteq> queued s i \<union> queueable s i"
    "\<And>pid. pid < 8 \<Longrightarrow> stuck s pid \<Longrightarrow> stuck s' pid"
  shows "confined s s'"
  using assms(3-6) auth_caps [OF assms(1,2)] map_nthD [OF assms(2)]
  by (intro confinedI) simp_all

text \<open>Granting a capability.\<close>

lemma auth_cap_alloc:
  assumes "sched_inv s"
  shows "auth (snd (cap_alloc_for pid e s)) q \<subseteq> auth s q \<union> (if q = pid then {e} else {})"
  using assms
proof (cases rule: cap_alloc_forE [where pid = pid and ep = e])
  case (slot i)
  have "set ((caps (PROCS s ! pid))[i := e]) \<subseteq> insert e (set (caps (PROCS s ! pid)))"
    by (rule set_update_subset_insert)
  with slot sched_invD(1) [OF assms] show ?thesis by (cases "q = pid") (auto simp: auth_def)
qed (auto simp: auth_def)

lemma stuck_cap_alloc:
  assumes "sched_inv s"
  shows "stuck (snd (cap_alloc_for pid e s)) = stuck s"
proof
  fix q
  obtain r s' where a: "cap_alloc_for pid e s = (r, s')" by fastforce
  from cap_alloc_shape [OF assms a] obtain c where
    s': "s' = s\<lparr>PROCS := (PROCS s)[pid := (PROCS s ! pid)\<lparr>caps := c\<rparr>]\<rparr>" .
  show "stuck (snd (cap_alloc_for pid e s)) q = stuck s q"
    using sched_invD(1) [OF assms]
    by (cases "q = pid"; cases "pid < 8") (simp_all add: a s' stuck_def list_update_beyond)
qed

lemma queued_cap_alloc: "sched_inv s \<Longrightarrow> queued (snd (cap_alloc_for pid e s)) = queued s"
  using cap_alloc_frame(1) [of s pid e] by (intro queued_cong) (metis prod.collapse)

section \<open>Preservation by the operations\<close>

lemma sys_invD:
  assumes "sys_inv n s"
  shows "core_inv n s" "ready (PROCS s ! CURRENT s)" "sched_inv s" "CURRENT s < 8" "length (PROCS s) = 8"
  using assms core_invD by (auto simp: sys_inv_def)

lemma sys_inv_mono: "sys_inv n s \<Longrightarrow> n \<le> m \<Longrightarrow> sys_inv m s"
  using core_inv_mono by (auto simp: sys_inv_def)

lemma sys_inv_cap_alloc:
  assumes "sys_inv n s" "id_ok (unat (NEXT_EP s)) e"
  shows "sys_inv n (snd (cap_alloc_for pid e s))"
proof -
  note d = sys_invD [OF assms(1)]
  obtain r s' where a: "cap_alloc_for pid e s = (r, s')" by fastforce
  from cap_alloc_shape [OF d(3) a] obtain c where
    s': "s' = s\<lparr>PROCS := (PROCS s)[pid := (PROCS s ! pid)\<lparr>caps := c\<rparr>]\<rparr>" .
  have "ready (PROCS s' ! CURRENT s)" "kstack_top (PROCS s' ! CURRENT s) = kstack_top (PROCS s ! CURRENT s)"
    "p_cr3 (PROCS s' ! CURRENT s) = p_cr3 (PROCS s ! CURRENT s)"
    using d by (cases "CURRENT s = pid"; simp add: s' ready_def)+
  with core_inv_cap_alloc [OF d(1) assms(2), of pid] assms(1) a s' show ?thesis
    by (simp add: sys_inv_def)
qed

lemma sys_inv_wake:
  assumes "sys_inv n s" "\<And>i. i < 32 \<Longrightarrow> pid \<notin> set (w_contents (ENDPOINTS s ! i))"
  shows "sys_inv n (wake pid s)"
proof -
  note d = sys_invD [OF assms(1)]
  have "CURRENT (wake pid s) = CURRENT s" "tss_rsp0 (wake pid s) = tss_rsp0 s" "cr3 (wake pid s) = cr3 s"
    by (simp_all add: wake_def Let_def)
  moreover have "ready (PROCS (wake pid s) ! CURRENT s)"
    "kstack_top (PROCS (wake pid s) ! CURRENT s) = kstack_top (PROCS s ! CURRENT s)"
    "p_cr3 (PROCS (wake pid s) ! CURRENT s) = p_cr3 (PROCS s ! CURRENT s)"
    using d by (cases "CURRENT s = pid"; simp add: wake_def Let_def ready_def)+
  ultimately show ?thesis
    using core_inv_wake [OF d(1) assms(2)] assms(1) by (simp add: sys_inv_def)
qed

lemma auth_wake: "length (PROCS s) = 8 \<Longrightarrow> auth (wake pid s) q = auth s q"
  by (cases "q = pid") (auto simp: wake_def auth_def Let_def MAX_PROCS_def)

lemma wake_keeps:
  "length (PROCS s) = 8 \<Longrightarrow> alive (PROCS (wake pid s) ! q) = alive (PROCS s ! q)"
  "NEXT_EP (wake pid s) = NEXT_EP s"
  by (cases "q = pid"; auto simp: wake_def Let_def MAX_PROCS_def)
    (simp add: wake_def Let_def)

lemma stuck_wake: "q \<noteq> pid \<Longrightarrow> stuck (wake pid s) q = stuck s q"
  by (simp add: wake_def Let_def stuck_def)

lemma queued_wake: "queued (wake pid s) = queued s"
  by (rule queued_cong) (simp add: wake_def Let_def)

text \<open>Direct delivery: memory apart, a capability for the receiver and its waking.\<close>

lemma kview_wake_cong: "kview t = kview s \<Longrightarrow> kview (wake pid t) = kview (wake pid s)"
  by (simp add: kview_def wake_def Let_def)

lemma deliver_ipc_kview:
  fixes s :: "'z user_state_scheme"
  shows "kview (snd (deliver_ipc pid msg x s)) = kview s
   \<or> (\<exists>t :: 'z user_state_scheme. kview t = kview s
        \<and> kview (snd (deliver_ipc pid msg x s))
            = kview (wake pid (if x = 0 then t else snd (cap_alloc_for pid x t))))"
proof (cases "8 \<le> pid")
  case True
  then show ?thesis by (simp add: deliver_ipc_def proc_cr3_def MAX_PROCS_def)
next
  case False
  define tf where "tf = tf_rsp (PROCS s ! pid)"
  define n where "n = min (min (min (unat (tf_get RDX tf s)) 1024) 256) (length msg)"
  obtain r s1 where c: "user_copy_out_in (p_cr3 (PROCS s ! pid)) (tf_get RSI tf s) (take n msg) s = (r, s1)"
    by fastforce
  then have k1: "kview s1 = kview s" by (metis kview_copy_out_in snd_conv)
  define t where "t = tf_set RDX 0 tf (tf_set RAX (of_nat n) tf s1)"
  have kt: "kview t = kview s" using k1 by (simp add: t_def kview_simps)
  show ?thesis
  proof (cases r)
    case None
    with c k1 False show ?thesis
      by (simp add: deliver_ipc_def proc_cr3_def proc_tf_rsp_def MAX_PROCS_def tf_def n_def Let_def)
  next
    case (Some u)
    let ?t4 = "if x \<noteq> 0 then (case cap_alloc_for pid x t of
        (Some new_cap, s') \<Rightarrow> tf_set RDX (ucast new_cap) tf s' | (None, s') \<Rightarrow> s') else t"
    have "deliver_ipc pid msg x s = (of_nat n, wake pid ?t4)"
      unfolding deliver_ipc_def proc_cr3_def proc_tf_rsp_def MAX_PROCS_def Let_def
      using Some c False by (simp add: tf_def [symmetric] n_def [symmetric] t_def)
    then have "snd (deliver_ipc pid msg x s) = wake pid ?t4" by simp
    moreover have k: "kview ?t4 = kview (if x = 0 then t else snd (cap_alloc_for pid x t))"
      by (auto simp: kview_simps split: prod.split option.split)
    ultimately have "kview (snd (deliver_ipc pid msg x s))
        = kview (wake pid (if x = 0 then t else snd (cap_alloc_for pid x t)))"
      using kview_wake_cong [OF k, of pid] by (simp only:)
    with kt show ?thesis by blast
  qed
qed

lemma deliver_post:
  fixes s :: "'z user_state_scheme"
  assumes "sys_inv n s" "\<forall>i < 32. pid \<notin> set (w_contents (ENDPOINTS s ! i))"
    "id_ok (unat (NEXT_EP s)) x"
  shows "sys_inv n (snd (deliver_ipc pid msg x s))"
    "auth (snd (deliver_ipc pid msg x s)) q \<subseteq> auth s q \<union> (if q = pid then {x} - {0} else {})"
    "queued (snd (deliver_ipc pid msg x s)) = queued s"
    "q < 8 \<Longrightarrow> alive (PROCS (snd (deliver_ipc pid msg x s)) ! q) = alive (PROCS s ! q)"
    "NEXT_EP (snd (deliver_ipc pid msg x s)) = NEXT_EP s"
    "q \<noteq> pid \<Longrightarrow> stuck (snd (deliver_ipc pid msg x s)) q = stuck s q"
proof -
  let ?d = "snd (deliver_ipc pid msg x s)"
  consider "kview ?d = kview s"
    | t :: "'z user_state_scheme" where "kview t = kview s" "kview ?d = kview (wake pid (if x = 0 then t else snd (cap_alloc_for pid x t)))"
    using deliver_ipc_kview [of pid msg x s] by blast
  then have "sys_inv n ?d \<and> auth ?d q \<subseteq> auth s q \<union> (if q = pid then {x} - {0} else {})
      \<and> queued ?d = queued s \<and> (q < 8 \<longrightarrow> alive (PROCS ?d ! q) = alive (PROCS s ! q)) \<and> NEXT_EP ?d = NEXT_EP s
      \<and> (q \<noteq> pid \<longrightarrow> stuck ?d q = stuck s q)"
  proof cases
    case 1
    with assms(1) auth_cong [of ?d s] queued_cong [of ?d s] stuck_cong [of ?d s] sys_inv_cong [of ?d s n]
    show ?thesis
      by (simp add: kview_def)
  next
    case (2 t)
    define u where "u = (if x = 0 then t else snd (cap_alloc_for pid x t))"
    have t: "sys_inv n t" "auth t = auth s" "queued t = queued s" "PROCS t = PROCS s"
      "ENDPOINTS t = ENDPOINTS s" "NEXT_EP t = NEXT_EP s" "stuck t = stuck s"
      using 2(1) assms(1) sys_inv_cong [of t s n] auth_cong [of t s] queued_cong [of t s] stuck_cong [of t s]
      by (simp_all add: kview_def)
    note td = sys_invD [OF t(1)]
    obtain r v where a: "cap_alloc_for pid x t = (r, v)" by fastforce
    have fr: "ENDPOINTS u = ENDPOINTS s" "NEXT_EP u = NEXT_EP s" "length (PROCS u) = 8"
      "q < 8 \<Longrightarrow> alive (PROCS u ! q) = alive (PROCS s ! q)"
      using cap_alloc_frame [OF td(3) a] t td(5) by (simp_all add: u_def a)
    have u: "sys_inv n u" "auth u q \<subseteq> auth s q \<union> (if q = pid then {x} - {0} else {})" "queued u = queued s"
      "stuck u = stuck s"
      using sys_inv_cap_alloc [OF t(1), of x pid] auth_cap_alloc [OF td(3), of pid x q]
        queued_cap_alloc [OF td(3), of pid x] stuck_cap_alloc [OF td(3), of pid x] assms(3) t
      by (auto simp: u_def split: if_splits)
    have w: "kview ?d = kview (wake pid u)" using 2(2) by (simp add: u_def)
    then have "sys_inv n ?d" "auth ?d = auth (wake pid u)" "queued ?d = queued (wake pid u)"
      "PROCS ?d = PROCS (wake pid u)" "NEXT_EP ?d = NEXT_EP (wake pid u)" "stuck ?d = stuck (wake pid u)"
      using sys_inv_wake [OF u(1), of pid] assms(2) fr(1) sys_inv_cong [OF w, of n]
        auth_cong [of ?d "wake pid u"] queued_cong [of ?d "wake pid u"] stuck_cong [of ?d "wake pid u"]
      by (simp_all add: kview_def)
    then show ?thesis
      using u auth_wake [OF fr(3)] queued_wake [of pid u] fr(2,4) wake_keeps(1) [OF fr(3)] wake_keeps(2) [of pid u]
        stuck_wake [of q pid u]
      by simp
  qed
  then show "sys_inv n ?d" "auth ?d q \<subseteq> auth s q \<union> (if q = pid then {x} - {0} else {})"
    "queued ?d = queued s" "q < 8 \<Longrightarrow> alive (PROCS ?d ! q) = alive (PROCS s ! q)"
    "NEXT_EP ?d = NEXT_EP s" "q \<noteq> pid \<Longrightarrow> stuck ?d q = stuck s q" by simp_all
qed

text \<open>Creating an endpoint.\<close>

lemma id_ok_mono: "id_ok k e \<Longrightarrow> k \<le> k' \<Longrightarrow> id_ok k' e"
  by (simp add: id_ok_def)

lemma ids_ok_mono: "ids_ok k ps eps \<Longrightarrow> k \<le> k' \<Longrightarrow> ids_ok k' ps eps"
  unfolding ids_ok_def by (blast intro: id_ok_mono)

lemma sys_inv_next_ep:
  assumes "sys_inv n s" "n + 1 < 2 ^ 64"
  shows "sys_inv (n + 1) (s\<lparr>NEXT_EP := NEXT_EP s + 1\<rparr>)"
proof -
  have "unat (NEXT_EP s) \<le> n" using assms(1) by (simp add: sys_inv_def core_inv_def counts_ok_def)
  then have u: "unat (NEXT_EP s + 1) = unat (NEXT_EP s) + 1" using assms(2) by (simp add: unat_add_no_wrap)
  have "ids_ok (unat (NEXT_EP s + 1)) (PROCS s) (ENDPOINTS s)"
    using sys_invD(1) [OF assms(1)] u by (auto simp: core_inv_def intro: ids_ok_mono)
  with sys_inv_mono [OF assms(1), of "n + 1"] assms(1) u show ?thesis
    by (simp add: sys_inv_def core_inv_def ipc_inv_def sched_inv_def counts_ok_def)
qed

lemma fresh_id:
  assumes "unat (NEXT_EP s) < 32"
  shows "unat (fresh_ep s) = unat (NEXT_EP s) + 1"
proof -
  have "unat (ucast (NEXT_EP s) :: u32) = unat (NEXT_EP s)"
    using assms by (simp add: unsigned_ucast_eq take_bit_nat_eq_self)
  with assms show ?thesis by (simp add: fresh_ep_def unat_add_no_wrap)
qed

lemma ep_create_post:
  assumes "sys_inv n s" "n + 1 < 2 ^ 64"
  shows "sys_inv (n + 1) (snd (ep_create s))" "confined s (snd (ep_create s))"
proof -
  let ?t = "s\<lparr>NEXT_EP := NEXT_EP s + 1\<rparr>"
  note t = sys_inv_next_ep [OF assms]
  note td = sys_invD [OF t]
  have "unat (NEXT_EP s) \<le> n" using sys_invD(1) [OF assms(1)] by (simp add: core_inv_def counts_ok_def)
  then have le: "NEXT_EP s \<le> NEXT_EP s + 1" using assms(2) by (simp add: word_le_nat_alt unat_add_no_wrap)
  have "sys_inv (n + 1) (snd (ep_create s)) \<and> confined s (snd (ep_create s))"
  proof (cases "32 \<le> NEXT_EP s")
    case True
    then have e: "snd (ep_create s) = ?t"
      by (simp add: ep_create_def endpoint_alloc_def Let_def MAX_ENDPOINTS_def)
    have "auth ?t = auth s" "queued ?t = queued s" "stuck ?t = stuck s"
      by (auto intro: auth_cong queued_cong stuck_cong)
    with t le show ?thesis unfolding e by (auto intro: confinedI)
  next
    case False
    then have n: "unat (NEXT_EP s) < 32" by (simp add: word_le_nat_alt)
    have "unat (NEXT_EP s + 1) = unat (NEXT_EP s) + 1" using n by (simp add: unat_add_no_wrap)
    then have id: "id_ok (unat (NEXT_EP ?t)) (fresh_ep s)" using n fresh_id [OF n] by (simp add: id_ok_def)
    have e: "snd (ep_create s) = snd (cap_alloc_for (CURRENT s) (fresh_ep s) ?t)"
      using False by (simp add: ep_create_def endpoint_alloc_def Let_def MAX_ENDPOINTS_def
          cap_alloc_current_def current_pid_def fresh_ep_def split: prod.split option.split)
    have same: "auth ?t = auth s" "queued ?t = queued s" "stuck ?t = stuck s"
      by (auto intro: auth_cong queued_cong stuck_cong)
    obtain r u where al: "cap_alloc_for (CURRENT s) (fresh_ep s) ?t = (r, u)" by fastforce
    note fr = cap_alloc_frame [OF td(3) al]
    have "confined s u"
    proof (rule confinedI)
      fix pid :: nat assume "pid < 8"
      show "auth u pid \<subseteq> auth s pid \<union> gainable s pid"
        using auth_cap_alloc [OF td(3), of "CURRENT s" "fresh_ep s" pid] same False
        by (auto simp: al gainable_def fresh_eps_def split: if_splits)
    qed (use queued_cap_alloc [OF td(3), of "CURRENT s" "fresh_ep s"]
        stuck_cap_alloc [OF td(3), of "CURRENT s" "fresh_ep s"] same fr le in \<open>simp_all add: al\<close>)
    then have "confined s (snd (ep_create s))" by (simp add: e al)
    with sys_inv_cap_alloc [OF t id, of "CURRENT s"] e show ?thesis by simp
  qed
  then show "sys_inv (n + 1) (snd (ep_create s))" "confined s (snd (ep_create s))" by simp_all
qed

section \<open>Sending\<close>

lemma sys_inv_endpoints:
  assumes "sys_inv n s" "core_inv m s'" "s' = s\<lparr>ENDPOINTS := ENDPOINTS s'\<rparr>"
  shows "sys_inv m s'"
proof -
  have "PROCS s' = PROCS s" "CURRENT s' = CURRENT s" "tss_rsp0 s' = tss_rsp0 s" "cr3 s' = cr3 s"
    by (subst assms(3), simp)+
  with assms(1,2) show ?thesis by (simp add: sys_inv_def)
qed

lemma q_contents_push_subset:
  assumes "q_wf ep" "unat (q_tail ep) + 1 < 2 ^ 64"
  shows "set (q_contents (push_result msg x ep)) \<subseteq> insert (take 256 msg, x) (set (q_contents ep))"
proof
  fix m assume "m \<in> set (q_contents (push_result msg x ep))"
  then obtain i where i: "unat (q_head ep) \<le> i" "i < Suc (unat (q_tail ep))"
    "m = payload ((q_buf ep)[unat (q_tail ep) mod 32 :=
       stored msg x (q_buf ep ! (unat (q_tail ep) mod 32))] ! (i mod 32))"
    using assms(2)
    by (auto simp: q_contents_def q_ring_def ring_list_def push_result_def unat_add_no_wrap
        simp del: upt_Suc)
  show "m \<in> insert (take 256 msg, x) (set (q_contents ep))"
  proof (cases "i mod 32 = unat (q_tail ep) mod 32")
    case True
    with i assms(1) show ?thesis by (simp add: q_wf_def payload_stored)
  next
    case False
    then have "i < unat (q_tail ep)" using i(2) by (cases "i = unat (q_tail ep)") auto
    with False i show ?thesis by (auto simp: q_contents_def q_ring_def ring_list_def)
  qed
qed

lemma queued_send:
  assumes "core_inv n s" "n + 1 < 2 ^ 64" "cap_lookup_current cap s = Some e"
    "ep_send_cap cap msg x s = Inr (r, s')" "i < 32"
  shows "queued s' i \<subseteq> queued s i \<union> (if i = unat e - 1 then {x} - {0} else {})"
proof -
  note lk = lookup_id_ok [OF assms(1) assms(3) [unfolded lookup_current]]
  define j where "j = unat e - 1"
  have j: "j < 32" using lk(4) by (simp add: j_def)
  note f = endpoint_facts [OF assms(1) j]
  have t: "unat (q_tail (ENDPOINTS s ! j)) + 1 < 2 ^ 64" using f(5) assms(2) by simp
  have "s' = s \<or> s' = ep_update j (push_result msg x (ENDPOINTS s ! j)) s"
    using ep_send_cap_eq [OF core_invD(1) [OF assms(1)] assms(3) lk(3), of msg x, folded j_def,
        unfolded Let_def ep_update_same] assms(4) by (auto split: if_splits)
  then show ?thesis
  proof
    assume s': "s' = ep_update j (push_result msg x (ENDPOINTS s ! j)) s"
    show ?thesis
    proof (cases "i = j")
      case True
      then have "ENDPOINTS s' ! i = push_result msg x (ENDPOINTS s ! j)"
        using core_invD(6) [OF assms(1)] j by (simp add: s' ep_update_def)
      with image_mono [OF q_contents_push_subset [OF f(2) t, of msg x], of snd] True show ?thesis
        by (auto simp: queued_def j_def)
    qed (simp add: s' ep_update_def queued_def)
  qed simp
qed

lemma send_from_post:
  assumes "sys_inv n s" "n + 1 < 2 ^ 64" "x = 0 \<or> x \<in> auth s (CURRENT s)"
  obtains s' where "send_from tf cap x s = Inr (0, s')" "sys_inv (n + 1) s'" "confined s s'"
proof -
  note d = sys_invD [OF assms(1)]
  have id: "id_ok (unat (NEXT_EP s)) x"
    using assms(3) proc_facts(3) [OF d(1,4)] by (auto simp: auth_def id_ok_def split: if_splits)
  have same: "sys_inv (n + 1) (tf_set RAX v tf s)" "confined s (tf_set RAX v tf s)" for v
    using sys_inv_mono [OF assms(1), of "n + 1"] sys_inv_cong [of "tf_set RAX v tf s" s "n + 1"]
      confined_refl [of s] confined_kview [of "tf_set RAX v tf s" s s] by (simp_all add: kview_simps)
  define k where "k = min (min (unat (tf_get RDX tf s)) 1024) 256"
  show thesis
  proof (cases "user_copy_in k (tf_get RSI tf s) s")
    case None
    then have "send_from tf cap x s = Inr (0, tf_set RAX u64_max tf s)"
      by (simp add: send_from_def Let_def k_def)
    then show thesis using that same by blast
  next
    case (Some tmp)
    show thesis
    proof (cases "cap_lookup_current cap s")
      case None
      with Some have "send_from tf cap x s = Inr (0, tf_set RAX u64_max tf s)"
        by (simp add: send_from_def Let_def k_def)
      then show thesis using that same by blast
    next
      case (Some e)
      note lk = lookup_id_ok [OF d(1) Some [unfolded lookup_current]]
      have send: "send_from tf cap x s = and_then (waiter_pop e s) (\<lambda>(w, s1). case w of
          Some pid \<Rightarrow> let (r, s2) = deliver_ipc pid tmp x s1 in Inr (0, tf_set RAX r tf s2)
        | None \<Rightarrow> and_then (ep_send_cap cap tmp x s1) (\<lambda>(r, s2). Inr (0, tf_set RAX r tf s2)))"
        using Some \<open>user_copy_in k _ s = Some tmp\<close> by (simp add: send_from_def Let_def k_def)
      have cur: "alive (PROCS s ! CURRENT s)" using d(2) by (simp add: ready_def)
      have held: "e \<in> auth s (CURRENT s)" using auth_lookup [OF d(3) _ cur] Some by (simp add: lookup_current)
      have ei: "unat e = unat e - 1 + 1" using lk(2) by (simp add: unat_gt_0)
      from d(1) lk(2,4) show thesis
      proof (cases rule: waiter_popE)
        case none
        from core_inv_send [OF d(1) assms(2) Some none(2) id, of tmp] obtain r s' where
          s': "ep_send_cap cap tmp x s = Inr (r, s')" "core_inv (n + 1) s'" "s' = s\<lparr>ENDPOINTS := ENDPOINTS s'\<rparr>"
          "\<And>i. i < 32 \<Longrightarrow> set (w_contents (ENDPOINTS s' ! i)) = set (w_contents (ENDPOINTS s ! i))"
          by metis
        have sy: "sys_inv (n + 1) s'" by (rule sys_inv_endpoints [OF assms(1) s'(2,3)])
        have "PROCS s' = PROCS s" "NEXT_EP s' = NEXT_EP s" by (subst s'(3), simp)+
        moreover have "queued s' i \<subseteq> queued s i \<union> queueable s i" if "i < 32" for i
          using queued_send [OF d(1) assms(2) Some s'(1) that] assms(3) held ei
          by (auto simp: queueable_def split: if_splits)
        ultimately have "confined s s'" using d(5) s'(4) by (intro confined_caps) (auto simp: stuck_def)
        with sy have "sys_inv (n + 1) (tf_set RAX r tf s')" "confined s (tf_set RAX r tf s')"
          using sys_inv_cong [of "tf_set RAX r tf s'" s' "n + 1"] confined_kview [of "tf_set RAX r tf s'" s' s]
          by (simp_all add: kview_simps)
        with send none s'(1) that show thesis by simp
      next
        case (some pid s1)
        have sy: "sys_inv n s1" by (rule sys_inv_endpoints [OF assms(1) some(2,5)])
        have eq: "PROCS s1 = PROCS s" "CURRENT s1 = CURRENT s" "NEXT_EP s1 = NEXT_EP s"
          by (subst some(5), simp)+
        obtain r s2 where dl: "deliver_ipc pid tmp x s1 = (r, s2)" by fastforce
        have idx: "id_ok (unat (NEXT_EP s1)) x" using id eq(3) by simp
        have "\<forall>i < 32. pid \<notin> set (w_contents (ENDPOINTS s1 ! i))" using some(4) by blast
        note dp = deliver_post [OF sy this idx, where msg = tmp, unfolded dl snd_conv]
        have q1: "queued s1 i = queued s i" if "i < 32" for i using some(6) [OF that] by (simp add: queued_def)
        have a1: "auth s1 = auth s" using eq(1) by (rule auth_cong)
        have w: "alive (PROCS s ! pid)" "pid \<noteq> CURRENT s" "e \<in> auth s pid"
          using some(3) d(2) ei lk(2) word_unat_eq_iff [of "blocked_ep (PROCS s ! pid)" e]
          by (auto simp: waiter_ok_def ready_def auth_def)
        have "confined s s2"
        proof (rule confinedI)
          fix q :: nat assume "q < 8"
          show "auth s2 q \<subseteq> auth s q \<union> gainable s q"
            using dp(2) [of q] a1 assms(3) w held by (auto simp: gainable_def split: if_splits)
        next
          fix q :: nat assume "q < 8" "stuck s q"
          moreover from this have "q \<noteq> pid" using some(7) lk(4) by (auto simp: stuck_def)
          ultimately show "stuck s2 q" using dp(6) eq(1) some(8) by (fastforce simp: stuck_def)
        qed (use dp(3-5) q1 eq in simp_all)
        moreover have "sys_inv (n + 1) s2" using dp(1) sys_inv_mono by (metis le_add1)
        ultimately have "sys_inv (n + 1) (tf_set RAX r tf s2)" "confined s (tf_set RAX r tf s2)"
          using sys_inv_cong [of "tf_set RAX r tf s2" s2 "n + 1"] confined_kview [of "tf_set RAX r tf s2" s2 s]
          by (simp_all add: kview_simps)
        with send some(1) dl that show thesis by simp
      qed
    qed
  qed
qed

section \<open>Receiving\<close>

lemma post_tf_set:
  "sys_inv n s' \<Longrightarrow> sys_inv n (tf_set f v tf s')" "confined s s' \<Longrightarrow> confined s (tf_set f v tf s')"
  using sys_inv_cong [of "tf_set f v tf s'" s' n] confined_kview [of "tf_set f v tf s'" s' s]
  by (simp_all add: kview_simps)

lemma recv_block_post:
  assumes "sys_inv n s" "n + 1 < 2 ^ 64" "tf \<noteq> 0"
    "got = E_EMPTY \<Longrightarrow> cap_lookup_current cap s \<noteq> None \<Longrightarrow>
       q_contents (ENDPOINTS s ! (unat (the (cap_lookup_current cap s)) - 1)) = []"
  obtains r b s' where "recv_block tf cap got s = Inr (r, b, s')" "sys_inv (n + 1) (exit_state r s')"
    "confined s s'" "b \<or> r = 0"
proof -
  note d = sys_invD [OF assms(1)]
  have same: "sys_inv (n + 1) (tf_set RAX v tf s)" "confined s (tf_set RAX v tf s)" for v
    using sys_inv_mono [OF assms(1), of "n + 1"] confined_refl [of s] by (simp_all add: post_tf_set)
  show thesis
  proof (cases "got = E_EMPTY \<and> has_other_runnable s")
    case False
    then have "recv_block tf cap got s = Inr (0, False, tf_set RAX got tf s)" by (auto simp: recv_block_def)
    then show thesis by (rule that) (use same in simp_all)
  next
    case True
    show thesis
    proof (cases "cap_lookup_current cap s")
      case None
      with True have "recv_block tf cap got s = Inr (0, False, tf_set RAX u64_max tf s)"
        by (simp add: recv_block_def)
      then show thesis by (rule that) (use same in simp_all)
    next
      case (Some e)
      note lk = lookup_id_ok [OF d(1) Some [unfolded lookup_current]]
      have empty: "q_contents (ENDPOINTS s ! (unat e - 1)) = []" using assms(4) Some True by simp
      note held = lookup_held [OF d(1) Some [unfolded lookup_current]]
      from push_and_block [OF assms(1,2) lk(2,4) conjunct2 [OF True] empty held] obtain s1 s2 where
        b: "waiter_push e (CURRENT s) s = Inr (True, s1)" "block_current_on_ep e s1 = Inr s2"
        "core_inv (n + 1) s2" "\<exists>pid < 8. pid \<noteq> CURRENT s2 \<and> ready (PROCS s2 ! pid)"
        "map caps (PROCS s2) = map caps (PROCS s)" "map alive (PROCS s2) = map alive (PROCS s)"
        "map q_contents (ENDPOINTS s2) = map q_contents (ENDPOINTS s)" "NEXT_EP s2 = NEXT_EP s"
        "\<And>pid. pid \<noteq> CURRENT s \<Longrightarrow> PROCS s2 ! pid = PROCS s ! pid"
        "\<And>i. i < 32 \<Longrightarrow> set (w_contents (ENDPOINTS s2 ! i)) \<subseteq> insert (CURRENT s) (set (w_contents (ENDPOINTS s ! i)))"
        by metis
      from sys_inv_switch [OF b(3) assms(3) disjI2 [OF b(4)]] obtain r s3 where
        sw: "switch_from tf s2 = Inr (r, s3)" "sys_inv (n + 1) (exit_state r s3)"
        "ENDPOINTS s3 = ENDPOINTS s2" "NEXT_EP s3 = NEXT_EP s2" "map caps (PROCS s3) = map caps (PROCS s2)"
        "map alive (PROCS s3) = map alive (PROCS s2)" "map runnable (PROCS s3) = map runnable (PROCS s2)" by metis
      have "yield_from_syscall tf s2 = Inr (r, s3)"
        using sw(1) core_invD(3) [OF b(3)] by (simp add: yield_from_syscall_def)
      then have rb: "recv_block tf cap got s = Inr (r, True, s3)"
        using True Some b(1,2) by (simp add: recv_block_def current_pid_def)
      have "q_contents (ENDPOINTS s3 ! i) = q_contents (ENDPOINTS s ! i)" if "i < 32" for i
        using that sw(3) b(7) core_invD(6) [OF d(1)] by (metis length_map nth_map)
      then have "queued s3 i = queued s i" if "i < 32" for i using that by (simp add: queued_def)
      moreover have "stuck s3 pid" if pid: "pid < 8" "stuck s pid" for pid
      proof -
        have "pid \<noteq> CURRENT s" using pid d(2) by (auto simp: stuck_def ready_def)
        then show ?thesis
          using pid map_nthD [OF sw(6), of pid] map_nthD [OF sw(7), of pid] b(9) [of pid] b(10)
            core_invD(4) [OF b(3)] sw(3) by (fastforce simp: stuck_def)
      qed
      ultimately have "confined s s3" using sw(4-6) b(5,6,8) d(5) by (intro confined_caps) auto
      then show thesis using that [OF rb sw(2)] by simp
    qed
  qed
qed

lemma post_copy_out:
  assumes "user_copy_out p bs s' = (r, s'')"
  shows "sys_inv n s' \<Longrightarrow> sys_inv n s''" "confined s s' \<Longrightarrow> confined s s''"
proof -
  have "kview s'' = kview s'" using kview_copy_out [of p bs s'] assms by simp
  then show "sys_inv n s' \<Longrightarrow> sys_inv n s''" "confined s s' \<Longrightarrow> confined s s''"
    using sys_inv_cong [of s'' s' n] confined_kview [of s'' s' s] by simp_all
qed

text \<open>What both receive calls find, as far as the invariant is concerned.\<close>

lemma recv_step:
  assumes "sys_inv n s" "k \<le> 256"
  obtains (err) got where "ep_recv_cap cap (replicate k 0) s = Inr (got, 0, replicate k 0, s)"
      "got = E_INVAL \<or> got = E_EMPTY"
      "got = E_EMPTY \<Longrightarrow> cap_lookup_current cap s \<noteq> None \<Longrightarrow>
         q_contents (ENDPOINTS s ! (unat (the (cap_lookup_current cap s)) - 1)) = []"
  | (msg) got x out s' where "ep_recv_cap cap (replicate k 0) s = Inr (got, x, out, s')"
      "got \<noteq> E_INVAL" "got \<noteq> E_EMPTY" "sys_inv n s'" "confined s s'" "CURRENT s' = CURRENT s"
      "id_ok (unat (NEXT_EP s')) x" "x = 0 \<or> x \<in> recvable s" "PROCS s' = PROCS s"
proof -
  note d = sys_invD [OF assms(1)]
  have len: "length (replicate k 0 :: u8 list) \<le> 256" using assms(2) by simp
  from d(1) len show thesis
  proof (cases rule: ep_recv_capE [where cap = cap])
    case bad
    then show thesis by (intro err) auto
  next
    case (empty e)
    then show thesis by (intro err) auto
  next
    case (msg e dat x rest s')
    have eq: "PROCS s' = PROCS s" "CURRENT s' = CURRENT s" "NEXT_EP s' = NEXT_EP s"
      by (subst msg(6), simp)+
    have sy: "sys_inv n s'" by (rule sys_inv_endpoints [OF assms(1) msg(5,6)])
    have "queued s' i \<subseteq> queued s i" if "i < 32" for i using msg(9) [OF that] by (auto simp: queued_def)
    then have cf: "confined s s'" using eq(1,3) d(5) msg(8) by (intro confined_caps) (auto simp: stuck_def)
    have "e \<in> auth s (CURRENT s)"
      using msg(1) auth_lookup [OF d(3)] d(2) by (simp add: lookup_current ready_def)
    moreover have "x = 0 \<or> x \<in> queued s (unat e - 1)" using msg(2) by (auto simp: queued_def)
    ultimately have x: "x = 0 \<or> x \<in> recvable s" by (auto simp: recvable_def)
    have "min (length dat) k \<le> 256" using assms(2) by simp
    note ne = small_not_error [OF this]
    show thesis
      by (rule that(2) [OF msg(4)]) (use ne sy cf eq msg(7) x in simp_all)
  qed
qed

lemma sys_recv_post:
  assumes "sys_inv n s" "n + 1 < 2 ^ 64" "tf \<noteq> 0"
  obtains r s' where "sys_recv tf s = Inr (r, s')" "sys_inv (n + 1) (exit_state r s')" "confined s s'"
proof -
  define cap :: u32 where "cap = ucast (tf_get RDI tf s)"
  define k where "k = min (min (unat (tf_get RDX tf s)) 1024) 256"
  have k: "k \<le> 256" by (simp add: k_def)
  show thesis
    using assms(1) k
  proof (cases rule: recv_step [where cap = cap])
    case (err got)
    from recv_block_post [OF assms err(3)] obtain r b s' where
      rb: "recv_block tf cap got s = Inr (r, b, s')" "sys_inv (n + 1) (exit_state r s')" "confined s s'"
      by metis
    have "sys_recv tf s = Inr (r, s')"
      using err(1,2) rb(1) by (auto simp: sys_recv_def ep_recv_def Let_def cap_def k_def)
    then show thesis using rb(2,3) that by blast
  next
    case (msg got x out s')
    obtain c s2 where c: "user_copy_out (tf_get RSI tf s) (take (unat got) out) s' = (c, s2)" by fastforce
    have eq: "sys_recv tf s = Inr (0, tf_set RAX (if c = None then u64_max else got) tf s2)"
      using msg(1-3) c by (simp add: sys_recv_def ep_recv_def Let_def cap_def k_def split: option.split)
    have "sys_inv (n + 1) s2" by (rule sys_inv_mono [OF post_copy_out(1) [OF c msg(4)]]) simp
    moreover have "confined s s2" by (rule post_copy_out(2) [OF c msg(5)])
    ultimately show thesis by (intro that [OF eq]) (simp_all only: exit_state_simps post_tf_set)
  qed
qed

lemma sys_recv_cap_post:
  assumes "sys_inv n s" "n + 1 < 2 ^ 64" "tf \<noteq> 0"
  obtains r s' where "sys_recv_cap tf s = Inr (r, s')" "sys_inv (n + 1) (exit_state r s')" "confined s s'"
proof -
  define cap :: u32 where "cap = ucast (tf_get RDI tf s)"
  define k where "k = min (min (unat (tf_get RDX tf s)) 1024) 256"
  have k: "k \<le> 256" by (simp add: k_def)
  show thesis
    using assms(1) k
  proof (cases rule: recv_step [where cap = cap])
    case (err got)
    from recv_block_post [OF assms err(3)] obtain r b s' where
      rb: "recv_block tf cap got s = Inr (r, b, s')" "sys_inv (n + 1) (exit_state r s')" "confined s s'"
      "b \<or> r = 0" by metis
    have eq: "sys_recv_cap tf s = Inr (r, if b then s' else tf_set RDX 0 tf s')"
      using err(1,2) rb(1) by (auto simp: sys_recv_cap_def Let_def cap_def k_def)
    show thesis
    proof (rule that [OF eq])
      show "sys_inv (n + 1) (exit_state r (if b then s' else tf_set RDX 0 tf s'))"
        using rb(2,4) by (cases b) (simp_all add: post_tf_set)
      show "confined s (if b then s' else tf_set RDX 0 tf s')" using rb(3) by (simp add: post_tf_set)
    qed
  next
    case (msg got x out s1)
    obtain c s2 where c: "user_copy_out (tf_get RSI tf s) (take (unat got) out) s1 = (c, s2)" by fastforce
    have k2: "kview s2 = kview s1" using kview_copy_out [of "tf_get RSI tf s" "take (unat got) out" s1] c by simp
    have s2: "sys_inv n s2" "confined s s2"
      using post_copy_out [OF c] msg(4,5) by simp_all
    show thesis
    proof (cases c)
      case None
      have eq: "sys_recv_cap tf s = Inr (0, tf_set RDX 0 tf (tf_set RAX u64_max tf s2))"
        using msg(1-3) c None by (simp add: sys_recv_cap_def Let_def cap_def k_def)
      show thesis
        by (rule that [OF eq]) (use s2 sys_inv_mono [OF s2(1), of "n + 1"] in \<open>simp_all add: post_tf_set\<close>)
    next
      case (Some u)
      define s3 where "s3 = tf_set RDX 0 tf s2"
      have s3: "sys_inv n s3" "confined s s3" "kview s3 = kview s1"
        using s2 k2 by (simp_all add: s3_def post_tf_set kview_simps)
      define a where "a = snd (cap_alloc_for (CURRENT s) x s3)"
      have k3: "CURRENT s3 = CURRENT s" "NEXT_EP s3 = NEXT_EP s1" "PROCS s3 = PROCS s"
        using s3(3) msg(6,9) by (simp_all add: kview_def)
      have "\<exists>v. sys_recv_cap tf s = Inr (0, tf_set RAX got tf (if x = 0 then s3 else tf_set RDX v tf a))"
      proof -
        obtain r u where al: "cap_alloc_for (CURRENT s) x s3 = (r, u)" by fastforce
        then have "cap_alloc_current x s3 = (r, u)" by (simp add: cap_alloc_current_def current_pid_def k3(1))
        then have "sys_recv_cap tf s = Inr (0, tf_set RAX got tf (if x = 0 then s3
            else tf_set RDX (case r of None \<Rightarrow> 0 | Some c \<Rightarrow> ucast c) tf u))"
          using msg(1-3) c Some unfolding sys_recv_cap_def Let_def cap_def k_def s3_def
          by (cases r) simp_all
        then show ?thesis using al a_def by auto
      qed
      then obtain v where v: "sys_recv_cap tf s = Inr (0, tf_set RAX got tf (if x = 0 then s3 else tf_set RDX v tf a))" ..
      note d3 = sys_invD [OF s3(1)]
      have "sys_inv n a" using sys_inv_cap_alloc [OF s3(1), of x] msg(7) k3 by (simp add: a_def)
      moreover have "confined s a" if "x \<noteq> 0"
      proof (rule confinedI)
        fix pid :: nat assume "pid < 8"
        have "auth a pid \<subseteq> auth s pid \<union> (if pid = CURRENT s then {x} else {})"
          using auth_cap_alloc [OF d3(3), of "CURRENT s" x pid] auth_cong [OF k3(3)] by (simp add: a_def)
        then show "auth a pid \<subseteq> auth s pid \<union> gainable s pid"
          using msg(8) that by (auto simp: gainable_def split: if_splits)
      next
        fix i :: nat assume "i < 32"
        then show "queued a i \<subseteq> queued s i \<union> queueable s i"
          using queued_cap_alloc [OF d3(3), of "CURRENT s" x] s3(2) by (simp add: a_def confined_def)
      next
        obtain r u where al: "cap_alloc_for (CURRENT s) x s3 = (r, u)" by fastforce
        note fr = cap_alloc_frame [OF d3(3) al]
        show "NEXT_EP s \<le> NEXT_EP a" using fr(2) s3(2) by (simp add: a_def al confined_def)
        fix pid :: nat assume "pid < 8" "alive (PROCS s ! pid)"
        then show "alive (PROCS a ! pid)" using fr(10) k3(3) by (simp add: a_def al)
      next
        fix pid :: nat assume "pid < 8" "stuck s pid"
        then show "stuck a pid"
          using stuck_cap_alloc [OF d3(3), of "CURRENT s" x] s3(2) by (simp add: a_def confined_def)
      qed
      ultimately have fin: "sys_inv n (if x = 0 then s3 else tf_set RDX v tf a)"
        "confined s (if x = 0 then s3 else tf_set RDX v tf a)"
        using s3 by (simp_all add: post_tf_set)
      show thesis
        by (rule that [OF v]) (use sys_inv_mono [OF fin(1), of "n + 1"] fin(2) in \<open>simp_all only: exit_state_simps post_tf_set le_add1\<close>)
    qed
  qed
qed

end
