(* ===== verification/Kernel_Reach.thy ===== *)
theory Kernel_Reach
  imports Kernel_Steps
begin

text \<open>
  The running kernel as a transition system: interrupts and user-mode stores as steps, the states
  reachable from the hand-over to the first process, and what holds in all of them.
\<close>

section \<open>The remaining system calls\<close>

lemma post_kview:
  fixes s' s'' :: "'z user_state_scheme"
  assumes "kview s'' = kview s'"
  shows "sys_inv n s' \<Longrightarrow> sys_inv n s''" "confined s s' \<Longrightarrow> confined s s''"
  using sys_inv_cong [OF assms] confined_kview [OF assms] by simp_all

text \<open>What may be gained depends on the kernel data only.\<close>

lemma confined_from_kview:
  fixes s s' t :: "'z user_state_scheme"
  assumes "kview s' = kview s"
  shows "confined s' t \<longleftrightarrow> confined s t"
  using kview_eqD [OF assms] auth_cong [of s' s] queued_cong [of s' s]
  by (simp add: confined_def gainable_def queueable_def recvable_def fresh_eps_def fresh_ep_def stuck_def)

text \<open>A process that is built gets a kernel stack of 16 KiB with its first frame at the top.\<close>

lemma build_proc_stack:
  fixes s :: "'z user_state_scheme"
  assumes "build_proc_from_init elf role c s = Inr ((tf, kst, root, e), s')"
  shows "16384 \<le> unat kst" "tf = kst - 160" "tf \<noteq> 0"
proof -
  from assms obtain s1 s2 s3 :: "'z user_state_scheme" where k: "kstack_alloc_top s1 = Inr (kst, s2)"
    and t: "build_initial_tf kst e (USER_STACK_TOP - 8) role c s2 = Inr (tf, s3)"
    by (auto simp: build_proc_from_init_def and_then_eq_Inr_iff Let_def split: if_splits)
  from k show st: "16384 \<le> unat kst"
    by (auto simp: kstack_alloc_top_def and_then_eq_Inr_iff add_chk_nat unat_add_no_wrap KSTACK_SIZE_def
        split: option.splits if_splits)
  from t show tf: "tf = kst - 160"
    by (auto simp: build_initial_tf_def and_then_eq_Inr_iff sub_chk_eq_Inr TF_SIZE_def Let_def)
  show "tf \<noteq> 0" using st by (auto simp: tf)
qed

text \<open>A new process takes a slot that no live process uses and starts without capabilities.\<close>

lemma spawn_proc_post:
  fixes s :: "'z user_state_scheme"
  assumes "sys_inv n s" "spawn_proc tf kst root s = (r, s')" "tf \<noteq> 0" "16384 \<le> unat kst"
  shows "sys_inv n s'" "pid < 8 \<Longrightarrow> auth s' pid \<subseteq> auth s pid" "queued s' = queued s"
    "NEXT_EP s' = NEXT_EP s" "pid < 8 \<Longrightarrow> alive (PROCS s ! pid) \<Longrightarrow> alive (PROCS s' ! pid)"
    "r = Some new \<Longrightarrow> new < 8 \<and> \<not> alive (PROCS s ! new)" "pid < 8 \<Longrightarrow> stuck s pid \<Longrightarrow> stuck s' pid"
proof -
  note d = sys_invD [OF assms(1)]
  have "sys_inv n s' \<and> (pid < 8 \<longrightarrow> auth s' pid \<subseteq> auth s pid) \<and> queued s' = queued s
      \<and> NEXT_EP s' = NEXT_EP s \<and> (pid < 8 \<longrightarrow> alive (PROCS s ! pid) \<longrightarrow> alive (PROCS s' ! pid))
      \<and> (r = Some new \<longrightarrow> new < 8 \<and> \<not> alive (PROCS s ! new)) \<and> (pid < 8 \<longrightarrow> stuck s pid \<longrightarrow> stuck s' pid)"
  proof (cases "find_slot (\<lambda>p. \<not> alive p) (PROCS s)")
    case None
    with assms(1,2) show ?thesis by (auto simp: spawn_proc_def)
  next
    case (Some q)
    then have s': "s' = s\<lparr>PROCS := (PROCS s)[q := new_proc tf kst root]\<rparr>"
      using assms(2) by (auto simp: spawn_proc_def)
    from find_slot_Some [OF Some] have q: "q < 8" "\<not> alive (PROCS s ! q)" using d(5) by auto
    then have nc: "q \<noteq> CURRENT s" using d(2) by (auto simp: ready_def)
    have w: "q \<notin> set (w_contents (ENDPOINTS s ! i))" if "i < 32" for i
      using waiter_okD [OF core_invD(9) [OF d(1)] that] q(2) by (auto simp: waiter_ok_def)
    have "core_inv n s'" unfolding s'
      by (rule core_inv_proc [OF d(1)])
        (use w assms(3,4) proc_ok_new(1) in \<open>auto simp: new_proc_def id_ok_def proc_ok_def\<close>)
    with assms(1) nc have "sys_inv n s'" by (simp add: sys_inv_def s')
    moreover have "auth s' pid \<subseteq> auth s pid" if "pid < 8"
      using that d(5) by (cases "pid = q") (auto simp: auth_def s' new_proc_def)
    moreover have "queued s' = queued s" by (rule queued_cong) (simp add: s')
    moreover have "alive (PROCS s' ! pid)" if "alive (PROCS s ! pid)"
      using that d(5) q by (cases "pid = q") (auto simp: s')
    moreover have "stuck s' pid" if "stuck s pid"
      using that d(5) q by (cases "pid = q") (auto simp: s' stuck_def)
    moreover have "r = Some q" using assms(2) Some by (auto simp: spawn_proc_def)
    ultimately show ?thesis using q by (auto simp: s')
  qed
  then show "sys_inv n s'" "pid < 8 \<Longrightarrow> auth s' pid \<subseteq> auth s pid" "queued s' = queued s"
    "NEXT_EP s' = NEXT_EP s" "pid < 8 \<Longrightarrow> alive (PROCS s ! pid) \<Longrightarrow> alive (PROCS s' ! pid)"
    "r = Some new \<Longrightarrow> new < 8 \<and> \<not> alive (PROCS s ! new)" "pid < 8 \<Longrightarrow> stuck s pid \<Longrightarrow> stuck s' pid"
    by simp_all
qed

lemma spawn_post:
  fixes s :: "'z user_state_scheme"
  assumes "sys_inv n s" "spawn_init_from_syscall elf prog role share s = Inr (r, s')"
  shows "sys_inv n s'" "confined s s'"
proof -
  note d = sys_invD [OF assms(1)]
  define e where "e = (if share \<noteq> 0
    then (case cap_lookup_current share s of None \<Rightarrow> 0 | Some e \<Rightarrow> e) else 0)"
  have e: "e = 0 \<or> e \<in> auth s (CURRENT s)"
    using auth_lookup [OF d(3), of "CURRENT s" share] d(2)
    by (auto simp: e_def lookup_current ready_def split: option.split)
  then have id: "id_ok (unat (NEXT_EP s)) e"
    using proc_facts(3) [OF d(1,4)] by (auto simp: auth_def id_ok_def split: if_splits)
  have "sys_inv n s' \<and> confined s s'"
  proof (cases "prog = 1")
    case False
    with assms show ?thesis by (simp add: spawn_init_from_syscall_def confined_refl)
  next
    case True
    with assms(2) obtain tf kst root ev and s1 :: "'z user_state_scheme" where
      b: "build_proc_from_init elf role 0 s = Inr ((tf, kst, root, ev), s1)"
      and rest: "(case spawn_proc tf kst root s1 of (None, s2) \<Rightarrow> Inr (u64_max, s2)
        | (Some pid, s2) \<Rightarrow> let (child_cap, s3) = (if e \<noteq> 0
             then (case cap_alloc_for pid e s2 of (None, s3) \<Rightarrow> (0, s3) | (Some c, s3) \<Rightarrow> (ucast c, s3))
             else (0, s2)) in Inr (of_nat pid, tf_set RSI child_cap tf s3)) = (Inr (r, s') :: (u64 \<times> 'z user_state_scheme) outcome)"
      by (auto simp: spawn_init_from_syscall_def e_def [symmetric] Let_def and_then_eq_Inr_iff)
    obtain o2 s2 where sp: "spawn_proc tf kst root s1 = (o2, s2)" by fastforce
    note st = build_proc_stack [OF b]
    have k1: "kview s1 = kview s" using b by (rule kview_build_proc)
    have s1: "sys_inv n s1" "auth s1 = auth s" "queued s1 = queued s" "NEXT_EP s1 = NEXT_EP s" "PROCS s1 = PROCS s"
      "stuck s1 = stuck s"
      using post_kview(1) [OF k1 assms(1)] kview_eqD [OF k1] by (auto intro: auth_cong queued_cong stuck_cong)
    note p = spawn_proc_post [OF s1(1) sp st(3,1), unfolded s1]
    show ?thesis
    proof (cases o2)
      case None
      with rest sp have "s' = s2" by simp
      have "confined s s2" by (rule confinedI) (use p in auto)
      with p(1) \<open>s' = s2\<close> show ?thesis by simp
    next
      case (Some pid)
      define s3 where "s3 = (if e = 0 then s2 else snd (cap_alloc_for pid e s2))"
      have s': "kview s' = kview s3"
        using rest sp Some by (auto simp: s3_def kview_simps split: prod.splits option.splits if_splits)
      note d2 = sys_invD(3) [OF p(1)]
      have "sys_inv n s3" using sys_inv_cap_alloc [OF p(1), of e pid] p(1,4) id by (simp add: s3_def)
      moreover have "confined s s3"
      proof (rule confinedI)
        fix q :: nat assume q: "q < 8"
        have "auth s3 q \<subseteq> auth s2 q \<union> (if q = pid then {e} - {0} else {})"
          using auth_cap_alloc [OF d2, of pid e q] by (auto simp: s3_def split: if_splits)
        moreover have "pid \<noteq> CURRENT s" "\<not> alive (PROCS s ! pid)"
          using p(6) [OF Some] d(2) by (auto simp: ready_def)
        ultimately show "auth s3 q \<subseteq> auth s q \<union> gainable s q"
          using p(2) [OF q] e by (auto simp: gainable_def split: if_splits)
      next
        fix i :: nat
        show "queued s3 i \<subseteq> queued s i \<union> queueable s i"
          using p(3) queued_cap_alloc [OF d2, of pid e] by (simp add: s3_def)
      next
        obtain x u where al: "cap_alloc_for pid e s2 = (x, u)" by fastforce
        note fr = cap_alloc_frame [OF d2 al]
        show "NEXT_EP s \<le> NEXT_EP s3" using fr(2) p(4) by (simp add: s3_def al)
        fix q :: nat assume "q < 8" "alive (PROCS s ! q)"
        with p(5) fr(10) show "alive (PROCS s3 ! q)" by (simp add: s3_def al)
      next
        fix q :: nat assume "q < 8" "stuck s q"
        with p(7) stuck_cap_alloc [OF d2, of pid e] show "stuck s3 q" by (simp add: s3_def)
      qed
      ultimately show ?thesis using post_kview [OF s'] by blast
    qed
  qed
  then show "sys_inv n s'" "confined s s'" by simp_all
qed

section \<open>The handlers\<close>

lemma switch_post:
  fixes s :: "'z user_state_scheme"
  assumes "sys_inv n s" "tf \<noteq> 0"
  obtains r s' where "switch_from tf s = Inr (r, s')" "sys_inv n (exit_state r s')" "confined s s'"
proof -
  note d = sys_invD [OF assms(1)]
  from sys_inv_switch [OF d(1) assms(2) disjI1 [OF assms(1)]] obtain r s' where
    s': "switch_from tf s = Inr (r, s')" "sys_inv n (exit_state r s')"
    "ENDPOINTS s' = ENDPOINTS s" "NEXT_EP s' = NEXT_EP s" "map caps (PROCS s') = map caps (PROCS s)"
    "map alive (PROCS s') = map alive (PROCS s)" "map runnable (PROCS s') = map runnable (PROCS s)" by metis
  have "stuck s' pid = stuck s pid" if "pid < 8" for pid
    using map_nthD [OF s'(6), of pid] map_nthD [OF s'(7), of pid] s'(3) d(5) that by (simp add: stuck_def)
  then have "confined s s'"
    using s'(3-6) d(5) queued_cong [of s' s] by (intro confined_caps) auto
  with s' that show thesis by blast
qed

text \<open>Every system call keeps the invariant and confines authority, and every one but the creation of
  a process returns.\<close>

lemma syscall_post:
  fixes s :: "'z user_state_scheme"
  assumes "sys_inv n s" "n + 1 < 2 ^ 64" "tf \<noteq> 0"
  shows "mantra_syscall80_rust elf tf s = Inr (r, s') \<Longrightarrow>
      sys_inv (n + 1) (exit_state r s') \<and> confined s s'"
    and "tf_get RAX tf s \<noteq> SYS_PROC_SPAWN \<Longrightarrow> \<exists>r s'. mantra_syscall80_rust elf tf s = Inr (r, s')"
proof -
  note d = sys_invD [OF assms(1)]
  note up = sys_inv_mono [OF assms(1) le_add1 [of n 1]]
  let ?good = "\<lambda>out :: (u64 \<times> 'z user_state_scheme) outcome.
    \<exists>r s'. out = Inr (r, s') \<and> sys_inv (n + 1) (exit_state r s') \<and> confined s s'"
  have frame: "?good (Inr (0, t))" if "kview t = kview s" for t
    using post_kview [OF that] up confined_refl [of s] by (metis exit_state_simps(1))
  have putc: "?good (sys_putc tf s)"
    unfolding sys_putc_def by (rule frame) (simp add: kview_simps)
  have wri: "?good (sys_write tf s)"
    unfolding sys_write_def Let_def
    by (subst case_prod_beta, rule frame) (simp add: kview_simps)
  have yld: "?good (sys_yield tf s)"
  proof -
    have k: "kview (tf_set RAX 0 tf s) = kview s" by (simp add: kview_simps)
    note c = confined_from_kview [OF k]
    from switch_post [OF post_kview(1) [OF k assms(1)] assms(3)] obtain r t where
      "switch_from tf (tf_set RAX 0 tf s) = Inr (r, t)" "sys_inv n (exit_state r t)" "confined s t"
      unfolding c by metis
    moreover have "INITED (tf_set RAX 0 tf s)" using core_invD(3) [OF d(1)] kview_eqD(1) [OF k] by simp
    ultimately show ?thesis using sys_inv_mono [of n _ "n + 1"] by (simp add: sys_yield_def yield_from_syscall_def)
  qed
  have crt: "?good (sys_ep_create tf s)"
    using ep_create_post [OF assms(1,2)]
    by (cases "ep_create s") (simp add: sys_ep_create_def post_tf_set)
  have send0: "?good (send_from tf c x s)" if "x = 0 \<or> x \<in> auth s (CURRENT s)" for c x
    using send_from_post [OF assms(1,2) that, of tf c] by (metis exit_state_simps(1))
  have send: "?good (sys_send tf s)" unfolding sys_send_def by (rule send0) simp
  have send_cap: "?good (sys_send_cap tf s)"
  proof -
    let ?x = "ucast (tf_get RCX tf s) :: u32"
    have "?good (Inr (0, tf_set RAX u64_max tf s))" by (rule frame) (simp add: kview_simps)
    with send0 auth_lookup [OF d(3), of "CURRENT s" ?x] d(2) show ?thesis
      unfolding sys_send_cap_def Let_def lookup_current ready_def by (auto split: option.split)
  qed
  have recv: "?good (sys_recv tf s)" using sys_recv_post [OF assms] by metis
  have recv_cap: "?good (sys_recv_cap tf s)" using sys_recv_cap_post [OF assms] by metis
  have unknown: "?good (Inr (0, tf_set RAX u64_max tf (write_str nl (write_hex_u64 (tf_get RAX tf s)
      (write_str ''SYS: unknown int80 n='' s)))))"
    by (rule frame) (simp add: kview_simps)
  have main: "?good (mantra_syscall80_rust elf tf s)" if "tf_get RAX tf s \<noteq> SYS_PROC_SPAWN"
    using that putc wri yld crt send send_cap recv recv_cap unknown
    unfolding mantra_syscall80_rust_def Let_def by simp
  then show "tf_get RAX tf s \<noteq> SYS_PROC_SPAWN \<Longrightarrow> \<exists>r s'. mantra_syscall80_rust elf tf s = Inr (r, s')"
    by blast
  assume ok: "mantra_syscall80_rust elf tf s = Inr (r, s')"
  show "sys_inv (n + 1) (exit_state r s') \<and> confined s s'"
  proof (cases "tf_get RAX tf s = SYS_PROC_SPAWN")
    case True
    then have "mantra_syscall80_rust elf tf s = sys_spawn elf tf s"
      by (simp add: mantra_syscall80_rust_def SYS_PROC_SPAWN_def SYS_PUTC_def SYS_YIELD_def SYS_WRITE_def
          SYS_IPC_EP_CREATE_def SYS_IPC_SEND_def SYS_IPC_RECV_def SYS_IPC_SEND_CAP_def SYS_IPC_RECV_CAP_def)
    with ok obtain q t where "spawn_init_from_syscall elf (tf_get RDI tf s) (tf_get RSI tf s)
        (ucast (tf_get RDX tf s)) s = Inr (q, t)" "r = 0" "s' = tf_set RAX q tf t"
      by (auto simp: sys_spawn_def and_then_eq_Inr_iff)
    with spawn_post [OF assms(1)] show ?thesis
      using post_tf_set sys_inv_mono [of n _ "n + 1"] by (metis exit_state_simps(1) le_add1)
  next
    case False
    with main ok show ?thesis by auto
  qed
qed

lemma tick_post:
  fixes s :: "'z user_state_scheme"
  assumes "sys_inv n s" "n + 1 < 2 ^ 64" "tf \<noteq> 0"
  obtains r s' where "on_timer_irq tf s = Inr (r, s')" "sys_inv (n + 1) (exit_state r s')"
    "confined s s'"
proof -
  note d = sys_invD [OF assms(1)]
  let ?t = "s\<lparr>TICKS := TICKS s + 1\<rparr>"
  have n: "unat (TICKS s) \<le> n" using core_invD(10) [OF d(1)] by (simp add: counts_ok_def)
  then have u: "unat (TICKS s + 1) = unat (TICKS s) + 1" using assms(2) by (simp add: unat_add_no_wrap)
  have "TICKS s \<noteq> u64_max" using n assms(2) by (auto simp: unat_minus_one_max)
  from on_timer_irqE [OF d(3) core_invD(3) [OF d(1)] this] obtain r s1 out where
    sw: "switch_from tf ?t = Inr (r, s1)" "on_timer_irq tf s = Inr (r, s1\<lparr>serial_out := out\<rparr>)" by metis
  have t: "sys_inv (n + 1) ?t"
    using sys_inv_mono [OF assms(1), of "n + 1"] n u
    by (simp add: sys_inv_def core_inv_def ipc_inv_def sched_inv_def counts_ok_def)
  have c: "confined ?t u \<longleftrightarrow> confined s u" for u
    using auth_cong [of ?t s] queued_cong [of ?t s]
    by (simp add: confined_def gainable_def queueable_def recvable_def fresh_eps_def fresh_ep_def stuck_def)
  from switch_post [OF t assms(3)] sw(1) have s1: "sys_inv (n + 1) (exit_state r s1)" "confined s s1"
    unfolding c by (metis Inr_inject prod.inject)+
  have k: "kview (s1\<lparr>serial_out := out\<rparr>) = kview s1" by (simp add: kview_simps)
  have "kview (exit_state r (s1\<lparr>serial_out := out\<rparr>)) = kview (exit_state r s1)"
    by (simp add: exit_state_def kview_def)
  then have "sys_inv (n + 1) (exit_state r (s1\<lparr>serial_out := out\<rparr>))" using s1(1) by (rule post_kview(1))
  then show thesis
    using that [of r "s1\<lparr>serial_out := out\<rparr>"] sw(2) post_kview(2) [OF k s1(2)] by simp
qed

lemma kview_eoi: "kview (pic_eoi irq s) = kview s"
  by (simp add: pic_eoi_def outb_def kview_def Let_def)

lemma timer_post:
  fixes s :: "'z user_state_scheme"
  assumes "sys_inv n s" "n + 1 < 2 ^ 64" "tf \<noteq> 0"
  obtains r s' where "mantra_timer_irq_rust tf s = Inr (r, s')" "sys_inv (n + 1) (exit_state r s')"
    "confined s s'"
proof -
  from tick_post [OF post_kview(1) [OF kview_eoi assms(1)] assms(2,3)] obtain r s' where
    "on_timer_irq tf (pic_eoi 0 s) = Inr (r, s')" "sys_inv (n + 1) (exit_state r s')"
    "confined (pic_eoi 0 s) s'" by metis
  with that show thesis
    by (simp add: mantra_timer_irq_rust_def confined_from_kview [OF kview_eoi])
qed


section \<open>The stubs\<close>

lemma fold_push:
  "fst (fold (\<lambda>f. push_word (r f)) fs (sp, s)) = sp - 8 * of_nat (length fs)"
  "kview (snd (fold (\<lambda>f. push_word (r f)) fs (sp, s))) = kview s"
  by (induction fs arbitrary: sp s) (simp_all add: push_word_def kview_simps algebra_simps)

lemma push_regs_frame:
  "fst (push_regs r sp s) = sp - 160" "kview (snd (push_regs r sp s)) = kview s"
  unfolding push_regs_def fold_push by (simp_all add: cpu_push_order_def stub_push_order_def)

lemma ring0_frame:
  assumes "sys_inv n s"
  shows "ring0_stack s - 160 \<noteq> 0"
proof -
  have "16384 \<le> unat (tss_rsp0 s)"
    using assms proc_facts(2) [of n s "CURRENT s"] sys_invD [OF assms] by (simp add: sys_inv_def ready_def)
  moreover have "unat (ring0_stack s) = unat (tss_rsp0 s) div 16 * 16"
    using unat_align_down_pow2 [of 4 "tss_rsp0 s"] by (simp add: ring0_stack_def)
  ultimately have "16384 \<le> unat (ring0_stack s)" by presburger
  then show ?thesis by auto
qed

lemma stub_exit_state: "snd (stub_exit tf (r, s)) = exit_state r s"
  by (simp add: stub_exit_def exit_state_def Let_def)

lemma syscall_stub_eq:
  "mantra_syscall80_stub elf r s = and_then (mantra_syscall80_rust elf (ring0_stack s - 160)
     (snd (push_regs r (ring0_stack s) s))) (\<lambda>res. Inr (stub_exit (ring0_stack s - 160) res))"
  using push_regs_frame(1) [of r "ring0_stack s" s]
  by (simp add: mantra_syscall80_stub_def case_prod_beta)

lemma timer_stub_eq:
  "mantra_timer_irq_stub r s = and_then (mantra_timer_irq_rust (ring0_stack s - 160)
     (snd (push_regs r (ring0_stack s) s))) (\<lambda>res. Inr (stub_exit (ring0_stack s - 160) res))"
  using push_regs_frame(1) [of r "ring0_stack s" s]
  by (simp add: mantra_timer_irq_stub_def case_prod_beta)

lemma syscall_stub_post:
  fixes s :: "'z user_state_scheme"
  assumes "sys_inv n s" "n + 1 < 2 ^ 64" "mantra_syscall80_stub elf r s = Inr (r', s')"
  shows "sys_inv (n + 1) s'" "confined s s'"
proof -
  let ?p = "snd (push_regs r (ring0_stack s) s)"
  have k: "kview ?p = kview s" by (rule push_regs_frame)
  from assms(3) obtain x and t :: "'z user_state_scheme" where
    h: "mantra_syscall80_rust elf (ring0_stack s - 160) ?p = Inr (x, t)"
      "(r', s') = stub_exit (ring0_stack s - 160) (x, t)"
    by (auto simp: syscall_stub_eq and_then_eq_Inr_iff)
  have "s' = exit_state x t" using h(2) stub_exit_state by (metis snd_conv)
  with syscall_post(1) [OF post_kview(1) [OF k assms(1)] assms(2) ring0_frame [OF assms(1)] h(1)]
  show "sys_inv (n + 1) s'" "confined s s'" by (simp_all add: confined_from_kview [OF k])
qed

lemma timer_stub_post:
  fixes s :: "'z user_state_scheme"
  assumes "sys_inv n s" "n + 1 < 2 ^ 64"
  obtains r' s' where "mantra_timer_irq_stub r s = Inr (r', s')" "sys_inv (n + 1) s'" "confined s s'"
proof -
  let ?p = "snd (push_regs r (ring0_stack s) s)"
  have k: "kview ?p = kview s" by (rule push_regs_frame)
  from timer_post [OF post_kview(1) [OF k assms(1)] assms(2) ring0_frame [OF assms(1)]]
  obtain x t where h: "mantra_timer_irq_rust (ring0_stack s - 160) ?p = Inr (x, t)"
    "sys_inv (n + 1) (exit_state x t)" "confined s t"
    unfolding confined_from_kview [OF k] by metis
  obtain r' s' where e: "stub_exit (ring0_stack s - 160) (x, t) = (r', s')" by fastforce
  then have "s' = exit_state x t" using stub_exit_state by (metis snd_conv)
  with h e that show thesis by (simp add: timer_stub_eq)
qed

section \<open>The transition system\<close>

text \<open>An event is a system call or a timer interrupt taken with given register contents, or a
  period of user-mode execution, which may leave any contents in memory.\<close>

datatype event = Syscall regs | Timer regs | UserMode memory

inductive kstep :: "u8 list \<Rightarrow> user_state \<Rightarrow> event \<Rightarrow> user_state \<Rightarrow> bool" for elf where
  syscall: "mantra_syscall80_stub elf r s = Inr (r', s') \<Longrightarrow> kstep elf s (Syscall r) s'"
| timer: "mantra_timer_irq_stub r s = Inr (r', s') \<Longrightarrow> kstep elf s (Timer r) s'"
| user: "kstep elf s (UserMode m) (s\<lparr>mem := m\<rparr>)"

inductive_simps kstep_syscall: "kstep elf s (Syscall r) s'"
inductive_simps kstep_timer: "kstep elf s (Timer r) s'"

text \<open>The tables as the loader leaves the statics of the kernel.\<close>

definition boot_state :: "user_state \<Rightarrow> bool" where
  "boot_state s \<longleftrightarrow> ENDPOINTS s = replicate 32 empty_endpoint \<and> NEXT_EP s = 0 \<and> TICKS s = 0"

text \<open>The states reachable in \<open>n\<close> events after the first process has been entered.\<close>

inductive reach :: "u8 list \<Rightarrow> nat \<Rightarrow> user_state \<Rightarrow> bool" for elf where
  start: "boot_state s0 \<Longrightarrow> enter_first_user elf kbase kend hint s0 = Inr (tf, s) \<Longrightarrow> reach elf 0 s"
| step: "reach elf n s \<Longrightarrow> kstep elf s e s' \<Longrightarrow> reach elf (Suc n) s'"

lemma kstep_post:
  assumes "sys_inv n s" "n + 1 < 2 ^ 64" "kstep elf s e s'"
  shows "sys_inv (n + 1) s'" "confined s s'"
proof -
  from assms(3) have "sys_inv (n + 1) s' \<and> confined s s'"
  proof (cases rule: kstep.cases)
    case (syscall r r')
    with syscall_stub_post [OF assms(1,2)] show ?thesis by blast
  next
    case (timer r r')
    from timer_stub_post [OF assms(1,2), of r] timer(2) show ?thesis by (metis Inr_inject prod.inject)
  next
    case (user m)
    have k: "kview s' = kview s" by (simp add: user kview_simps)
    with post_kview [OF k] sys_inv_mono [OF assms(1), of "n + 1"] confined_refl [of s] show ?thesis by simp
  qed
  then show "sys_inv (n + 1) s'" "confined s s'" by simp_all
qed

text \<open>The state in which the first process is entered.\<close>

lemma boot_endpoints:
  "list_all ep_ok (replicate 32 empty_endpoint)" "q_contents empty_endpoint = []"
  "w_contents empty_endpoint = []" "\<forall>m \<in> set (q_buf empty_endpoint). xfer_ep m = 0"
  "q_tail empty_endpoint = 0" "wait_tail empty_endpoint = 0"
  by (simp_all add: list_all_iff ep_ok_def q_wf_def w_inv_def empty_endpoint_def q_contents_def q_ring_def
      w_contents_def ring_list_def EMPTY_MSG_def msg_ok_def Q_LEN_def MAX_WAITERS_def MAX_MSG_def)

lemma first_user_state:
  assumes "boot_state s0" "enter_first_user elf kbase kend hint s0 = Inr (tf, s)"
  obtains kst root where "PROCS s = new_proc tf kst root # replicate 7 empty_proc" "CURRENT s = 0" "INITED s"
    "ENDPOINTS s = replicate 32 empty_endpoint" "NEXT_EP s = 0" "TICKS s = 0" "tss_rsp0 s = kst" "cr3 s = root"
    "16384 \<le> unat kst" "tf \<noteq> 0"
proof -
  define s1 where "s1 = (write_str (''user: setting up address space'' @ nl) s0)
    \<lparr>BOOT_KB := kbase, BOOT_KE := kend, BOOT_MAX := hint\<rparr>"
  from assms(2) obtain kst root ev and s2 :: user_state where
    b: "build_proc_from_init elf 0 0 s1 = Inr ((tf, kst, root, ev), s2)"
    and s0: "s = load_cr3 root (set_rsp0 kst (install_first tf kst root (write_str nl (write_hex_u64 ev
      (write_str '' entry='' (write_hex_u64 root (write_str ''user: cr3='' s2)))))))"
    unfolding enter_first_user_def Let_def s1_def [symmetric]
    by (auto simp: and_then_eq_Inr_iff)
  define s7 where "s7 = write_str nl (write_hex_u64 ev (write_str '' entry='' (write_hex_u64 root
      (write_str ''user: cr3='' s2))))"
  have k7: "kview s7 = kview s2" by (simp add: s7_def kview_simps)
  have s: "s = load_cr3 root (set_rsp0 kst (install_first tf kst root s7))" by (simp add: s0 s7_def)
  have k1: "kview s1 = kview s0" by (simp add: s1_def kview_def serial_eqs)
  have k: "kview s7 = kview s0" using k7 kview_build_proc [OF b] k1 by simp
  note e = kview_eqD [OF k]
  note st = build_proc_stack [OF b]
  have new: "PROCS s = new_proc tf kst root # replicate 7 empty_proc" "CURRENT s = 0" "INITED s"
    "ENDPOINTS s = replicate 32 empty_endpoint" "NEXT_EP s = 0" "TICKS s = 0" "tss_rsp0 s = kst" "cr3 s = root"
    using assms(1) e
    by (simp_all add: s load_cr3_def set_rsp0_def install_first_def serial_eqs boot_state_def MAX_PROCS_def)
  show thesis by (rule that [OF new st(1,3)])
qed

lemma first_user_endpoints:
  assumes "boot_state s0" "enter_first_user elf kbase kend hint s0 = Inr (tf, s)" "i < 32"
  shows "ENDPOINTS s ! i = empty_endpoint"
  using first_user_state [OF assms(1,2)] assms(3) by (metis nth_replicate)

lemma first_user_inv:
  assumes "boot_state s0" "enter_first_user elf kbase kend hint s0 = Inr (tf, s)"
  shows "sys_inv 0 s"
proof -
  obtain kst root where new: "PROCS s = new_proc tf kst root # replicate 7 empty_proc" "CURRENT s = 0" "INITED s"
    "ENDPOINTS s = replicate 32 empty_endpoint" "NEXT_EP s = 0" "TICKS s = 0" "tss_rsp0 s = kst" "cr3 s = root"
    and st: "16384 \<le> unat kst" "tf \<noteq> 0" by (rule first_user_state [OF assms])
  have si: "sched_inv s"
    using st(2) by (simp add: sched_inv_def new MAX_PROCS_def proc_ok_new list_all_iff)
  have "ids_ok 0 (PROCS s) (ENDPOINTS s)"
    using boot_endpoints(4) by (auto simp: ids_ok_def new new_proc_def empty_proc_def id_ok_def)
  moreover have "stacks_ok (PROCS s)" using st(1) by (auto simp: stacks_ok_def new new_proc_def empty_proc_def)
  moreover have "waiters_ok (PROCS s) (ENDPOINTS s)" using boot_endpoints(2,3) by (simp add: waiters_ok_def new)
  moreover have "counts_ok 0 s" using boot_endpoints(5,6) by (simp add: counts_ok_def new)
  moreover have "ipc_inv s" using si boot_endpoints(1) by (simp add: ipc_inv_def new MAX_ENDPOINTS_def)
  ultimately have "core_inv 0 s" by (simp add: core_inv_def new)
  then show ?thesis by (simp add: sys_inv_def new ready_def new_proc_def)
qed

section \<open>Isolation\<close>

text \<open>A message can only be queued on an endpoint that has been handed out.\<close>

definition tidy :: "'z user_state_scheme \<Rightarrow> bool" where
  "tidy s \<longleftrightarrow> (\<forall>i < 32. queued s i \<noteq> {} \<longrightarrow> i < unat (NEXT_EP s))"

lemma auth_id:
  assumes "core_inv n s" "pid < 8" "e \<in> auth s pid"
  shows "unat e \<le> unat (NEXT_EP s)" "unat e \<le> 32" "e \<noteq> 0" "alive (PROCS s ! pid)"
  using proc_facts(3) [OF assms(1,2)] assms(3) by (auto simp: auth_def id_ok_def split: if_splits)

lemma queued_id:
  assumes "core_inv n s" "i < 32" "x \<in> queued s i"
  shows "unat x \<le> unat (NEXT_EP s)"
proof -
  note f = endpoint_facts [OF assms(1,2)]
  have "\<forall>j. payload (q_buf (ENDPOINTS s ! i) ! (j mod 32)) \<in> payload ` set (q_buf (ENDPOINTS s ! i))"
    using f(2) by (simp add: q_wf_def)
  then have "x \<in> xfer_ep ` set (q_buf (ENDPOINTS s ! i))"
    using assms(3) f(2) by (auto simp: queued_def q_contents_def q_ring_def ring_list_def payload_def q_wf_def)
  with f(4) show ?thesis by (auto simp: id_ok_def)
qed

lemma tidy_confined:
  assumes "core_inv n s" "tidy s" "confined s s'"
  shows "tidy s'"
  unfolding tidy_def
proof (intro allI impI)
  fix i :: nat assume i: "i < 32" "queued s' i \<noteq> {}"
  with assms(3) have "queued s i \<noteq> {} \<or> queueable s i \<noteq> {}" by (auto simp: confined_def)
  then have "i < unat (NEXT_EP s)"
    using assms(2) i(1) auth_id(1) [OF assms(1) core_invD(5) [OF assms(1)]]
    by (force simp: tidy_def queueable_def split: if_splits)
  with assms(3) show "i < unat (NEXT_EP s')" by (simp add: confined_def word_le_nat_alt)
qed

text \<open>A colouring of processes and endpoints that no capability and no queued message crosses.\<close>

definition coloured :: "(nat \<Rightarrow> 'c) \<Rightarrow> (u32 \<Rightarrow> 'c) \<Rightarrow> 'z user_state_scheme \<Rightarrow> bool" where
  "coloured pc ec s \<longleftrightarrow> (\<forall>pid < 8. \<forall>e \<in> auth s pid. ec e = pc pid)
     \<and> (\<forall>i < 32. \<forall>x \<in> queued s i. ec x = ec (of_nat (i + 1)))"

text \<open>A new process and a new endpoint take the colour of the process that creates them.\<close>

definition proc_colour :: "'z user_state_scheme \<Rightarrow> (nat \<Rightarrow> 'c) \<Rightarrow> nat \<Rightarrow> 'c" where
  "proc_colour s pc pid = (if alive (PROCS s ! pid) then pc pid else pc (CURRENT s))"

definition ep_colour :: "'z user_state_scheme \<Rightarrow> (nat \<Rightarrow> 'c) \<Rightarrow> (u32 \<Rightarrow> 'c) \<Rightarrow> u32 \<Rightarrow> 'c" where
  "ep_colour s pc ec e = (if unat e \<le> unat (NEXT_EP s) then ec e else pc (CURRENT s))"

lemma coloured_step:
  fixes s s' :: "'z user_state_scheme"
  assumes "sys_inv n s" "tidy s" "coloured pc ec s" "confined s s'"
  shows "coloured (proc_colour s pc) (ep_colour s pc ec) s'"
proof -
  note d = sys_invD [OF assms(1)]
  note aid = auth_id [OF d(1)]
  let ?c = "CURRENT s"
  have own: "ec e = pc pid" if "pid < 8" "e \<in> auth s pid" for pid e
    using assms(3) that by (simp add: coloured_def)
  have old: "ep_colour s pc ec e = pc pid" if "pid < 8" "e \<in> auth s pid" for pid e
    using own [OF that] aid(1) [OF that] by (simp add: ep_colour_def)
  have cur: "proc_colour s pc ?c = pc ?c" using d(2) by (simp add: proc_colour_def ready_def)
  have msg: "ep_colour s pc ec x = ep_colour s pc ec (of_nat (i + 1))" if "i < 32" "x \<in> queued s i" for i x
  proof -
    have "unat (of_nat (i + 1) :: u32) = i + 1" using that(1) by (simp add: unsigned_of_nat take_bit_nat_eq_self del: of_nat_add of_nat_Suc)
    moreover have "i < unat (NEXT_EP s)" using assms(2) that by (auto simp: tidy_def)
    ultimately show ?thesis
      using assms(3) that queued_id [OF d(1) that] by (auto simp: ep_colour_def coloured_def)
  qed
  have ep: "of_nat (i + 1) = e" if "unat e = i + 1" for i and e :: u32
    unfolding that [symmetric] by simp
  have gain: "ep_colour s pc ec e = proc_colour s pc pid" if "pid < 8" "e \<in> gainable s pid" for pid e
  proof (cases "pid = ?c")
    case True
    with that(2) consider "NEXT_EP s < 32" "e = fresh_ep s" | "e \<in> recvable s"
      by (auto simp: gainable_def fresh_eps_def split: if_splits)
    then show ?thesis
    proof cases
      case 1
      then have "unat e = unat (NEXT_EP s) + 1" by (simp add: fresh_id word_less_nat_alt)
      with True cur show ?thesis by (simp add: ep_colour_def)
    next
      case 2
      then obtain e0 where e0: "e0 \<in> auth s ?c" "e \<in> queued s (unat e0 - 1)" by (auto simp: recvable_def)
      note a = aid [OF d(4) e0(1)]
      have u: "unat e0 = (unat e0 - 1) + 1" using a(3) by (simp add: unat_gt_0)
      have "unat e0 - 1 < 32" using a(2) u by linarith
      from msg [OF this e0(2), unfolded ep [OF u]] old [OF d(4) e0(1)] True cur show ?thesis by simp
    qed
  next
    case False
    with that(2) have e: "e \<in> auth s ?c" by (auto simp: gainable_def split: if_splits)
    show ?thesis
    proof (cases "alive (PROCS s ! pid)")
      case True
      with that(2) False obtain e0 where "e0 \<in> auth s pid" "e0 \<in> auth s ?c"
        by (auto simp: gainable_def split: if_splits)
      then have "pc pid = pc ?c" using own [OF that(1)] own [OF d(4)] by metis
      with True old [OF d(4) e] show ?thesis by (simp add: proc_colour_def)
    qed (use old [OF d(4) e] in \<open>simp add: proc_colour_def\<close>)
  qed
  have "ep_colour s pc ec e = proc_colour s pc pid" if "pid < 8" "e \<in> auth s' pid" for pid e
  proof -
    from assms(4) that have "e \<in> auth s pid \<or> e \<in> gainable s pid" by (auto simp: confined_def)
    with gain [OF that(1)] old [OF that(1)] aid(4) [OF that(1)] show ?thesis by (auto simp: proc_colour_def)
  qed
  moreover have "ep_colour s pc ec x = ep_colour s pc ec (of_nat (i + 1))" if "i < 32" "x \<in> queued s' i" for i x
  proof -
    from assms(4) that have "x \<in> queued s i \<or> x \<in> queueable s i" by (auto simp: confined_def)
    then consider "x \<in> queued s i" | e0 where "e0 \<in> auth s ?c" "unat e0 = i + 1" "x \<in> auth s ?c"
      by (auto simp: queueable_def split: if_splits)
    then show ?thesis
    proof cases
      case 1
      with msg that(1) show ?thesis by blast
    next
      case 2
      with old [OF d(4)] show ?thesis by (simp only: ep)
    qed
  qed
  ultimately show ?thesis by (simp add: coloured_def)
qed

text \<open>Runs of a given number of events.\<close>

inductive run :: "u8 list \<Rightarrow> user_state \<Rightarrow> nat \<Rightarrow> user_state \<Rightarrow> bool" for elf s where
  run_0: "run elf s 0 s"
| run_Suc: "run elf s k t \<Longrightarrow> kstep elf t e s' \<Longrightarrow> run elf s (Suc k) s'"

lemma run_inv:
  assumes "run elf s k t" "sys_inv n s" "tidy s" "n + k < 2 ^ 64"
  shows "sys_inv (n + k) t \<and> tidy t"
  using assms
proof (induction rule: run.induct)
  case (run_Suc k t e s')
  then have t: "sys_inv (n + k) t" "tidy t" "n + k + 1 < 2 ^ 64" by simp_all
  note post = kstep_post [OF t(1,3) run_Suc(2)]
  show ?case using post(1) tidy_confined [OF sys_invD(1) [OF t(1)] t(2) post(2)] by simp
qed simp

lemma run_coloured:
  assumes "run elf s k t" "sys_inv n s" "tidy s" "n + k < 2 ^ 64" "coloured pc ec s"
  shows "\<exists>pc' ec'. coloured pc' ec' t \<and> (\<forall>pid < 8. alive (PROCS s ! pid) \<longrightarrow> alive (PROCS t ! pid) \<and> pc' pid = pc pid)"
  using assms
proof (induction rule: run.induct)
  case run_0
  then show ?case by blast
next
  case (run_Suc k t e s')
  then have t: "sys_inv (n + k) t" "tidy t" "n + k + 1 < 2 ^ 64"
    using run_inv [OF run_Suc(1), of n] by simp_all
  note c = kstep_post(2) [OF t(1,3) run_Suc(2)]
  from run_Suc obtain pc' ec' where old: "coloured pc' ec' t"
    "\<forall>pid < 8. alive (PROCS s ! pid) \<longrightarrow> alive (PROCS t ! pid) \<and> pc' pid = pc pid" by auto
  have "\<forall>pid < 8. alive (PROCS s ! pid) \<longrightarrow> alive (PROCS s' ! pid) \<and> proc_colour t pc' pid = pc pid"
    using old(2) c by (simp add: confined_def proc_colour_def)
  with coloured_step [OF t(1,2) old(1) c] show ?case by blast
qed

text \<open>A process that is blocked outside every waiting ring never runs again.\<close>

lemma run_stuck:
  assumes "run elf s k t" "sys_inv n s" "tidy s" "n + k < 2 ^ 64" "pid < 8" "stuck s pid"
  shows "stuck t pid"
  using assms
proof (induction rule: run.induct)
  case (run_Suc k t e s')
  then have t: "sys_inv (n + k) t" "n + k + 1 < 2 ^ 64" using run_inv [OF run_Suc(1), of n] by simp_all
  with kstep_post(2) [OF t run_Suc(2)] run_Suc show ?case by (simp add: confined_def)
qed

text \<open>Every reachable state satisfies the invariant.\<close>

lemma first_user_tidy:
  assumes "boot_state s0" "enter_first_user elf kbase kend hint s0 = Inr (tf, s)"
  shows "tidy s"
  using first_user_endpoints [OF assms] boot_endpoints(2) by (simp add: tidy_def queued_def)

lemma reach_inv:
  assumes "reach elf n s" "n < 2 ^ 64"
  shows "sys_inv n s \<and> tidy s"
  using assms
proof (induction rule: reach.induct)
  case (start s0 kbase kend hint tf s)
  then show ?case using first_user_inv first_user_tidy by blast
next
  case (step n s e s')
  then have s: "sys_inv n s" "tidy s" "n + 1 < 2 ^ 64" by simp_all
  note post = kstep_post [OF s(1,3) step(2)]
  show ?case using post(1) tidy_confined [OF sys_invD(1) [OF s(1)] s(2) post(2)] by simp
qed

section \<open>Saving and restoring registers\<close>

lemma aligned8_diff:
  assumes "aligned8 a" "aligned8 b"
  shows "aligned8 (a - b)"
  using assms unat_u64_lt [of a] unat_u64_lt [of b]
  unfolding aligned8_def unat_sub_if' by (auto split: if_splits)

lemma pushed_words:
  assumes "aligned8 sp"
  shows "tf_get f (sp - 160) (snd (push_regs r sp s)) = r f"
proof -
  have h: "aligned8 HHDM_BASE" by (simp add: aligned8_def HHDM_BASE_def)
  have al: "aligned8 (sp - k - HHDM_BASE)" if "unat k mod 8 = 0" for k
    using assms h that by (intro aligned8_diff) (simp_all add: aligned8_def)
  show ?thesis
    by (cases f) (simp_all add: tf_get_def tf_addr_def push_regs_def cpu_push_order_def stub_push_order_def
        push_word_def vread64_def vwrite64_def rd64_wr64 al)
qed

lemma trap_return_get: "mantra_trap_return tf s f = tf_get f tf s"
  by (cases f) (simp_all add: mantra_trap_return_def trap_return_order_def iretq_order_def tf_get_def
      tf_addr_def add.commute)

lemma ring0_aligned: "aligned8 (ring0_stack s)"
  using unat_align_down_pow2 [of 4 "tss_rsp0 s"] by (simp add: ring0_stack_def aligned8_def)

lemma saved_regs:
  assumes "mem t = mem (snd (push_regs r (ring0_stack s) s))"
  shows "mantra_trap_return (ring0_stack s - 160) t = r"
proof
  fix f
  have "tf_get f (ring0_stack s - 160) t = tf_get f (ring0_stack s - 160) (snd (push_regs r (ring0_stack s) s))"
    using assms by (simp add: tf_get_def vread64_def)
  then show "mantra_trap_return (ring0_stack s - 160) t f = r f"
    by (simp add: trap_return_get pushed_words ring0_aligned)
qed

lemma switch_saves:
  fixes s :: "'z user_state_scheme"
  assumes "sched_inv s" "tf \<noteq> 0" "\<forall>pid < 8. ready (PROCS s ! pid) \<longrightarrow> tf_rsp (PROCS s ! pid) \<noteq> 0"
    "switch_from tf s = Inr (x, t)"
  shows "mem t = mem s" "tf_rsp (PROCS t ! CURRENT s) = tf"
    "(if x = 0 then tf else x) = tf_rsp (PROCS t ! CURRENT t)" "port_writes t = port_writes s"
proof -
  note d = sched_invD [OF assms(1)]
  have "mem t = mem s \<and> tf_rsp (PROCS t ! CURRENT s) = tf \<and> (if x = 0 then tf else x) = tf_rsp (PROCS t ! CURRENT t)
      \<and> port_writes t = port_writes s"
    using assms(1)
  proof (cases rule: switch_fromE [where f = tf])
    case stay
    with assms(4) d show ?thesis by (auto simp: save_frame_def)
  next
    case (switch nxt)
    with assms(3) have "tf_rsp (PROCS s ! nxt) \<noteq> 0" by simp
    with switch assms(4) d show ?thesis by (auto simp: save_frame_def enter_def)
  qed
  then show "mem t = mem s" "tf_rsp (PROCS t ! CURRENT s) = tf"
    "(if x = 0 then tf else x) = tf_rsp (PROCS t ! CURRENT t)" "port_writes t = port_writes s" by simp_all
qed

end
