(* ===== verification/Proc_Build.thy ===== *)
theory Proc_Build
  imports User
begin

text \<open>
  Building a process returns when enough memory is left: how many frames every step of
  \<open>build_proc_from_init\<close> takes at most, and that it does not panic while that many are free.
\<close>

section \<open>Free frames\<close>

definition range_frames :: "Range \<Rightarrow> nat" where
  "range_frames r = (unat (r_end r) - unat (r_base r)) div 4096"

definition frames :: "'z pmm_state_scheme \<Rightarrow> nat" where
  "frames s = (case PMM s of None \<Rightarrow> 0 | Some p \<Rightarrow> sum_list (map range_frames (live p)))"

lemma fits_one: "page_aligned r \<Longrightarrow> fits 1 r \<longleftrightarrow> range_frames r \<noteq> 0"
proof -
  assume "page_aligned r"
  then obtain b e where "unat (r_base r) = 4096 * b" "unat (r_end r) = 4096 * e"
    by (auto simp: page_aligned_def elim!: dvdE)
  then show ?thesis by (auto simp: fits_def range_frames_def word_less_nat_alt)
qed

lemma frames_take:
  assumes "fits 1 r"
  shows "range_frames r = Suc (range_frames (take_pages 1 r))"
proof -
  have b: "unat (r_base (take_pages 1 r)) = unat (r_base r) + 4096" using unat_take_pages [OF assms] by simp
  have e: "r_end (take_pages 1 r) = r_end r" by (simp add: take_pages_def)
  have "unat (r_base r) + 4096 \<le> unat (r_end r)" using assms by (simp add: fits_def)
  then obtain k where "unat (r_end r) = unat (r_base r) + 4096 + k" using le_Suc_ex by blast
  then show ?thesis by (simp add: range_frames_def b e)
qed

text \<open>A frame is handed out as long as one is left, and then exactly one less is left.\<close>

lemma alloc_page_frames:
  fixes s :: "'z pmm_state_scheme"
  assumes "pmm_inv s" "0 < frames s"
  obtains a p where "alloc_pages 1 s = Inr (Some a, s\<lparr>PMM := Some p\<rparr>)" "pmm_wf p"
    "Suc (frames (s\<lparr>PMM := Some p\<rparr>)) = frames s"
proof -
  from assms(2) obtain p where p: "PMM s = Some p" by (cases "PMM s") (simp_all add: frames_def)
  with assms(1) have wf: "pmm_wf p" by (simp add: pmm_inv_def)
  have al: "\<forall>r \<in> set (live p). page_aligned r" using wf by (simp add: pmm_wf_def)
  have "\<exists>r \<in> set (live p). fits 1 r"
  proof (rule ccontr)
    assume "\<not> ?thesis"
    then have "\<forall>r \<in> set (live p). range_frames r = 0" using al fits_one by blast
    then have "sum_list (map range_frames (live p)) = 0" by (simp add: sum_list_eq_0_iff)
    with assms(2) show False by (simp only: frames_def p option.case less_irrefl)
  qed
  then obtain skipped r rest where l: "live p = skipped @ r # rest" "fits 1 r" "\<forall>q \<in> set skipped. \<not> fits 1 q"
    by (auto elim!: split_list_first_propE)
  from alloc_scan_grant [OF wf l(1,3,2)] obtain p' where p':
    "alloc_scan 1 p = Inr (Some (r_base r), p')"
    "live p' = (if r_end r \<le> r_base (take_pages 1 r) then rest else take_pages 1 r # rest)" by blast
  from alloc_scan_wf [OF wf, of 1] p'(1) have "pmm_wf p'" by auto
  moreover have "range_frames (take_pages 1 r) = 0" if "r_end r \<le> r_base (take_pages 1 r)"
    using that by (simp add: range_frames_def take_pages_def word_le_nat_alt)
  moreover have "\<forall>q \<in> set skipped. range_frames q = 0" using l al fits_one by auto
  ultimately show thesis
    using that [of "r_base r" p'] p p' frames_take [OF l(2)] l(1) by (auto simp: alloc_pages_def frames_def)
qed

text \<open>An operation that takes at most \<open>k\<close> frames and nothing else from the allocators.\<close>

definition keeps :: "'z heap_state_scheme \<Rightarrow> 'z heap_state_scheme \<Rightarrow> nat \<Rightarrow> bool" where
  "keeps s s' k \<longleftrightarrow> pmm_inv s' \<and> frames s \<le> frames s' + k \<and> HEAP s' = HEAP s"

lemma keeps_refl: "pmm_inv s \<Longrightarrow> keeps s s k"
  by (simp add: keeps_def)

lemma keeps_trans: "keeps s s1 j \<Longrightarrow> keeps s1 s2 k \<Longrightarrow> j + k \<le> m \<Longrightarrow> keeps s s2 m"
  by (simp add: keeps_def)

lemma keepsD: "keeps s s' k \<Longrightarrow> pmm_inv s'" "keeps s s' k \<Longrightarrow> m + k \<le> frames s \<Longrightarrow> m \<le> frames s'"
  by (simp_all add: keeps_def)

lemma keeps_mem: "keeps s (s'\<lparr>mem := m\<rparr>) k = keeps s s' k"
  by (simp add: keeps_def frames_def pmm_inv_def)

lemma keeps_writes [simp]:
  "keeps s (vwrite64 a v s') k = keeps s s' k" "keeps s (vwrite8 a b s') k = keeps s s' k"
  "keeps s (zero_page p s') k = keeps s s' k" "keeps s (fill_zero va n s') k = keeps s s' k"
  "keeps s (tf_set f v tf s') k = keeps s s' k"
  by (simp_all add: vwrite64_def vwrite8_def zero_page_def fill_zero_def tf_set_def keeps_mem)

lemma alloc_frame_keeps:
  fixes s :: "'z heap_state_scheme"
  assumes "pmm_inv s" "1 \<le> frames s"
  obtains a s' where "alloc_pages 1 s = Inr (Some a, s')" "keeps s s' 1"
proof -
  from assms obtain a p where "alloc_pages 1 s = Inr (Some a, s\<lparr>PMM := Some p\<rparr>)" "pmm_wf p"
    "Suc (frames (s\<lparr>PMM := Some p\<rparr>)) = frames s" using alloc_page_frames [of s] by (metis Suc_le_eq One_nat_def)
  then show thesis using that [of a "s\<lparr>PMM := Some p\<rparr>"] by (simp add: keeps_def pmm_inv_def)
qed

lemma alloc_table_keeps:
  fixes s :: "'z heap_state_scheme"
  assumes "pmm_inv s" "1 \<le> frames s"
  obtains t s' where "user_alloc_table s = Inr (t, s')" "keeps s s' 1"
proof -
  from alloc_frame_keeps [OF assms] obtain a s' where "alloc_pages 1 s = Inr (Some a, s')" "keeps s s' 1" .
  then show thesis using that [of a "zero_page a s'"] by (simp add: user_alloc_table_def alloc_table_msg_def)
qed

lemma get_or_alloc_keeps:
  fixes s :: "'z heap_state_scheme"
  assumes "pmm_inv s" "1 \<le> frames s"
  obtains t s' where "get_or_alloc_table ent fl s = Inr (t, s')" "keeps s s' 1"
proof (cases "vread64 ent s AND PTE_P = 0")
  case True
  from alloc_table_keeps [OF assms] obtain t s' where t: "user_alloc_table s = Inr (t, s')" "keeps s s' 1" .
  let ?e = "t OR (PTE_P OR PTE_RW)"
  show thesis
    by (rule that [of t "vwrite64 ent (if fl AND PTE_U \<noteq> 0 then ?e OR PTE_U else ?e) s'"])
      (use True t in \<open>simp_all add: get_or_alloc_table_def Let_def\<close>)
next
  case False
  let ?v = "vread64 ent s"
  show thesis
  proof (cases "fl AND PTE_U \<noteq> 0 \<and> ?v AND PTE_U = 0")
    case True
    show thesis
      by (rule that [of "(?v OR PTE_U) AND ADDR_MASK" "vwrite64 ent (?v OR PTE_U) s"])
        (use False True assms in \<open>simp_all add: get_or_alloc_table_def Let_def keeps_refl\<close>)
  next
    case F: False
    show thesis
      by (rule that [of "?v AND ADDR_MASK" s])
        (use False F assms in \<open>auto simp: get_or_alloc_table_def Let_def keeps_refl\<close>)
  qed
qed

lemma map_4k_keeps:
  fixes s :: "'z heap_state_scheme"
  assumes "pmm_inv s" "3 \<le> frames s"
  obtains s' where "map_4k pml4 v p fl s = Inr s'" "keeps s s' 3"
proof -
  let ?v = "align_down v PAGE_SIZE"
  from get_or_alloc_keeps [OF assms(1), of "table_entry_mut pml4 (pt_index 39 ?v)" fl] assms(2) obtain t1 s1 where
    1: "get_or_alloc_table (table_entry_mut pml4 (pt_index 39 ?v)) fl s = Inr (t1, s1)" "keeps s s1 1" by auto
  from get_or_alloc_keeps [OF keepsD(1) [OF 1(2)], of "table_entry_mut t1 (pt_index 30 ?v)" fl] obtain t2 s2 where
    2: "get_or_alloc_table (table_entry_mut t1 (pt_index 30 ?v)) fl s1 = Inr (t2, s2)" "keeps s1 s2 1"
    using keepsD(2) [OF 1(2), of 2] assms(2) by auto
  have 12: "keeps s s2 2" using keeps_trans [OF 1(2) 2(2)] by simp
  from get_or_alloc_keeps [OF keepsD(1) [OF 12], of "table_entry_mut t2 (pt_index 21 ?v)" fl] obtain t3 s3 where
    3: "get_or_alloc_table (table_entry_mut t2 (pt_index 21 ?v)) fl s2 = Inr (t3, s3)" "keeps s2 s3 1"
    using keepsD(2) [OF 12, of 1] assms(2) by auto
  have "keeps s s3 3" using keeps_trans [OF 12 3(2)] by simp
  then show thesis using that 1(1) 2(1) 3(1) by (simp add: map_4k_def Let_def)
qed

section \<open>The parts of an address space\<close>

lemma map_identity_keeps:
  fixes s :: "'z heap_state_scheme"
  assumes "pmm_inv s" "unat p = 4096 * a" "unat e = 4096 * b" "3 * (b - a) \<le> frames s"
  shows "\<exists>s'. map_identity pml4 p e s = Inr s' \<and> keeps s s' (3 * (b - a))"
  using assms
proof (induction "b - a" arbitrary: a p s)
  case 0
  then have "\<not> p < e" by (simp add: word_less_nat_alt)
  with 0 show ?case by (subst map_identity.simps) (simp add: keeps_refl)
next
  case (Suc n)
  then have ab: "a < b" and lt: "p < e" by (simp_all add: word_less_nat_alt)
  from Suc(2,6) have "3 \<le> frames s" by simp
  from map_4k_keeps [OF Suc(3) this] obtain s1 where s1: "map_4k pml4 p p PTE_RW s = Inr s1" "keeps s s1 3" by blast
  have "unat p + 4096 < 2 ^ 64" using ab Suc(4,5) unat_u64_lt [of e] by simp
  then have p': "unat (p + 4096) = 4096 * Suc a" "add_chk p PAGE_SIZE = Inr (p + 4096)"
    using Suc(4) by (simp_all add: unat_add_no_wrap add_chk_nat)
  have "3 * (b - Suc a) \<le> frames s1" using keepsD(2) [OF s1(2), of "3 * (b - Suc a)"] Suc(2,6) by simp
  moreover have "n = b - Suc a" using Suc(2) by simp
  ultimately obtain s2 where
    s2: "map_identity pml4 (p + 4096) e s1 = Inr s2" "keeps s1 s2 (3 * (b - Suc a))"
    using Suc(1) [OF _ keepsD(1) [OF s1(2)] p'(1) Suc(5)] by blast
  have "keeps s s2 (3 * (b - a))" using keeps_trans [OF s1(2) s2(2)] ab by simp
  with lt s1(1) s2(1) p'(2) show ?case by (subst map_identity.simps) simp
qed

lemma map_stack_keeps:
  fixes s :: "'z heap_state_scheme"
  assumes "pmm_inv s" "4 * length is \<le> frames s"
  shows "\<exists>s'. map_stack pml4 is s = Inr s' \<and> keeps s s' (4 * length is)"
  using assms
proof (induction "is" arbitrary: s)
  case Nil
  then show ?case by (simp add: keeps_refl)
next
  case (Cons i "is")
  from alloc_frame_keeps [OF Cons(2)] Cons(3) obtain f s1 where
    1: "alloc_pages 1 s = Inr (Some f, s1)" "keeps s s1 1" by auto
  let ?v = "USER_STACK_TOP - 4 * PAGE_SIZE + of_nat i * PAGE_SIZE"
  have "3 \<le> frames s1" using keepsD(2) [OF 1(2), of 3] Cons(3) by simp
  from map_4k_keeps [OF keepsD(1) [OF 1(2)] this] obtain s2 where
    2: "map_4k pml4 ?v f (PTE_U OR PTE_RW) s1 = Inr s2" "keeps s1 s2 3" by blast
  have 12: "keeps s s2 4" using keeps_trans [OF 1(2) 2(2)] by simp
  have "4 * length is \<le> frames s2" using keepsD(2) [OF 12, of "4 * length is"] Cons(3) by simp
  from Cons(1) [OF keepsD(1) [OF 12] this] obtain s3 where
    3: "map_stack pml4 is s2 = Inr s3" "keeps s2 s3 (4 * length is)" by blast
  with 1(1) 2(1) keeps_trans [OF 12 3(2)] show ?case by (simp add: alloc_frame_def)
qed

lemma map_seg_keeps:
  fixes s :: "'z heap_state_scheme"
  assumes "pmm_inv s" "unat v = 4096 * a" "unat e = 4096 * b" "4 * (b - a) \<le> frames s"
  shows "\<exists>s'. map_seg pml4 fl v e s = Inr s' \<and> keeps s s' (4 * (b - a))"
  using assms
proof (induction "b - a" arbitrary: a v s)
  case 0
  then have "\<not> v < e" by (simp add: word_less_nat_alt)
  with 0 show ?case by (subst map_seg.simps) (simp add: keeps_refl)
next
  case (Suc n)
  then have ab: "a < b" and lt: "v < e" by (simp_all add: word_less_nat_alt)
  from Suc(2,6) have "1 \<le> frames s" by simp
  from alloc_frame_keeps [OF Suc(3) this] obtain f s0 where 0: "alloc_pages 1 s = Inr (Some f, s0)" "keeps s s0 1" .
  have "3 \<le> frames s0" using keepsD(2) [OF 0(2), of 3] Suc(2,6) by simp
  from map_4k_keeps [OF keepsD(1) [OF 0(2)] this] obtain s1 where 1: "map_4k pml4 v f fl s0 = Inr s1" "keeps s0 s1 3" by blast
  have s1: "keeps s s1 4" using keeps_trans [OF 0(2) 1(2)] by simp
  have "unat v + 4096 < 2 ^ 64" using ab Suc(4,5) unat_u64_lt [of e] by simp
  then have v': "unat (v + 4096) = 4096 * Suc a" "add_chk v PAGE_SIZE = Inr (v + 4096)"
    using Suc(4) by (simp_all add: unat_add_no_wrap add_chk_nat)
  have "4 * (b - Suc a) \<le> frames s1" using keepsD(2) [OF s1, of "4 * (b - Suc a)"] Suc(2,6) by simp
  moreover have "n = b - Suc a" using Suc(2) by simp
  ultimately obtain s2 where s2: "map_seg pml4 fl (v + 4096) e s1 = Inr s2" "keeps s1 s2 (4 * (b - Suc a))"
    using Suc(1) [OF _ keepsD(1) [OF s1] v'(1) Suc(5)] by blast
  have "keeps s s2 (4 * (b - a))" using keeps_trans [OF s1 s2(2)] ab by simp
  with lt 0(1) 1(1) s2(1) v'(2) show ?case by (subst map_seg.simps) (simp add: alloc_frame_def)
qed

lemma hhdm_fill_keeps: "keeps s (hhdm_fill_pd pd base s') k = keeps s s' k"
proof -
  have "keeps s (fold (\<lambda>j s. vwrite64 (table_entry_mut pd (of_nat j)) (g j) s) js t) k = keeps s t k" for g js t
    by (induction js arbitrary: t) simp_all
  then show ?thesis by (simp add: hhdm_fill_pd_def)
qed

lemma hhdm_chunks_keeps:
  fixes s :: "'z heap_state_scheme"
  assumes "pmm_inv s" "length is \<le> frames s"
  shows "\<exists>s'. hhdm_chunks pdpt is s = Inr s' \<and> keeps s s' (length is)"
  using assms
proof (induction "is" arbitrary: s)
  case Nil
  then show ?case by (simp add: keeps_refl)
next
  case (Cons i "is")
  from alloc_table_keeps [OF Cons(2)] Cons(3) obtain pd s1 where
    1: "user_alloc_table s = Inr (pd, s1)" "keeps s s1 1" by auto
  let ?s2 = "hhdm_fill_pd pd (of_nat i * (1024 * 1024 * 1024))
      (vwrite64 (table_entry_mut pdpt (of_nat i)) (pd OR (PTE_P OR PTE_RW)) s1)"
  have 2: "keeps s ?s2 1" using 1(2) by (simp add: hhdm_fill_keeps)
  have "length is \<le> frames ?s2" using keepsD(2) [OF 2, of "length is"] Cons(3) by simp
  from Cons(1) [OF keepsD(1) [OF 2] this] obtain s3 where
    3: "hhdm_chunks pdpt is ?s2 = Inr s3" "keeps ?s2 s3 (length is)" by blast
  with 1(1) keeps_trans [OF 2 3(2)] show ?case by (simp add: Let_def)
qed

text \<open>The number of 1 GiB chunks of the direct map.\<close>

definition gib_chunks :: "u64 \<Rightarrow> nat" where
  "gib_chunks m = min ((unat m + 2 ^ 30) div 2 ^ 30) 512"

lemma pdpt_entries_total:
  assumes "unat m + 2 ^ 32 \<le> 2 ^ 64"
  shows "\<exists>e. pdpt_entries_for m = Inr (e, gib_chunks m)"
proof -
  have sa: "unat (saturating_add m 1) = unat m + 1" using assms by (simp add: word_nat)
  have gib: "GIB = 2 ^ 30" by (simp add: GIB_def)
  define q where "q = (unat m + 2 ^ 30) div 2 ^ 30"
  have fit: "unat (saturating_add m 1) + (2 ^ 30 - 1) < 2 ^ 64" using sa assms by simp
  then obtain e where e: "align_up (saturating_add m 1) GIB = Inr e"
    using align_up_pow2_eq [of 30 "saturating_add m 1"] unfolding gib by auto
  with align_up_pow2_Inr [of 30 "saturating_add m 1" e] gib sa have ue: "unat e = q * 2 ^ 30"
    by (simp add: q_def)
  have qb: "q * 2 ^ 30 \<le> unat m + 2 ^ 30" unfolding q_def by (rule div_times_less_eq_dividend)
  then have lt: "unat e + unat (GIB - 1) < 2 ^ 64" using assms ue gib by (simp add: gib)
  then have c: "add_chk e (GIB - 1) = Inr (e + (GIB - 1))" by (simp add: add_chk_nat)
  have "unat (e + (GIB - 1)) = q * 2 ^ 30 + (2 ^ 30 - 1)" using lt ue by (simp add: unat_add_no_wrap gib)
  then have "unat ((e + (GIB - 1)) div GIB) = q" by (simp add: unat_div gib)
  then have "unat (min ((e + (GIB - 1)) div GIB) 512) = gib_chunks m"
    by (simp add: gib_chunks_def q_def min_def word_le_nat_alt)
  with e c show ?thesis by (simp add: pdpt_entries_for_def)
qed

lemma map_hhdm_keeps:
  fixes s :: "'z heap_state_scheme"
  assumes "pmm_inv s" "unat m + 2 ^ 32 \<le> 2 ^ 64" "1 + gib_chunks m \<le> frames s"
  shows "\<exists>s'. map_hhdm_huge pml4 m s = Inr s' \<and> keeps s s' (1 + gib_chunks m)"
proof -
  from pdpt_entries_total [OF assms(2)] obtain e where e: "pdpt_entries_for m = Inr (e, gib_chunks m)" ..
  from alloc_table_keeps [OF assms(1)] assms(3) obtain pdpt s1 where
    1: "user_alloc_table s = Inr (pdpt, s1)" "keeps s s1 1" by auto
  let ?s2 = "vwrite64 (table_entry_mut pml4 256) (pdpt OR (PTE_P OR PTE_RW)) s1"
  have 2: "keeps s ?s2 1" using 1(2) by simp
  have "length [0..<gib_chunks m] \<le> frames ?s2" using keepsD(2) [OF 2, of "gib_chunks m"] assms(3) by simp
  from hhdm_chunks_keeps [OF keepsD(1) [OF 2] this, of pdpt] obtain s3 where
    3: "hhdm_chunks pdpt [0..<gib_chunks m] ?s2 = Inr s3" "keeps ?s2 s3 (gib_chunks m)" by auto
  with e 1(1) keeps_trans [OF 2 3(2)] show ?thesis by (simp add: map_hhdm_huge_def Let_def)
qed

lemma load_stub_keeps:
  fixes s :: "'z heap_state_scheme"
  assumes "pmm_inv s" "4 \<le> frames s"
  shows "\<exists>s'. load_code pml4 [] s = Inr (USER_CODE_V, s') \<and> keeps s s' 4"
proof -
  from alloc_frame_keeps [OF assms(1)] assms(2) obtain f s1 where
    1: "alloc_pages 1 s = Inr (Some f, s1)" "keeps s s1 1" by auto
  have "3 \<le> frames s1" using keepsD(2) [OF 1(2), of 3] assms(2) by simp
  from map_4k_keeps [OF keepsD(1) [OF 1(2)] this] obtain s2 where
    2: "map_4k pml4 USER_CODE_V f PTE_U s1 = Inr s2" "keeps s1 s2 3" by blast
  with 1 keeps_trans [OF 1(2) 2(2), of 4] show ?thesis by (simp add: load_code_def alloc_frame_def Let_def)
qed

lemma kstack_total:
  fixes s :: "'z heap_state_scheme"
  assumes "heap_inv s" "h_ready (HEAP s)" "unat (h_next (HEAP s)) + 16384 \<le> unat (h_end (HEAP s))"
  shows "\<exists>k s'. kstack_alloc_top s = Inr (k, s') \<and> 16384 \<le> unat k"
proof -
  have l: "layout_ok (KSTACK_SIZE, 1)" by (auto simp: layout_ok_def intro: exI [of _ 0])
  have sz: "unat KSTACK_SIZE = 16384" by (simp add: KSTACK_SIZE_def)
  show ?thesis
    using assms(1) l
  proof (cases rule: kalloc_cases)
    case (grant b e)
    then have "unat b + 16384 < 2 ^ 64" using sz unat_u64_lt [of e] by simp
    then have "add_chk b KSTACK_SIZE = Inr (b + KSTACK_SIZE)" "16384 \<le> unat (b + KSTACK_SIZE)"
      using sz by (simp_all add: add_chk_nat unat_add_no_wrap)
    with grant show ?thesis by (simp add: kstack_alloc_top_def)
  qed (use assms sz in auto)
qed

section \<open>Building a process\<close>

text \<open>The frames a process takes: its top-level table, three tables at most for each page of the kernel
  image, the direct map, the four stack pages and the code page, each with three tables at most.\<close>

definition proc_frames :: "u64 \<Rightarrow> u64 \<Rightarrow> u64 \<Rightarrow> nat" where
  "proc_frames kb ke m = 1 + 3 * ((unat ke + 4095) div 4096 - unat kb div 4096) + (1 + gib_chunks m) + 16 + 4"

text \<open>All that comes before the program, and all that comes after it.\<close>

lemma build_proc_prefix:
  fixes s :: "'z user_state_scheme"
  assumes "unat (BOOT_KE s) + 4096 \<le> 2 ^ 64" "unat (BOOT_MAX s) + 2 ^ 32 \<le> 2 ^ 64" "pmm_inv s"
    "proc_frames (BOOT_KB s) (BOOT_KE s) (BOOT_MAX s) + k \<le> frames s"
  obtains pml4 s1 ke s2 s3 s4 where "user_alloc_table s = Inr (pml4, s1)" "align_up (BOOT_KE s) PAGE_SIZE = Inr ke"
    "map_identity pml4 (align_down (BOOT_KB s) PAGE_SIZE) ke s1 = Inr s2" "map_hhdm_huge pml4 (BOOT_MAX s) s2 = Inr s3"
    "map_stack pml4 [0..<4] s3 = Inr s4" "pmm_inv s4" "4 + k \<le> frames s4" "HEAP s4 = HEAP s"
proof -
  let ?k = "3 * ((unat (BOOT_KE s) + 4095) div 4096 - unat (BOOT_KB s) div 4096)" and ?g = "gib_chunks (BOOT_MAX s)"
  have n: "1 + ?k + (1 + ?g) + 16 + (4 + k) \<le> frames s" using assms(4) by (simp add: proc_frames_def)
  from alloc_table_keeps [OF assms(3)] n obtain pml4 s1 where
    1: "user_alloc_table s = Inr (pml4, s1)" "keeps s s1 1" by auto
  obtain ke where ke: "align_up (BOOT_KE s) PAGE_SIZE = Inr ke"
    using align_up_pow2_eq [of 12 "BOOT_KE s"] assms(1) by fastforce
  have uke: "unat ke = 4096 * ((unat (BOOT_KE s) + 4095) div 4096)" using align_up_page_Inr [OF ke] by simp
  have kb: "unat (align_down (BOOT_KB s) PAGE_SIZE) = 4096 * (unat (BOOT_KB s) div 4096)" by (simp add: word_nat)
  have "?k \<le> frames s1" using keepsD(2) [OF 1(2), of ?k] n by simp
  from map_identity_keeps [OF keepsD(1) [OF 1(2)] kb uke this] obtain s2 where
    2: "map_identity pml4 (align_down (BOOT_KB s) PAGE_SIZE) ke s1 = Inr s2" "keeps s1 s2 ?k" by blast
  have k2: "keeps s s2 (1 + ?k)" using keeps_trans [OF 1(2) 2(2)] by simp
  have "1 + ?g \<le> frames s2" using keepsD(2) [OF k2, of "1 + ?g"] n by simp
  from map_hhdm_keeps [OF keepsD(1) [OF k2] assms(2) this] obtain s3 where
    3: "map_hhdm_huge pml4 (BOOT_MAX s) s2 = Inr s3" "keeps s2 s3 (1 + ?g)" by blast
  have k3: "keeps s s3 (1 + ?k + (1 + ?g))" using keeps_trans [OF k2 3(2)] by simp
  have "4 * length [0..<4] \<le> frames s3" using keepsD(2) [OF k3, of 16] n by simp
  from map_stack_keeps [OF keepsD(1) [OF k3] this] obtain s4 where
    4: "map_stack pml4 [0..<4] s3 = Inr s4" "keeps s3 s4 (4 * length [0..<4])" by blast
  have k4: "keeps s s4 (1 + ?k + (1 + ?g) + 16)" using keeps_trans [OF k3 4(2)] by simp
  have "4 + k \<le> frames s4" using keepsD(2) [OF k4, of "4 + k"] n by simp
  then show thesis using that 1(1) ke 2(1) 3(1) 4(1) k4 by (simp add: keeps_def)
qed

lemma build_proc_rest:
  fixes s :: "'z user_state_scheme"
  assumes "BOOT_KB s \<noteq> 0" "BOOT_KE s \<noteq> 0" "BOOT_MAX s \<noteq> 0" "user_alloc_table s = Inr (pml4, s1)"
    "align_up (BOOT_KE s) PAGE_SIZE = Inr ke" "map_identity pml4 (align_down (BOOT_KB s) PAGE_SIZE) ke s1 = Inr s2"
    "map_hhdm_huge pml4 (BOOT_MAX s) s2 = Inr s3" "map_stack pml4 [0..<4] s3 = Inr s4" "load_code pml4 elf s4 = Inr (ev, s5)"
    "HEAP s5 = HEAP s" "heap_inv s" "h_ready (HEAP s)" "unat (h_next (HEAP s)) + 16384 \<le> unat (h_end (HEAP s))"
  shows "\<exists>r s'. build_proc_from_init elf role c s = Inr (r, s')"
proof -
  from kstack_total [of s5] assms(10-13) obtain kst s6 where
    6: "kstack_alloc_top s5 = Inr (kst, s6)" "16384 \<le> unat kst" by (auto simp: heap_inv_def)
  then have "TF_SIZE \<le> kst" by (simp add: TF_SIZE_def word_le_nat_alt)
  with assms(1-9) 6(1) show ?thesis by (auto simp: build_proc_from_init_def build_initial_tf_def sub_chk_def Let_def)
qed

lemma build_proc_total:
  fixes s :: "'z user_state_scheme"
  assumes "BOOT_KB s \<noteq> 0" "BOOT_KE s \<noteq> 0" "BOOT_MAX s \<noteq> 0" "unat (BOOT_KE s) + 4096 \<le> 2 ^ 64"
    "unat (BOOT_MAX s) + 2 ^ 32 \<le> 2 ^ 64" "pmm_inv s" "heap_inv s" "h_ready (HEAP s)"
    "unat (h_next (HEAP s)) + 16384 \<le> unat (h_end (HEAP s))"
    "proc_frames (BOOT_KB s) (BOOT_KE s) (BOOT_MAX s) \<le> frames s"
  shows "\<exists>r s'. build_proc_from_init [] role c s = Inr (r, s')"
proof -
  have "proc_frames (BOOT_KB s) (BOOT_KE s) (BOOT_MAX s) + 0 \<le> frames s" using assms(10) by simp
  then obtain pml4 s1 ke s2 s3 s4 where p: "user_alloc_table s = Inr (pml4, s1)" "align_up (BOOT_KE s) PAGE_SIZE = Inr ke"
    "map_identity pml4 (align_down (BOOT_KB s) PAGE_SIZE) ke s1 = Inr s2" "map_hhdm_huge pml4 (BOOT_MAX s) s2 = Inr s3"
    "map_stack pml4 [0..<4] s3 = Inr s4" "pmm_inv s4" "4 + 0 \<le> frames s4" "HEAP s4 = HEAP s"
    by (rule build_proc_prefix [OF assms(4-6)])
  have "4 \<le> frames s4" using p(7) by simp
  from load_stub_keeps [OF p(6) this] obtain s5 where
    5: "load_code pml4 [] s4 = Inr (USER_CODE_V, s5)" "keeps s4 s5 4" by blast
  from build_proc_rest [OF assms(1-3) p(1-5) 5(1) _ assms(7-9)] 5(2) p(8) show ?thesis by (simp add: keeps_def)
qed

end
