(* ===== verification/Kernel_Props.thy ===== *)
theory Kernel_Props
  imports Kernel_Reach Proc_Build
begin

text \<open>
  The theorems about the kernel as a whole: it does not panic, interrupts are transparent to the
  interrupted process, authority spreads only along existing connections, and unconnected processes
  stay isolated.
\<close>

section \<open>Properties of the running kernel\<close>

text \<open>A kernel with three processes: 0 runs, 1 waits on endpoint 1, which both hold, and 2 is ready and
  holds endpoint 2. The page table of process 0 maps address 0 to itself.\<close>

definition demo_proc :: "u64 \<Rightarrow> u64 \<Rightarrow> u32 \<Rightarrow> Proc" where
  "demo_proc kst root e = (new_proc (kst - 160) kst root)\<lparr>caps := e # replicate 31 0\<rparr>"

definition demo_pic :: pic8259 where
  "demo_pic = \<lparr>icw_step = 0, vec_offset = 32, cascade = 4, irq_mask = 0xFA, in_service = True\<rparr>"

definition demo_kernel :: user_state where
  "demo_kernel = \<lparr>mem = wr64 (wr64 (\<lambda>_. 0) 0x1000 0x1007) 0x2fffb8 4, cr3 = 0x1000, tss_rsp0 = 0xffff800000200000,
     serial_out = [], port_writes = [], PMM = None, PML4_PHYS = 0, KMAP_NEXT = KMAP_BASE, HEAP = LockedBump_new,
     INITED = True, CURRENT = 0, TICKS = 0, MANTRA_NEXT_CR3 = 0x1000,
     PROCS = [demo_proc 0xffff800000200000 0x1000 1,
       (demo_proc 0xffff800000300000 0x2000 1)\<lparr>runnable := False, blocked_ep := 1\<rparr>,
       demo_proc 0xffff800000400000 0x3000 2] @ replicate 5 empty_proc,
     ENDPOINTS = empty_endpoint\<lparr>waiters := 1 # replicate 7 0, wait_tail := 1\<rparr> # replicate 31 empty_endpoint,
     NEXT_EP = 2, BOOT_KB = 0x100000, BOOT_KE = 0x101000, BOOT_MAX = 0x1000000\<rparr>"

lemma demo_endpoint:
  "ep_ok (empty_endpoint\<lparr>waiters := 1 # replicate 7 0, wait_tail := 1\<rparr>)"
  "w_contents (empty_endpoint\<lparr>waiters := 1 # replicate 7 0, wait_tail := 1\<rparr>) = [1]"
  "q_contents (empty_endpoint\<lparr>waiters := 1 # replicate 7 0, wait_tail := 1\<rparr>) = []"
  by (simp_all add: ep_ok_def q_wf_def w_inv_def empty_endpoint_def q_contents_def q_ring_def w_contents_def
      ring_list_def EMPTY_MSG_def msg_ok_def Q_LEN_def MAX_WAITERS_def MAX_MSG_def list_all_iff)

lemma demo_nth:
  "i < 32 \<Longrightarrow> ENDPOINTS demo_kernel ! i = (if i = 0 then empty_endpoint\<lparr>waiters := 1 # replicate 7 0, wait_tail := 1\<rparr>
     else empty_endpoint)"
  by (cases i) (simp_all add: demo_kernel_def)

lemma demo_inv: "sys_inv 2 demo_kernel"
proof -
  let ?s = demo_kernel
  have si: "sched_inv ?s"
    by (simp add: sched_inv_def demo_kernel_def MAX_PROCS_def demo_proc_def proc_ok_def new_proc_def empty_proc_def
        list_all_iff)
  have "ids_ok 2 (PROCS ?s) (ENDPOINTS ?s)"
    using boot_endpoints(4)
    by (auto simp: ids_ok_def demo_kernel_def demo_proc_def new_proc_def empty_proc_def id_ok_def)
  moreover have "stacks_ok (PROCS ?s)"
    by (auto simp: stacks_ok_def demo_kernel_def demo_proc_def new_proc_def empty_proc_def)
  moreover have "waiters_ok (PROCS ?s) (ENDPOINTS ?s)"
    using boot_endpoints(2,3) demo_endpoint
    by (auto simp: waiters_ok_def demo_nth waiter_ok_def)
      (simp_all add: demo_kernel_def demo_proc_def new_proc_def)
  moreover have "counts_ok 2 ?s" using boot_endpoints(5,6) by (auto simp: counts_ok_def demo_kernel_def)
  moreover have "ipc_inv ?s" using si boot_endpoints(1) demo_endpoint(1) by (simp add: ipc_inv_def demo_kernel_def list_all_iff)
  ultimately have "core_inv 2 ?s" by (simp add: core_inv_def) (simp add: demo_kernel_def)
  then show ?thesis by (simp add: sys_inv_def) (simp add: demo_kernel_def ready_def demo_proc_def new_proc_def)
qed

lemma demo_auth:
  "auth demo_kernel 0 = {1}" "auth demo_kernel 1 = {1}" "auth demo_kernel 2 = {2}"
  "3 \<le> pid \<Longrightarrow> pid < 8 \<Longrightarrow> auth demo_kernel pid = {}" "i < 32 \<Longrightarrow> queued demo_kernel i = {}"
  using boot_endpoints(2) demo_endpoint(3)
  by (auto simp: auth_def demo_kernel_def demo_proc_def new_proc_def queued_def empty_proc_def nth_append nth_Cons'
      split: if_splits)

lemma demo_timer: "\<exists>r' s'. mantra_timer_irq_stub r demo_kernel = Inr (r', s')"
  by (rule timer_stub_post [OF demo_inv, of r]) auto

text \<open>A machine with one free range of 1 MiB and a heap of 64 KiB, before the first process.\<close>

definition demo_start :: user_state where
  "demo_start = demo_kernel\<lparr>
     PMM := Some \<lparr>ranges = \<lparr>r_base = 0x1000000, r_end = 0x1100000\<rparr> # replicate 127 \<lparr>r_base = 0, r_end = 0\<rparr>, pm_len = 1, cursor = 0\<rparr>,
     HEAP := \<lparr>h_start = 0xffff800000600000, h_end = 0xffff800000610000, h_next = 0xffff800000600000, h_ready = True\<rparr>,
     ENDPOINTS := replicate 32 empty_endpoint, NEXT_EP := 0\<rparr>"

lemma demo_start_ok: "boot_state demo_start" "pmm_inv demo_start" "frames demo_start = 256" "heap_inv demo_start"
  "h_ready (HEAP demo_start)" "unat (h_next (HEAP demo_start)) + 16384 \<le> unat (h_end (HEAP demo_start))"
  by (simp_all add: demo_start_def boot_state_def demo_kernel_def pmm_inv_def pmm_wf_def live_def separated_def
      page_aligned_def MAX_RANGES_def frames_def range_frames_def heap_inv_def)

lemma first_user_total:
  fixes s :: user_state
  assumes "kb \<noteq> 0" "ke \<noteq> 0" "hint \<noteq> 0" "unat ke + 4096 \<le> 2 ^ 64" "unat hint + 2 ^ 32 \<le> 2 ^ 64"
    "pmm_inv s" "heap_inv s" "h_ready (HEAP s)" "unat (h_next (HEAP s)) + 16384 \<le> unat (h_end (HEAP s))"
    "proc_frames kb ke hint \<le> frames s"
  shows "\<exists>tf s'. enter_first_user [] kb ke hint s = Inr (tf, s')"
proof -
  define s1 where "s1 = (write_str (''user: setting up address space'' @ nl) s)
    \<lparr>BOOT_KB := kb, BOOT_KE := ke, BOOT_MAX := hint\<rparr>"
  have e: "PMM s1 = PMM s" "HEAP s1 = HEAP s" "BOOT_KB s1 = kb" "BOOT_KE s1 = ke" "BOOT_MAX s1 = hint"
    by (simp_all add: s1_def serial_eqs)
  have "\<exists>r s'. build_proc_from_init [] 0 0 s1 = Inr (r, s')"
    by (rule build_proc_total) (use assms e in \<open>simp_all add: pmm_inv_def frames_def heap_inv_def\<close>)
  then show ?thesis unfolding enter_first_user_def Let_def s1_def [symmetric] by fastforce
qed

text \<open>The first process can be entered. With a kernel image that ends below the last page, a memory
  size below the last 4 GiB, room for a kernel stack on the heap and the frames an address space
  takes, \<open>enter_first_user\<close> returns the frame to resume, without panicking.\<close>

theorem first_user_returns:
  fixes s :: user_state
  assumes "kb \<noteq> 0" "ke \<noteq> 0" "hint \<noteq> 0" "unat ke + 4096 \<le> 2 ^ 64" "unat hint + 2 ^ 32 \<le> 2 ^ 64"
    "pmm_inv s" "heap_inv s" "h_ready (HEAP s)" "unat (h_next (HEAP s)) + 16384 \<le> unat (h_end (HEAP s))"
    "proc_frames kb ke hint \<le> frames s"
  shows "\<exists>tf s'. enter_first_user [] kb ke hint s = Inr (tf, s')"
  using assms by (rule first_user_total)

theorem first_user_returns_witness:
  "\<exists>tf s'. enter_first_user [] 0x100000 0x110000 0x10000000 demo_start = Inr (tf, s')"
  by (rule first_user_returns [OF _ _ _ _ _ demo_start_ok(2,4-6)])
    (simp_all add: demo_start_ok(3) proc_frames_def gib_chunks_def)

text \<open>C1: the kernel invariant holds in every reachable state. After the first process has been entered
  from the boot state, and after any sequence of fewer than \<open>2 ^ 64\<close> system calls, timer interrupts
  and periods of user-mode execution, whatever registers and memory contents the processes produce:
  the current process is alive and ready and runs on its own kernel stack in its own address space,
  every process in a waiting ring is blocked on that endpoint and holds it, no process waits twice, no
  endpoint has both waiting receivers and queued messages, every endpoint number in a capability
  table or a message has been handed out, and no counter has wrapped around.\<close>

theorem kernel_invariant:
  assumes "reach elf n s" "n < 2 ^ 64"
  shows "sys_inv n s \<and> tidy s"
  using assms by (rule reach_inv)

theorem kernel_invariant_witness: "\<exists>s. reach [] 1 s \<and> sys_inv 1 s"
proof -
  have "\<exists>tf s. enter_first_user [] 0x100000 0x110000 0x10000000 demo_start = Inr (tf, s)"
    by (rule first_user_total [OF _ _ _ _ _ demo_start_ok(2,4-6)])
      (simp_all add: demo_start_ok(3) proc_frames_def gib_chunks_def)
  then obtain tf s where e: "enter_first_user [] 0x100000 0x110000 0x10000000 demo_start = Inr (tf, s)" by blast
  have r0: "reach [] 0 s" by (rule start [OF demo_start_ok(1) e])
  have "sys_inv 0 s" using reach_inv [OF r0] by simp
  then obtain r' s' where "mantra_timer_irq_stub (\<lambda>_. 7) s = Inr (r', s')"
    by (rule timer_stub_post [of 0 s "\<lambda>_. 7"]) simp
  then have "kstep [] s (Timer (\<lambda>_. 7)) s'" by (rule timer)
  then have "reach [] 1 s'" using step [OF r0] by simp
  with kernel_invariant [OF this] show ?thesis by auto
qed

text \<open>C7: no system call and no timer interrupt panics the kernel, with the exception of creating a
  process. In every state that satisfies the invariant, with any register contents, the timer stub
  returns, and the system-call stub returns unless \<open>rax\<close> asks for a new process.\<close>

theorem interrupts_return:
  fixes s :: user_state
  assumes "sys_inv n s" "n + 1 < 2 ^ 64"
  shows "(\<exists>r' s'. mantra_timer_irq_stub r s = Inr (r', s'))
    \<and> (r RAX \<noteq> SYS_PROC_SPAWN \<longrightarrow> (\<exists>r' s'. mantra_syscall80_stub elf r s = Inr (r', s')))"
proof (intro conjI impI)
  show "\<exists>r' s'. mantra_timer_irq_stub r s = Inr (r', s')" using timer_stub_post [OF assms] by metis
  assume "r RAX \<noteq> SYS_PROC_SPAWN"
  then have "tf_get RAX (ring0_stack s - 160) (snd (push_regs r (ring0_stack s) s)) \<noteq> SYS_PROC_SPAWN"
    by (simp add: pushed_words ring0_aligned)
  from syscall_post(2) [OF post_kview(1) [OF push_regs_frame(2) assms(1)] assms(2) ring0_frame [OF assms(1)] this]
  show "\<exists>r' s'. mantra_syscall80_stub elf r s = Inr (r', s')"
    unfolding syscall_stub_eq by (metis and_then.simps(2) prod.collapse)
qed

theorem interrupts_return_witness:
  "(\<exists>r' s'. mantra_timer_irq_stub (\<lambda>_. 7) demo_kernel = Inr (r', s'))
    \<and> (\<exists>r' s'. mantra_syscall80_stub [] (\<lambda>_. SYS_IPC_RECV) demo_kernel = Inr (r', s'))"
  using interrupts_return [OF demo_inv, of "\<lambda>_. 7" "[]"] interrupts_return [OF demo_inv, of "\<lambda>_. SYS_IPC_RECV" "[]"]
  by (simp add: SYS_IPC_RECV_def SYS_PROC_SPAWN_def)

text \<open>C8: the timer interrupt is transparent. It returns; afterwards the saved frame of the interrupted
  process holds exactly the register contents it was interrupted with, the process that is resumed
  continues with exactly the contents of its own saved frame (which are its own registers again if
  it is the interrupted process), and the processor runs in the resumed process's address space, with
  its kernel stack for the next interrupt. The interrupt controller has been told that the interrupt
  is finished, so the next one is delivered.\<close>

theorem timer_transparent:
  fixes s :: user_state
  assumes "sys_inv n s" "n + 1 < 2 ^ 64"
  shows "\<exists>r' s'. mantra_timer_irq_stub r s = Inr (r', s')
    \<and> mantra_trap_return (tf_rsp (PROCS s' ! CURRENT s)) s' = r
    \<and> r' = mantra_trap_return (tf_rsp (PROCS s' ! CURRENT s')) s'
    \<and> cr3 s' = p_cr3 (PROCS s' ! CURRENT s') \<and> tss_rsp0 s' = kstack_top (PROCS s' ! CURRENT s')
    \<and> \<not> in_service (fst (pics_after (port_writes s') ps))"
proof -
  let ?q = "snd (push_regs r (ring0_stack s) s)"
  let ?p = "pic_eoi 0 ?q" and ?tf = "ring0_stack s - 160"
  let ?t = "?p\<lparr>TICKS := TICKS ?p + 1\<rparr>"
  have k: "kview ?p = kview s" using push_regs_frame(2) kview_eoi by metis
  have m: "mem ?p = mem ?q" by (simp add: pic_eoi_def outb_def Let_def)
  note ke = kview_eqD [OF k]
  note d = sys_invD [OF post_kview(1) [OF k assms(1)]]
  have "TICKS ?p \<noteq> u64_max"
    using core_invD(10) [OF d(1)] assms(2) by (auto simp: counts_ok_def unat_minus_one_max)
  from on_timer_irqE [OF d(3) core_invD(3) [OF d(1)] this, of ?tf] obtain x s1 out where
    sw: "switch_from ?tf ?t = Inr (x, s1)" "on_timer_irq ?tf ?p = Inr (x, s1\<lparr>serial_out := out\<rparr>)" by metis
  have t: "sched_inv ?t" "\<forall>pid < 8. ready (PROCS ?t ! pid) \<longrightarrow> tf_rsp (PROCS ?t ! pid) \<noteq> 0"
    using d(3) proc_facts(1) [OF d(1)] by (simp_all add: sched_inv_def proc_ok_def ready_def)
  note sv = switch_saves [OF t(1) ring0_frame [OF assms(1)] t(2) sw(1)]
  obtain r' s' where st: "mantra_timer_irq_stub r s = Inr (r', s')" "sys_inv (n + 1) s'"
    using timer_stub_post [OF assms] by metis
  then have ex: "(r', s') = stub_exit ?tf (x, s1\<lparr>serial_out := out\<rparr>)"
    using sw(2) by (simp add: timer_stub_eq mantra_timer_irq_rust_def)
  then have s': "mem s' = mem ?q" "port_writes s' = port_writes ?p" "PROCS s' = PROCS s1" "CURRENT s' = CURRENT s1"
    using sv(1,4) m by (auto simp: stub_exit_def Let_def split: if_splits)
  have "r' = mantra_trap_return (if x = 0 then ?tf else x) s'"
    using ex by (auto simp: stub_exit_def Let_def split: if_splits)
  then have "r' = mantra_trap_return (tf_rsp (PROCS s' ! CURRENT s')) s'" using sv(3) s' by simp
  moreover have "mantra_trap_return (tf_rsp (PROCS s' ! CURRENT s)) s' = r"
    using saved_regs [of s' r s] s' sv(2) ke(2) by simp
  moreover have "\<not> in_service (fst (pics_after (port_writes s') ps))"
    unfolding s'(2) by (simp add: pic_eoi_writes acknowledged)
  ultimately show ?thesis using st by (auto simp: sys_inv_def)
qed

theorem timer_transparent_witness:
  "\<exists>r' s'. mantra_timer_irq_stub (\<lambda>_. 7) demo_kernel = Inr (r', s')
    \<and> mantra_trap_return (tf_rsp (PROCS s' ! 0)) s' = (\<lambda>_. 7)"
proof -
  have "CURRENT demo_kernel = 0" by (simp add: demo_kernel_def)
  with timer_transparent [OF demo_inv, of "\<lambda>_. 7" "(demo_pic, demo_pic)"] show ?thesis by auto
qed

text \<open>C9: connectivity begets connectivity. In one step of the kernel, whatever the event, a process
  gains an endpoint only if it is the current process and the endpoint is new or was queued for it on
  an endpoint it holds, or if it shares an endpoint with the current process (or is created by it)
  and the current process holds what it gains; an endpoint is queued only by a holder of both; no
  process dies and no endpoint number is handed out again.\<close>

theorem authority_confined:
  assumes "sys_inv n s" "n + 1 < 2 ^ 64" "kstep elf s e s'"
  shows "confined s s'"
  using assms by (rule kstep_post)

theorem authority_confined_witness: "\<exists>s'. kstep [] demo_kernel (Timer (\<lambda>_. 7)) s' \<and> confined demo_kernel s'"
proof -
  obtain r' s' where "mantra_timer_irq_stub (\<lambda>_. 7) demo_kernel = Inr (r', s')"
    using demo_timer by blast
  then have "kstep [] demo_kernel (Timer (\<lambda>_. 7)) s'" by (rule timer)
  with authority_confined [OF demo_inv _ this] show ?thesis by auto
qed

text \<open>C2: isolation. Colour the processes and endpoints so that no process holds and no queue contains an
  endpoint of another colour. Then, however long the kernel runs and whatever the processes do, two
  processes of different colours never come to hold a common endpoint.\<close>

theorem isolation:
  assumes "sys_inv n s" "tidy s" "coloured pc ec s" "run elf s k t" "n + k < 2 ^ 64"
    "p < 8" "q < 8" "alive (PROCS s ! p)" "alive (PROCS s ! q)" "pc p \<noteq> pc q"
  shows "auth t p \<inter> auth t q = {}"
proof -
  from run_coloured [OF assms(4,1,2,5,3)] obtain pc' ec' where c: "coloured pc' ec' t"
    "\<forall>pid < 8. alive (PROCS s ! pid) \<longrightarrow> alive (PROCS t ! pid) \<and> pc' pid = pc pid" by metis
  have "ec' e = pc' p" "ec' e = pc' q" if "e \<in> auth t p" "e \<in> auth t q" for e
    using c(1) that assms(6,7) unfolding coloured_def by blast+
  with c(2) assms(6-10) show ?thesis by fastforce
qed

theorem isolation_witness:
  "\<exists>t. run [] demo_kernel 1 t \<and> auth t 0 \<inter> auth t 2 = {}"
proof -
  obtain r' t where "mantra_timer_irq_stub (\<lambda>_. 7) demo_kernel = Inr (r', t)"
    using demo_timer by blast
  then have "run [] demo_kernel 1 t" using run_Suc [OF run_0 timer] by simp
  moreover have "auth demo_kernel pid = (if pid < 2 then {1} else if pid = 2 then {2} else {})" if "pid < 8" for pid
    using that demo_auth(1-3) demo_auth(4) [of pid] by (cases "pid < 3") (auto simp: less_Suc_eq numeral_3_eq_3)
  then have "coloured (\<lambda>pid. pid < 2) (\<lambda>e. e = 1) demo_kernel"
    by (auto simp: coloured_def demo_auth split: if_splits)
  moreover have "tidy demo_kernel" by (simp add: tidy_def demo_auth)
  moreover have "alive (PROCS demo_kernel ! 0)" "alive (PROCS demo_kernel ! 2)"
    by (simp_all add: demo_kernel_def demo_proc_def new_proc_def)
  ultimately show ?thesis using isolation [OF demo_inv, of "\<lambda>pid. pid < 2" "\<lambda>e. e = 1" "[]" 1 t 0 2] by auto
qed

text \<open>C37: a receiver with a bad buffer is blocked for ever. When a send finds a waiting receiver whose
  buffer does not translate in its address space, the sender gets an error and the receiver has left
  the waiting ring without being woken: in no later state of the kernel, however long it runs, is it
  ready again.\<close>

theorem failed_delivery_strands:
  fixes s :: user_state
  assumes "sys_inv n s" "tidy s" "n + 1 < 2 ^ 64"
    "cap_lookup_current (ucast (tf_get RDI tf s)) s = Some e"
    "w_contents (ENDPOINTS s ! (unat e - 1)) = pid # rest"
    "user_copy_in (min (min (unat (tf_get RDX tf s)) 1024) 256) (tf_get RSI tf s) s = Some msg" "msg \<noteq> []"
    "virt_to_phys_in (p_cr3 (PROCS s ! pid)) (tf_get RSI (tf_rsp (PROCS s ! pid)) s) s = None"
    "tf_get RDX (tf_rsp (PROCS s ! pid)) s \<noteq> 0"
  shows "\<exists>s'. sys_send tf s = Inr (0, s') \<and> tf_get RAX tf s' = u64_max
    \<and> (\<forall>k t. run elf s' k t \<and> n + 1 + k < 2 ^ 64 \<longrightarrow> \<not> ready (PROCS t ! pid))"
proof -
  note d = sys_invD [OF assms(1)]
  note lk = lookup_id_ok [OF d(1) assms(4) [unfolded lookup_current]]
  from d(1) lk(2,4) show ?thesis
  proof (cases rule: waiter_popE)
    case none
    with assms(5) show ?thesis by simp
  next
    case (some p s1)
    have p: "p = pid" using some(9) assms(5) by simp
    have eq: "PROCS s1 = PROCS s" "mem s1 = mem s" by (subst some(5), simp)+
    have w: "pid < 8" "alive (PROCS s ! pid)" "\<not> runnable (PROCS s ! pid)"
      using some(3) p by (simp_all add: waiter_ok_def)
    define m where "m = min (min (min (unat (tf_get RDX (tf_rsp (PROCS s ! pid)) s)) 1024) 256) (length msg)"
    have "0 < m" using assms(7,9) by (simp add: unat_gt_0 m_def)
    then obtain b bs where bs: "take m msg = b # bs" using assms(7) by (cases msg; cases m) auto
    have same: "virt_to_phys_in c v s1 = virt_to_phys_in c v s" "tf_get f a s1 = tf_get f a s" for c v f a
      by (simp_all only: virt_to_phys_in_def tf_get_def vread64_def Let_def eq(2))
    have dl: "deliver_ipc pid msg 0 s1 = (u64_max, s1)"
      using bs assms(8) w(1) eq
      by (simp add: deliver_ipc_def proc_cr3_def proc_tf_rsp_def MAX_PROCS_def Let_def same m_def [symmetric])
    let ?s' = "tf_set RAX u64_max tf s1"
    have send: "sys_send tf s = Inr (0, ?s')"
      using assms(4,6) some(1) dl p by (simp add: sys_send_def send_from_def Let_def)
    from send_from_post [OF assms(1,3), of 0 tf "ucast (tf_get RDI tf s)"] send
    have post: "sys_inv (n + 1) ?s'" "confined s ?s'" unfolding sys_send_def by (metis Inr_inject prod.inject)+
    have st: "stuck ?s' pid"
      using w some(4) p eq by (auto simp: stuck_def tf_set_def vwrite64_def)
    have "tf_get RAX tf ?s' = u64_max" by (simp add: tf_get_def tf_set_def vread64_def vwrite64_def)
    moreover have "\<not> ready (PROCS t ! pid)" if "run elf ?s' k t" "n + 1 + k < 2 ^ 64" for k t
      using run_stuck [OF that(1) post(1) tidy_confined [OF d(1) assms(2) post(2)] that(2) w(1) st]
      by (simp add: stuck_def ready_def)
    ultimately show ?thesis using send by blast
  qed
qed

theorem failed_delivery_strands_witness:
  "\<exists>s'. sys_send 0xffff800000500000 (demo_kernel\<lparr>mem := wr64 (wr64 (mem demo_kernel) 0x500048 1) 0x500058 1\<rparr>) = Inr (0, s')
    \<and> \<not> ready (PROCS s' ! 1)"
proof -
  define s where "s = demo_kernel\<lparr>mem := wr64 (wr64 (mem demo_kernel) 0x500048 1) 0x500058 1\<rparr>"
  have k: "kview s = kview demo_kernel" by (simp add: s_def kview_simps)
  have inv: "sys_inv 2 s" "tidy s"
    using post_kview(1) [OF k demo_inv] queued_cong [of s demo_kernel] kview_eqD [OF k]
    by (simp_all add: tidy_def demo_auth)
  have m: "mem s = wr64 (wr64 (wr64 (wr64 (\<lambda>_. 0) 0x1000 0x1007) 0x2fffb8 4) 0x500048 1) 0x500058 1"
    by (simp add: s_def demo_kernel_def)
  have rd: "rd64 (mem s) 0x1000 = 0x1007" "rd64 (mem s) 0x2fffb8 = 4" "rd64 (mem s) 0x500048 = 1"
    "rd64 (mem s) 0x500058 = 1" "rd64 (mem s) 0x500040 = 0" "rd64 (mem s) 0x2fffa0 = 0" "rd64 (mem s) 0x2000 = 0"
    by (simp_all add: m rd64_wr64 aligned8_def) (simp_all add: rd64_def)
  have p1: "tf_rsp (PROCS s ! 1) = 0xffff8000002fff60" "p_cr3 (PROCS s ! 1) = 0x2000" "cr3 s = 0x1000"
    by (simp_all add: s_def demo_kernel_def demo_proc_def new_proc_def)
  have f: "tf_get RDI 0xffff800000500000 s = 1" "tf_get RSI 0xffff800000500000 s = 0"
    "tf_get RDX 0xffff800000500000 s = 1" "tf_get RSI 0xffff8000002fff60 s = 0" "tf_get RDX 0xffff8000002fff60 s = 4"
    by (simp_all add: tf_get_def tf_addr_def vread64_def HHDM_BASE_def rd)
  have v: "user_virt_to_phys 0 s = Some 0x1000" "virt_to_phys_in 0x2000 0 s = None"
    by (simp_all add: user_virt_to_phys_def virt_to_phys_in_def current_user_pml4_def Let_def p1 pt_index_def
        vread64_def phys_to_virt_def HHDM_BASE_def ADDR_MASK_def PTE_P_def PTE_U_def rd)
  have l: "cap_lookup_current (ucast (tf_get RDI 0xffff800000500000 s)) s = Some 1"
    by (simp add: f cap_lookup_current_def current_pid_def MAX_PROCS_def Let_def)
      (simp add: s_def demo_kernel_def demo_proc_def)
  have w: "w_contents (ENDPOINTS s ! (unat (1 :: u32) - 1)) = [1]"
    using demo_nth [of 0] demo_endpoint(2) kview_eqD(6) [OF k] by simp
  have c: "user_copy_in (min (min (unat (tf_get RDX 0xffff800000500000 s)) 1024) 256) (tf_get RSI 0xffff800000500000 s) s
      = Some [vread8 (phys_to_virt 0x1000) s]"
    by (simp add: f v numeral_eq_Suc)
  from failed_delivery_strands [OF inv _ l w c, of "[]"] p1 f v obtain s' where
    "sys_send 0xffff800000500000 s = Inr (0, s')" "\<forall>k t. run [] s' k t \<and> 2 + 1 + k < 2 ^ 64 \<longrightarrow> \<not> ready (PROCS t ! 1)"
    by auto
  moreover have "run [] s' 0 s'" by (rule run_0)
  ultimately show ?thesis unfolding s_def by fastforce
qed

end
