(* ===== verification/Kernel_Space.thy ===== *)
theory Kernel_Space
  imports Kmap_Props Kernel_Props
begin

text \<open>
  The kernel's address space, complete: \<open>paging_init\<close> and the KMAP allocations return while frames are
  left, and what they have mapped stays mapped.
\<close>

section \<open>Frames taken\<close>

lemma paging_table_keeps:
  fixes s :: "'z heap_state_scheme"
  assumes "pmm_inv s" "1 \<le> frames s"
  obtains t s' where "paging_alloc_table s = Inr (t, s')" "keeps s s' 1"
proof -
  from alloc_frame_keeps [OF assms] obtain a s' where "alloc_pages 1 s = Inr (Some a, s')" "keeps s s' 1" .
  then show thesis using that [of a "zero_page a s'"] by (simp add: paging_alloc_table_def alloc_table_msg_def)
qed

lemma map_chunks_keeps:
  fixes s :: "'z heap_state_scheme"
  assumes "pmm_inv s" "length is \<le> frames s"
  shows "\<exists>s'. map_chunks pdpt is s = Inr s' \<and> keeps s s' (length is)"
  using assms
proof (induction "is" arbitrary: s)
  case Nil
  then show ?case by (simp add: keeps_refl)
next
  case (Cons i "is")
  from paging_table_keeps [OF Cons(2)] Cons(3) obtain pd s1 where
    1: "paging_alloc_table s = Inr (pd, s1)" "keeps s s1 1" by auto
  let ?s2 = "s1\<lparr>mem := fill_pd pd (of_nat i * GIB) (wr64 (mem s1) (pdpt + 8 * of_nat i) (pd OR (PTE_P OR PTE_RW)))\<rparr>"
  have 2: "keeps s ?s2 1" using 1(2) by (simp add: keeps_mem)
  have "length is \<le> frames ?s2" using keepsD(2) [OF 2, of "length is"] Cons(3) by simp
  from Cons(1) [OF keepsD(1) [OF 2] this] obtain s3 where
    3: "map_chunks pdpt is ?s2 = Inr s3" "keeps ?s2 s3 (length is)" by blast
  with 1(1) keeps_trans [OF 2 3(2)] show ?case by (simp add: Let_def)
qed

lemma gib_chunks_pos: "gib_chunks m \<noteq> 0"
  by (simp add: gib_chunks_def div_eq_0_iff)

lemma paging_init_keeps:
  fixes s :: "'z heap_state_scheme"
  assumes "pmm_inv s" "unat m + 2 ^ 32 \<le> 2 ^ 64" "2 + gib_chunks m \<le> frames s"
  shows "\<exists>s'. paging_init m s = Inr ((), s') \<and> keeps s s' (2 + gib_chunks m)"
proof -
  from pdpt_entries_total [OF assms(2)] obtain e where e: "pdpt_entries_for m = Inr (e, gib_chunks m)" ..
  from paging_table_keeps [OF assms(1)] assms(3) obtain root s1 where
    1: "paging_alloc_table s = Inr (root, s1)" "keeps s s1 1" by auto
  from paging_table_keeps [OF keepsD(1) [OF 1(2)] keepsD(2) [OF 1(2)]] assms(3) obtain pdpt s2 where
    2: "paging_alloc_table s1 = Inr (pdpt, s2)" "keeps s1 s2 1" by auto
  let ?s3 = "s2\<lparr>mem := wr64 (wr64 (mem s2) (root + 8 * 0) (pdpt OR (PTE_P OR PTE_RW))) (root + 8 * 256) (pdpt OR (PTE_P OR PTE_RW))\<rparr>"
  have k: "keeps s ?s3 2" using keeps_trans [OF 1(2) 2(2)] by (simp add: keeps_mem)
  have "length [0..<gib_chunks m] \<le> frames ?s3" using keepsD(2) [OF k, of "gib_chunks m"] assms(3) by simp
  from map_chunks_keeps [OF keepsD(1) [OF k] this, of pdpt] obtain s4 where
    4: "map_chunks pdpt [0..<gib_chunks m] ?s3 = Inr s4" "keeps ?s3 s4 (gib_chunks m)" by auto
  have "keeps s s4 (2 + gib_chunks m)" by (rule keeps_trans [OF k 4(2)]) simp
  then show ?thesis
    using e 1(1) 2(1) 4(1) gib_chunks_pos [of m]
    by (simp add: paging_init_def Let_def load_cr3_def keeps_def serial_eqs pmm_inv_def frames_def)
qed

lemma kget_keeps:
  fixes s :: "'z heap_state_scheme"
  assumes "pmm_inv s" "1 \<le> frames s"
  obtains t s' where "kget_or_alloc_table ent s = Inr (t, s')" "keeps s s' 1"
proof (cases "vread64 ent s AND PTE_P = 0")
  case True
  from paging_table_keeps [OF assms] obtain t s' where t: "paging_alloc_table s = Inr (t, s')" "keeps s s' 1" .
  show thesis
    by (rule that [of t "vwrite64 ent (t OR (PTE_P OR PTE_RW)) s'"])
      (use True t in \<open>simp_all add: kget_or_alloc_table_def Let_def\<close>)
next
  case False
  show thesis
    by (rule that [of "vread64 ent s AND 0x000ffffffffff000" s])
      (use False assms in \<open>simp_all add: kget_or_alloc_table_def Let_def keeps_refl\<close>)
qed

lemma kmap_alloc_keeps:
  fixes s :: "'z heap_state_scheme"
  assumes "pmm_inv s" "3 \<le> frames s"
  obtains v s' where "kmap_alloc_4k p s = Inr (v, s')" "keeps s s' 3"
proof (cases "PML4_PHYS s = 0")
  case True
  let ?s0 = "s\<lparr>KMAP_NEXT := KMAP_NEXT s + PAGE_SIZE\<rparr>"
  show thesis
    by (rule that [of "KMAP_NEXT s" "write_str (''kmap: paging not initialized'' @ nl) ?s0"])
      (use True assms in \<open>simp_all add: kmap_alloc_4k_def kmap_map_4k_def Let_def keeps_def serial_eqs pmm_inv_def frames_def\<close>)
next
  case False
  let ?s0 = "s\<lparr>KMAP_NEXT := KMAP_NEXT s + PAGE_SIZE\<rparr>" and ?v = "align_down (KMAP_NEXT s) PAGE_SIZE"
  have 0: "keeps s ?s0 0" using assms(1) by (simp add: keeps_def pmm_inv_def frames_def)
  from kget_keeps [OF keepsD(1) [OF 0] keepsD(2) [OF 0]] assms(2) obtain a s1 where
    1: "kget_or_alloc_table (table_entry_mut (PML4_PHYS s) KMAP_PML4_INDEX) ?s0 = Inr (a, s1)" "keeps ?s0 s1 1" by auto
  have k1: "keeps s s1 1" by (rule keeps_trans [OF 0 1(2)]) simp
  from kget_keeps [OF keepsD(1) [OF k1] keepsD(2) [OF k1]] assms(2) obtain b s2 where
    2: "kget_or_alloc_table (table_entry_mut a (pt_index 30 ?v)) s1 = Inr (b, s2)" "keeps s1 s2 1" by auto
  have k2: "keeps s s2 2" by (rule keeps_trans [OF k1 2(2)]) simp
  from kget_keeps [OF keepsD(1) [OF k2] keepsD(2) [OF k2]] assms(2) obtain c s3 where
    3: "kget_or_alloc_table (table_entry_mut b (pt_index 21 ?v)) s2 = Inr (c, s3)" "keeps s2 s3 1" by auto
  have k3: "keeps s s3 3" by (rule keeps_trans [OF k2 3(2)]) simp
  show thesis
    by (rule that [of "KMAP_NEXT s" "vwrite64 (table_entry_mut c (pt_index 12 ?v))
        (align_down p PAGE_SIZE OR (PTE_P OR PTE_RW) OR 0) s3"])
      (use False 1(1) 2(1) 3(1) k3 in \<open>simp_all add: kmap_alloc_4k_def kmap_map_4k_def Let_def\<close>)
qed

section \<open>A run of mappings\<close>

fun kmap_all :: "u64 list \<Rightarrow> 'z paging_state_scheme \<Rightarrow> (u64 list \<times> 'z paging_state_scheme) outcome" where
  "kmap_all [] s = Inr ([], s)"
| "kmap_all (p # ps) s = and_then (kmap_alloc_4k p s) (\<lambda>(v, s1). and_then (kmap_all ps s1) (\<lambda>(vs, s2). Inr (v # vs, s2)))"

lemma kmap_all_post:
  fixes s :: "'z heap_state_scheme"
  assumes "kspace (PML4_PHYS s) n M s" "PML4_PHYS s \<noteq> 0" "KMAP_NEXT s = kmap_page i" "i + length ps \<le> 2 ^ 27"
    "\<forall>p \<in> set ps. frame_ok p" "3 * length ps \<le> frames s" "\<forall>j \<ge> i. M j = None"
  shows "\<exists>vs s' M'. kmap_all ps s = Inr (vs, s') \<and> vs = map (\<lambda>j. kmap_page (i + j)) [0..<length ps]
    \<and> kspace (PML4_PHYS s) n M' s' \<and> cr3 s' = cr3 s \<and> (\<forall>j < length ps. M' (i + j) = Some (ps ! j)) \<and> M \<subseteq>\<^sub>m M'"
  using assms
proof (induction ps arbitrary: i s M)
  case Nil
  then show ?case by auto
next
  case (Cons p ps)
  have "mem_ok s" using Cons(2) kmap_tablesD(1) unfolding kspace_def kspace_via_def by blast
  then have inv: "pmm_inv s" by (simp add: mem_ok_def)
  from kmap_alloc_keeps [OF inv, of p] Cons(7) obtain v s1 where
    1: "kmap_alloc_4k p s = Inr (v, s1)" "keeps s s1 3" by auto
  have i: "i < 2 ^ 27" and p: "frame_ok p" using Cons(5,6) by simp_all
  note st = kmap_alloc_step [OF Cons(2-4) i p 1(1)]
  have fr: "3 * length ps \<le> frames s1" using keepsD(2) [OF 1(2), of "3 * length ps"] Cons(7) by simp
  have k1: "kspace (PML4_PHYS s1) n (M(i \<mapsto> p)) s1" using st(2,3) by metis
  have pre: "PML4_PHYS s1 \<noteq> 0" "Suc i + length ps \<le> 2 ^ 27" "\<forall>p \<in> set ps. frame_ok p" "\<forall>j \<ge> Suc i. (M(i \<mapsto> p)) j = None"
    using st(3) Cons(3,5,6,8) by simp_all
  from Cons.IH [OF k1 pre(1) st(5) pre(2,3) fr pre(4)] obtain vs s' M' where
    2: "kmap_all ps s1 = Inr (vs, s')" "vs = map (\<lambda>j. kmap_page (Suc i + j)) [0..<length ps]"
      "kspace (PML4_PHYS s) n M' s'" "cr3 s' = cr3 s" "\<forall>j < length ps. M' (Suc i + j) = Some (ps ! j)"
      "M(i \<mapsto> p) \<subseteq>\<^sub>m M'" unfolding st(3,4) by blast
  have "M' i = Some p" using 2(6) by (auto simp: map_le_def)
  then have "\<forall>j < length (p # ps). M' (i + j) = Some ((p # ps) ! j)"
    using 2(5) by (auto simp: nth_Cons split: nat.split)
  moreover have "M \<subseteq>\<^sub>m M(i \<mapsto> p)" using Cons(8) by (auto simp: map_le_def)
  then have "M \<subseteq>\<^sub>m M'" using 2(6) by (rule map_le_trans)
  moreover have "v # vs = map (\<lambda>j. kmap_page (i + j)) [0..<length (p # ps)]"
    using st(1) 2(2) by (simp add: upt_conv_Cons map_Suc_upt [symmetric] del: upt_Suc)
  ultimately show ?case using 1(1) 2(1,3,4) by (intro exI [of _ "v # vs"] exI [of _ s'] exI [of _ M']) simp
qed

section \<open>The address space from the start\<close>

lemma paging_table_next:
  fixes s :: "'z paging_state_scheme"
  assumes "paging_alloc_table s = Inr (t, s')"
  shows "KMAP_NEXT s' = KMAP_NEXT s"
  using assms by (auto simp: paging_alloc_table_def alloc_table_msg_def alloc_pages_def zero_page_def
      split: option.splits if_splits elim!: and_then_InrE)

lemma map_chunks_next:
  fixes s :: "'z paging_state_scheme"
  shows "map_chunks pdpt is s = Inr s' \<Longrightarrow> KMAP_NEXT s' = KMAP_NEXT s"
  by (induction "is" arbitrary: s) (auto simp: Let_def dest: paging_table_next elim!: and_then_InrE)

lemma paging_init_next:
  assumes "paging_init m s = Inr ((), s')"
  shows "KMAP_NEXT s' = KMAP_NEXT s"
  using assms by (auto simp: paging_init_def Let_def load_cr3_def serial_eqs split: if_splits
      dest!: paging_table_next map_chunks_next elim!: and_then_InrE)

lemma chunks_cover:
  assumes "unat x \<le> unat m" "unat x < 2 ^ 39"
  shows "unat x < gib_chunks m * 2 ^ 30"
proof (cases "(unat m + 2 ^ 30) div 2 ^ 30 \<le> 512")
  case True
  then have "gib_chunks m = unat m div 2 ^ 30 + 1" by (simp add: gib_chunks_def)
  moreover have "unat m < (unat m div 2 ^ 30 + 1) * 2 ^ 30"
    using mod_less_divisor [of "2 ^ 30" "unat m"] div_mult_mod_eq [of "unat m" "2 ^ 30"] by (simp add: distrib_right)
  ultimately show ?thesis using assms(1) by simp
next
  case False
  then have "gib_chunks m = 512" unfolding gib_chunks_def by simp
  then show ?thesis using assms(2) by simp
qed

lemma kernel_space_up:
  fixes s :: "'z heap_state_scheme"
  assumes "pmm_inv s" "pmm_free s \<subseteq> {2 ^ 20..<2 ^ 52}" "unat m + 2 ^ 32 \<le> 2 ^ 64" "2 + gib_chunks m + k \<le> frames s"
  obtains s' where "paging_init m s = Inr ((), s')" "kspace (PML4_PHYS s') (gib_chunks m) Map.empty s'"
    "PML4_PHYS s' = cr3 s'" "cr3 s' \<noteq> 0" "k \<le> frames s'" "KMAP_NEXT s' = KMAP_NEXT s"
proof -
  have ok: "mem_ok s" using assms(1,2) by (auto simp: mem_ok_def)
  from paging_init_keeps [OF assms(1,3)] assms(4) obtain s' where
    i: "paging_init m s = Inr ((), s')" "keeps s s' (2 + gib_chunks m)" by auto
  from pdpt_entries_total [OF assms(3)] obtain e where e: "pdpt_entries_for m = Inr (e, gib_chunks m)" ..
  note post = paging_init_post [OF ok e gib_chunks_pos i(1)]
  have "k \<le> frames s'" using keepsD(2) [OF i(2), of k] assms(4) by simp
  moreover have "cr3 s' \<noteq> 0" using post(3) assms(2) by auto
  moreover have "kspace (PML4_PHYS s') (gib_chunks m) Map.empty s'" using kspace_start [OF post(1)] post(2) by simp
  ultimately show thesis using that i(1) post(2) paging_init_next [OF i(1)] by blast
qed


lemma demo_start_space: "pmm_free demo_start \<subseteq> {2 ^ 20..<2 ^ 52}" "gib_chunks 0x10000000 = 1"
  by (auto simp: demo_start_def pmm_free_def free_addrs_def live_def span_def gib_chunks_def)




end
