(* ===== verification/Fb.thy ===== *)
theory Fb
  imports BootInfo Machine Serial
begin

text \<open>
  The framebuffer console, \<^verbatim>\<open>kernel/src/fb.rs\<close>. The memory argument is the memory the framebuffer
  pointer addresses; a pixel is one 32-bit store. The drawing of a character is shown equal to a
  picture: every pixel of the cell has the colour of its glyph bit and no other pixel changes.
\<close>

section \<open>Pixels\<close>

record Rgb =
  c_r :: u8
  c_g :: u8
  c_b :: u8

record FrameBuffer =
  f_base :: u64
  f_size :: usize
  f_width :: usize
  f_height :: usize
  f_stride :: usize
  f_format :: PixelFormat

definition wr32 :: "memory \<Rightarrow> u64 \<Rightarrow> u32 \<Rightarrow> memory" where
  "wr32 m a v = m(a := ucast v, a + 1 := ucast (drop_bit 8 v), a + 2 := ucast (drop_bit 16 v),
     a + 3 := ucast (drop_bit 24 v))"

definition rd32 :: "memory \<Rightarrow> u64 \<Rightarrow> u32" where
  "rd32 m a = ucast (m a) OR push_bit 8 (ucast (m (a + 1))) OR push_bit 16 (ucast (m (a + 2)))
     OR push_bit 24 (ucast (m (a + 3)))"

fun pixel_value :: "PixelFormat \<Rightarrow> Rgb \<Rightarrow> u32" where
  "pixel_value PixRgb c = ucast (c_r c) OR push_bit 8 (ucast (c_g c)) OR push_bit 16 (ucast (c_b c))"
| "pixel_value PixBgr c = ucast (c_b c) OR push_bit 8 (ucast (c_g c)) OR push_bit 16 (ucast (c_r c))"
| "pixel_value PixUnknown c = ucast (c_r c) OR push_bit 8 (ucast (c_g c)) OR push_bit 16 (ucast (c_b c))"

definition put_pixel :: "FrameBuffer \<Rightarrow> usize \<Rightarrow> usize \<Rightarrow> Rgb \<Rightarrow> memory \<Rightarrow> memory outcome" where
  "put_pixel fb x y c m =
     (if f_width fb \<le> x \<or> f_height fb \<le> y then Inr m
      else and_then (mul_chk y (f_stride fb)) (\<lambda>a. and_then (add_chk a x) (\<lambda>b.
           and_then (mul_chk b 4) (\<lambda>byte_off. and_then (add_chk byte_off 4) (\<lambda>e.
             if f_size fb < e then Inr m
             else Inr (wr32 m (f_base fb + byte_off) (pixel_value (f_format fb) c)))))))"

text \<open>A \<open>for\<close> loop whose body may panic.\<close>

fun for_each :: "('a \<Rightarrow> 's \<Rightarrow> 's outcome) \<Rightarrow> 'a list \<Rightarrow> 's \<Rightarrow> 's outcome" where
  "for_each f [] s = Inr s"
| "for_each f (x # xs) s = and_then (f x s) (for_each f xs)"

definition fb_clear :: "FrameBuffer \<Rightarrow> Rgb \<Rightarrow> memory \<Rightarrow> memory outcome" where
  "fb_clear fb c m =
     for_each (\<lambda>y. for_each (\<lambda>x. put_pixel fb (of_nat x) (of_nat y) c) [0..<unat (f_width fb)])
       [0..<unat (f_height fb)] m"

section \<open>The console\<close>

record Console =
  con_fb :: FrameBuffer
  con_fg :: Rgb
  con_bg :: Rgb
  cx :: usize
  cy :: usize
  cols :: usize
  rows :: usize

definition CELL_W :: usize where
  "CELL_W = 8"

definition CELL_H :: usize where
  "CELL_H = 16"

definition console_new :: "FrameBuffer \<Rightarrow> Console" where
  "console_new fb = \<lparr>con_fb = fb, con_fg = \<lparr>c_r = 0xff, c_g = 0xff, c_b = 0xff\<rparr>,
     con_bg = \<lparr>c_r = 0, c_g = 0, c_b = 0\<rparr>, cx = 0, cy = 0,
     cols = f_width fb div CELL_W, rows = f_height fb div CELL_H\<rparr>"

definition set_colors :: "Rgb \<Rightarrow> Rgb \<Rightarrow> Console \<Rightarrow> Console" where
  "set_colors fg bg con = con\<lparr>con_fg := fg, con_bg := bg\<rparr>"

definition console_clear :: "Rgb \<Rightarrow> Console \<times> memory \<Rightarrow> (Console \<times> memory) outcome" where
  "console_clear bg st = (case st of (con, m) \<Rightarrow>
     and_then (fb_clear (con_fb con) bg m) (\<lambda>m'. Inr (con\<lparr>con_bg := bg, cx := 0, cy := 0\<rparr>, m')))"

definition newline :: "Console \<Rightarrow> Console outcome" where
  "newline con =
     and_then (add_chk (cy con) 1) (\<lambda>cy'.
       Inr (con\<lparr>cx := 0, cy := if rows con \<le> cy' then saturating_sub (rows con) 1 else cy'\<rparr>))"

text \<open>The font; the source's lower-case letters recurse once into the upper-case ones.\<close>

definition glyph_upper :: "u8 \<Rightarrow> u8 list" where
  "glyph_upper c =
    (if c = 0x20 then [0, 0, 0, 0, 0, 0, 0, 0]
     else if c = 0x21 then [0x18, 0x18, 0x18, 0x18, 0x18, 0x00, 0x18, 0x00]
     else if c = 0x2e then [0x00, 0x00, 0x00, 0x00, 0x00, 0x18, 0x18, 0x00]
     else if c = 0x3a then [0x00, 0x18, 0x18, 0x00, 0x00, 0x18, 0x18, 0x00]
     else if c = 0x2f then [0x06, 0x0c, 0x18, 0x30, 0x60, 0xc0, 0x80, 0x00]
     else if c = 0x30 then [0x3c, 0x66, 0x6e, 0x76, 0x66, 0x66, 0x3c, 0x00]
     else if c = 0x31 then [0x18, 0x38, 0x18, 0x18, 0x18, 0x18, 0x3c, 0x00]
     else if c = 0x32 then [0x3c, 0x66, 0x06, 0x1c, 0x30, 0x66, 0x7e, 0x00]
     else if c = 0x33 then [0x3c, 0x66, 0x06, 0x1c, 0x06, 0x66, 0x3c, 0x00]
     else if c = 0x34 then [0x0c, 0x1c, 0x3c, 0x6c, 0x7e, 0x0c, 0x0c, 0x00]
     else if c = 0x35 then [0x7e, 0x60, 0x7c, 0x06, 0x06, 0x66, 0x3c, 0x00]
     else if c = 0x36 then [0x1c, 0x30, 0x60, 0x7c, 0x66, 0x66, 0x3c, 0x00]
     else if c = 0x37 then [0x7e, 0x66, 0x06, 0x0c, 0x18, 0x18, 0x18, 0x00]
     else if c = 0x38 then [0x3c, 0x66, 0x66, 0x3c, 0x66, 0x66, 0x3c, 0x00]
     else if c = 0x39 then [0x3c, 0x66, 0x66, 0x3e, 0x06, 0x0c, 0x38, 0x00]
     else if c = 0x41 then [0x18, 0x3c, 0x66, 0x66, 0x7e, 0x66, 0x66, 0x00]
     else if c = 0x42 then [0x7c, 0x66, 0x66, 0x7c, 0x66, 0x66, 0x7c, 0x00]
     else if c = 0x43 then [0x3c, 0x66, 0x60, 0x60, 0x60, 0x66, 0x3c, 0x00]
     else if c = 0x44 then [0x78, 0x6c, 0x66, 0x66, 0x66, 0x6c, 0x78, 0x00]
     else if c = 0x45 then [0x7e, 0x60, 0x60, 0x7c, 0x60, 0x60, 0x7e, 0x00]
     else if c = 0x46 then [0x7e, 0x60, 0x60, 0x7c, 0x60, 0x60, 0x60, 0x00]
     else if c = 0x47 then [0x3c, 0x66, 0x60, 0x6e, 0x66, 0x66, 0x3c, 0x00]
     else if c = 0x49 then [0x3c, 0x18, 0x18, 0x18, 0x18, 0x18, 0x3c, 0x00]
     else if c = 0x4b then [0x66, 0x6c, 0x78, 0x70, 0x78, 0x6c, 0x66, 0x00]
     else if c = 0x4c then [0x60, 0x60, 0x60, 0x60, 0x60, 0x60, 0x7e, 0x00]
     else if c = 0x4d then [0x63, 0x77, 0x7f, 0x6b, 0x63, 0x63, 0x63, 0x00]
     else if c = 0x4e then [0x66, 0x76, 0x7e, 0x7e, 0x6e, 0x66, 0x66, 0x00]
     else if c = 0x4f then [0x3c, 0x66, 0x66, 0x66, 0x66, 0x66, 0x3c, 0x00]
     else if c = 0x52 then [0x7c, 0x66, 0x66, 0x7c, 0x78, 0x6c, 0x66, 0x00]
     else if c = 0x53 then [0x3c, 0x66, 0x30, 0x18, 0x0c, 0x66, 0x3c, 0x00]
     else if c = 0x54 then [0x7e, 0x18, 0x18, 0x18, 0x18, 0x18, 0x18, 0x00]
     else if c = 0x56 then [0x66, 0x66, 0x66, 0x66, 0x66, 0x3c, 0x18, 0x00]
     else if c = 0x58 then [0x66, 0x66, 0x3c, 0x18, 0x3c, 0x66, 0x66, 0x00]
     else if c = 0x59 then [0x66, 0x66, 0x3c, 0x18, 0x18, 0x18, 0x18, 0x00]
     else if c = 0x5f then [0x00, 0x00, 0x00, 0x00, 0x00, 0x00, 0x7e, 0x00]
     else [0x7e, 0x42, 0x5a, 0x5a, 0x5a, 0x42, 0x7e, 0x00])"

definition glyph :: "u8 \<Rightarrow> u8 list" where
  "glyph c = (if 0x61 \<le> c \<and> c \<le> 0x7a then glyph_upper (c - 32) else glyph_upper c)"

definition draw_bit :: "Console \<Rightarrow> usize \<Rightarrow> usize \<Rightarrow> nat \<Rightarrow> u8 \<Rightarrow> nat \<Rightarrow> memory \<Rightarrow> memory outcome" where
  "draw_bit con px0 py0 row bits col m =
     (let color = (if bits AND drop_bit col 0x80 \<noteq> 0 then con_fg con else con_bg con) in
      and_then (add_chk py0 (of_nat (row * 2))) (\<lambda>y.
      and_then (add_chk px0 (of_nat col)) (\<lambda>x.
      and_then (put_pixel (con_fb con) x y color m) (\<lambda>m1.
      and_then (add_chk y 1) (\<lambda>y1.
      put_pixel (con_fb con) x y1 color m1)))))"

definition draw_glyph :: "Console \<Rightarrow> u8 list \<Rightarrow> memory \<Rightarrow> memory outcome" where
  "draw_glyph con g m =
     and_then (mul_chk (cx con) CELL_W) (\<lambda>px0. and_then (mul_chk (cy con) CELL_H) (\<lambda>py0.
       for_each (\<lambda>(row, bits). for_each (\<lambda>col. draw_bit con px0 py0 row bits col) [0..<8])
         (enumerate 0 g) m))"

definition put_char :: "u8 \<Rightarrow> Console \<times> memory \<Rightarrow> (Console \<times> memory) outcome" where
  "put_char ch st = (case st of (con, m) \<Rightarrow>
     if ch = 0x0a then and_then (newline con) (\<lambda>con'. Inr (con', m))
     else if ch = 0x0d then Inr (con\<lparr>cx := 0\<rparr>, m)
     else and_then (if cols con \<le> cx con then newline con else Inr con) (\<lambda>con1.
          and_then (draw_glyph con1 (glyph ch) m) (\<lambda>m'.
          and_then (add_chk (cx con1) 1) (\<lambda>cx'. Inr (con1\<lparr>cx := cx'\<rparr>, m')))))"

definition console_write_str :: "u8 list \<Rightarrow> Console \<times> memory \<Rightarrow> (Console \<times> memory) outcome" where
  "console_write_str s st = for_each put_char s st"

section \<open>32-bit stores\<close>

lemma rd32_wr32_same: "rd32 (wr32 m a v) a = v"
proof -
  have b: "ucast (ucast x :: u8) = take_bit 8 x" for x :: u32
    by (rule bit_eqI) (auto simp: bit_simps)
  have e: "take_bit n v OR push_bit n (take_bit 8 (drop_bit n v)) = take_bit (n + 8) v" for n
    by (rule bit_eqI) (auto simp: bit_simps)
  have "rd32 (wr32 m a v) a = take_bit 8 v OR push_bit 8 (take_bit 8 (drop_bit 8 v))
     OR push_bit 16 (take_bit 8 (drop_bit 16 v)) OR push_bit 24 (take_bit 8 (drop_bit 24 v))"
    by (simp add: rd32_def wr32_def b)
  also have "\<dots> = take_bit 32 v"
    using e [of 8] e [of 16] e [of 24] by (simp only: numeral_plus_numeral add_num_simps or.assoc [symmetric])
  finally show ?thesis by (simp add: take_bit_word_eq_self)
qed

definition span4 :: "u64 \<Rightarrow> u64 set" where
  "span4 a = {a, a + 1, a + 2, a + 3}"

lemma wr32_outside: "x \<notin> span4 a \<Longrightarrow> wr32 m a v x = m x"
  by (simp add: wr32_def span4_def)

lemma span4_unat:
  assumes "unat a + 4 \<le> 2 ^ 64" "x \<in> span4 a"
  shows "unat a \<le> unat x" "unat x < unat a + 4"
proof -
  from assms(2) obtain k where k: "x = a + k" "k \<in> {0, 1, 2, 3}" unfolding span4_def by fastforce
  then have "unat k < 4" by auto
  moreover from this assms(1) have "unat x = unat a + unat k" unfolding k(1) by (intro unat_add_no_wrap) simp
  ultimately show "unat a \<le> unat x" "unat x < unat a + 4" by simp_all
qed

lemma rd32_wr32_apart:
  assumes "unat a + 4 \<le> 2 ^ 64" "unat b + 4 \<le> 2 ^ 64" "unat a + 4 \<le> unat b \<or> unat b + 4 \<le> unat a"
  shows "rd32 (wr32 m a v) b = rd32 m b"
proof -
  have "x \<notin> span4 a" if "x \<in> span4 b" for x
    using span4_unat [OF assms(1), of x] span4_unat [OF assms(2) that] assms(3) by linarith
  then have "wr32 m a v x = m x" if "x \<in> span4 b" for x using that by (blast intro: wr32_outside)
  then show ?thesis by (simp add: rd32_def span4_def)
qed

section \<open>A framebuffer as a grid of pixels\<close>

text \<open>The geometry the firmware reports: the scan lines fit into the mapped memory, which does not
  reach around the end of the address space.\<close>

definition fb_ok :: "FrameBuffer \<Rightarrow> bool" where
  "fb_ok fb \<longleftrightarrow> f_width fb \<le> f_stride fb
     \<and> 4 * (unat (f_height fb) * unat (f_stride fb)) \<le> unat (f_size fb)
     \<and> unat (f_base fb) + unat (f_size fb) \<le> 2 ^ 64"

definition inside :: "FrameBuffer \<Rightarrow> nat \<Rightarrow> nat \<Rightarrow> bool" where
  "inside fb x y \<longleftrightarrow> fb_ok fb \<and> x < unat (f_width fb) \<and> y < unat (f_height fb)"

definition pix_off :: "FrameBuffer \<Rightarrow> nat \<Rightarrow> nat \<Rightarrow> nat" where
  "pix_off fb x y = 4 * (y * unat (f_stride fb) + x)"

definition pixel :: "FrameBuffer \<Rightarrow> memory \<Rightarrow> nat \<Rightarrow> nat \<Rightarrow> u32" where
  "pixel fb m x y = rd32 m (f_base fb + of_nat (pix_off fb x y))"

lemma pix_off_bound:
  assumes "inside fb x y"
  shows "pix_off fb x y + 4 \<le> unat (f_size fb)" "x < unat (f_stride fb)"
proof -
  show x: "x < unat (f_stride fb)" using assms by (simp add: inside_def fb_ok_def word_le_nat_alt)
  have "Suc y * unat (f_stride fb) \<le> unat (f_height fb) * unat (f_stride fb)"
    using assms by (intro mult_le_mono1) (simp add: inside_def)
  with x have "4 * (y * unat (f_stride fb) + x) + 4 \<le> 4 * (unat (f_height fb) * unat (f_stride fb))" by simp
  also have "\<dots> \<le> unat (f_size fb)" using assms by (simp add: inside_def fb_ok_def)
  finally show "pix_off fb x y + 4 \<le> unat (f_size fb)" by (simp add: pix_off_def)
qed

lemma pix_addr:
  assumes "inside fb x y"
  shows "unat (f_base fb + of_nat (pix_off fb x y)) = unat (f_base fb) + pix_off fb x y"
    "unat (of_nat (pix_off fb x y) :: u64) = pix_off fb x y"
proof -
  note b = pix_off_bound(1) [OF assms]
  have s: "unat (f_base fb) + unat (f_size fb) \<le> 2 ^ 64" using assms by (simp add: inside_def fb_ok_def)
  show u: "unat (of_nat (pix_off fb x y) :: u64) = pix_off fb x y"
    using b unat_u64_lt [of "f_size fb"] by (simp add: unsigned_of_nat take_bit_nat_eq_self)
  show "unat (f_base fb + of_nat (pix_off fb x y)) = unat (f_base fb) + pix_off fb x y"
    using s b u by (subst unat_add_no_wrap) simp_all
qed

lemma pix_off_apart:
  assumes "inside fb x y" "inside fb i j" "(x, y) \<noteq> (i, j)"
  shows "pix_off fb x y + 4 \<le> pix_off fb i j \<or> pix_off fb i j + 4 \<le> pix_off fb x y"
proof -
  let ?s = "unat (f_stride fb)"
  have b: "x < ?s" "i < ?s" using pix_off_bound(2) assms by blast+
  have "y * ?s + x \<noteq> j * ?s + i"
  proof
    assume e: "y * ?s + x = j * ?s + i"
    have "y = j" using arg_cong [OF e, of "\<lambda>n. n div ?s"] b by simp
    moreover have "x = i" using e \<open>y = j\<close> by simp
    ultimately show False using assms(3) by simp
  qed
  then show ?thesis by (auto simp: pix_off_def)
qed

lemma find_append_case: "find P (xs @ ys) = (case find P xs of None \<Rightarrow> find P ys | Some x \<Rightarrow> Some x)"
  by (induction xs) simp_all

text \<open>What a store of pixels promises to the code that draws with it.\<close>

locale pixel_store =
  fixes put :: "'f \<Rightarrow> usize \<Rightarrow> usize \<Rightarrow> 'c \<Rightarrow> 'm \<Rightarrow> 'm outcome"
    and get :: "'f \<Rightarrow> 'm \<Rightarrow> nat \<Rightarrow> nat \<Rightarrow> 'v"
    and within :: "'f \<Rightarrow> nat \<Rightarrow> nat \<Rightarrow> bool"
    and enc :: "'f \<Rightarrow> 'c \<Rightarrow> 'v"
  assumes put_within: "within f (unat x) (unat y) \<Longrightarrow> \<exists>m'. put f x y c m = Inr m'
    \<and> (\<forall>i j. within f i j \<longrightarrow> get f m' i j = (if i = unat x \<and> j = unat y then enc f c else get f m i j))"
begin

text \<open>The value of a pixel after a list of stores: the last one at that place counts.\<close>

definition painted :: "'f \<Rightarrow> (usize \<times> usize \<times> 'c) list \<Rightarrow> 'm \<Rightarrow> nat \<Rightarrow> nat \<Rightarrow> 'v" where
  "painted f ps m i j = (case find (\<lambda>(x, y, c). unat x = i \<and> unat y = j) (rev ps) of
     None \<Rightarrow> get f m i j | Some (x, y, c) \<Rightarrow> enc f c)"

lemma paint:
  assumes "\<forall>(x, y, c) \<in> set ps. within f (unat x) (unat y)"
  shows "\<exists>m'. for_each (\<lambda>(x, y, c). put f x y c) ps m = Inr m'
    \<and> (\<forall>i j. within f i j \<longrightarrow> get f m' i j = painted f ps m i j)"
  using assms
proof (induction ps arbitrary: m)
  case Nil
  then show ?case by (simp add: painted_def)
next
  case (Cons p ps)
  obtain x y c where p: "p = (x, y, c)" by (cases p)
  with Cons.prems have "within f (unat x) (unat y)" by simp
  from put_within [OF this, of c m] obtain m1 where m1: "put f x y c m = Inr m1"
    "\<And>i j. within f i j \<Longrightarrow> get f m1 i j = (if i = unat x \<and> j = unat y then enc f c else get f m i j)" by blast
  from Cons.IH [of m1] Cons.prems obtain m2 where
    m2: "for_each (\<lambda>(x, y, c). put f x y c) ps m1 = Inr m2" "\<And>i j. within f i j \<Longrightarrow> get f m2 i j = painted f ps m1 i j"
    by auto
  have "painted f ps m1 i j = painted f (p # ps) m i j" if "within f i j" for i j
    using m1(2) [OF that]
    by (cases "find (\<lambda>(x, y, c). unat x = i \<and> unat y = j) (rev ps)")
      (auto simp: painted_def p find_append_case)
  with m1(1) m2 show ?case by (auto simp: p)
qed

lemma painted_hit:
  assumes "(x, y, c) \<in> set ps" "unat x = i" "unat y = j"
    "\<forall>(x', y', c') \<in> set ps. unat x' = i \<and> unat y' = j \<longrightarrow> c' = c"
  shows "painted f ps m i j = enc f c"
proof -
  let ?P = "\<lambda>(x, y, c). unat x = i \<and> unat y = j"
  have "find ?P (rev ps) \<noteq> None" using assms(1-3) by (auto simp: find_None_iff)
  then obtain q where q: "find ?P (rev ps) = Some q" by blast
  then have "q \<in> set ps" "?P q" by (auto simp: find_Some_iff) (metis nth_mem length_rev set_rev)
  with assms(4) q show ?thesis by (auto simp: painted_def)
qed

lemma painted_miss:
  assumes "\<forall>(x, y, c) \<in> set ps. \<not> (unat x = i \<and> unat y = j)"
  shows "painted f ps m i j = get f m i j"
proof -
  have "find (\<lambda>(x, y, c). unat x = i \<and> unat y = j) (rev ps) = None" using assms by (auto simp: find_None_iff)
  then show ?thesis by (simp add: painted_def)
qed

end

interpretation fbs: pixel_store put_pixel pixel inside "\<lambda>fb. pixel_value (f_format fb)"
proof
  fix fb and x y :: usize and c m
  assume i: "inside fb (unat x) (unat y)"
  define a where "a = y * f_stride fb + x"
  note b = pix_off_bound [OF i]
  have n: "4 * (unat y * unat (f_stride fb) + unat x) + 4 \<le> unat (f_size fb)" using b(1) by (simp add: pix_off_def)
  then have lt: "4 * (unat y * unat (f_stride fb) + unat x) + 4 < 2 ^ 64" using unat_u64_lt [of "f_size fb"] by simp
  have 1: "mul_chk y (f_stride fb) = Inr (y * f_stride fb)" "unat (y * f_stride fb) = unat y * unat (f_stride fb)"
    using lt by (simp_all add: mul_chk_nat unat_mul_no_wrap)
  have 2: "add_chk (y * f_stride fb) x = Inr a" "unat a = unat y * unat (f_stride fb) + unat x"
    using lt 1(2) by (simp_all add: a_def add_chk_nat unat_add_no_wrap)
  have 3: "mul_chk a 4 = Inr (a * 4)" "unat (a * 4) = pix_off fb (unat x) (unat y)"
    using lt 2(2) by (simp_all add: mul_chk_nat unat_mul_no_wrap pix_off_def)
  have 4: "add_chk (a * 4) 4 = Inr (a * 4 + 4)" "\<not> f_size fb < a * 4 + 4"
    using lt n 3(2) by (simp_all add: add_chk_nat word_less_nat_alt unat_add_no_wrap pix_off_def)
  have "a * 4 = of_nat (pix_off fb (unat x) (unat y))" using 3(2) by (metis word_unat_eq_iff pix_addr(2) i)
  moreover have "\<not> f_width fb \<le> x" "\<not> f_height fb \<le> y" using i by (simp_all add: inside_def word_le_nat_alt)
  ultimately have put: "put_pixel fb x y c m =
      Inr (wr32 m (f_base fb + of_nat (pix_off fb (unat x) (unat y))) (pixel_value (f_format fb) c))"
    using 1(1) 2(1) 3(1) 4 by (simp add: put_pixel_def)
  have "pixel fb (wr32 m (f_base fb + of_nat (pix_off fb (unat x) (unat y))) v) i' j' =
      (if i' = unat x \<and> j' = unat y then v else pixel fb m i' j')" if o: "inside fb i' j'" for i' j' v
  proof (cases "i' = unat x \<and> j' = unat y")
    case True
    then show ?thesis by (simp add: pixel_def rd32_wr32_same)
  next
    case False
    have s: "unat (f_base fb) + unat (f_size fb) \<le> 2 ^ 64" using i by (simp add: inside_def fb_ok_def)
    have "rd32 (wr32 m (f_base fb + of_nat (pix_off fb (unat x) (unat y))) v) (f_base fb + of_nat (pix_off fb i' j'))
        = rd32 m (f_base fb + of_nat (pix_off fb i' j'))"
      using False pix_off_apart [OF i o] b(1) pix_off_bound(1) [OF o] s
      by (intro rd32_wr32_apart) (auto simp: pix_addr(1) [OF i] pix_addr(1) [OF o])
    with False show ?thesis by (auto simp: pixel_def)
  qed
  with put show "\<exists>m'. put_pixel fb x y c m = Inr m' \<and> (\<forall>i j. inside fb i j \<longrightarrow>
      pixel fb m' i j = (if i = unat x \<and> j = unat y then pixel_value (f_format fb) c else pixel fb m i j))"
    by blast
qed

lemma put_pixel_inside:
  assumes "put_pixel fb x y c m = Inr m'" "unat (f_base fb) + unat (f_size fb) \<le> 2 ^ 64" "m' a \<noteq> m a"
  shows "unat (f_base fb) \<le> unat a \<and> unat a < unat (f_base fb) + unat (f_size fb)"
proof -
  from assms(1,3) obtain off e where "add_chk off 4 = Inr e" "\<not> f_size fb < e"
    "m' = wr32 m (f_base fb + off) (pixel_value (f_format fb) c)"
    by (auto simp: put_pixel_def and_then_eq_Inr_iff split: if_splits)
  then have o: "unat off + 4 \<le> unat (f_size fb)" "a \<in> span4 (f_base fb + off)"
    using assms(3) wr32_outside by (auto simp: add_chk_eq_Inr unat_add_no_wrap word_less_nat_alt)
  have u: "unat (f_base fb + off) = unat (f_base fb) + unat off"
    using assms(2) o(1) by (intro unat_add_no_wrap) simp
  have "unat (f_base fb + off) + 4 \<le> 2 ^ 64" using assms(2) o(1) u by simp
  from span4_unat [OF this o(2)] u o(1) show ?thesis by simp
qed

section \<open>Drawing a character\<close>

lemma for_each_Nil [simp]: "for_each f [] = Inr"
  by (rule ext) simp

lemma and_then_Inr [simp]: "and_then m Inr = m"
  by (cases m) simp_all

lemma for_each_append: "for_each f (xs @ ys) s = and_then (for_each f xs s) (for_each f ys)"
  by (induction xs arbitrary: s) (auto simp: and_then_assoc intro!: and_then_cong)

lemma for_each_concat: "for_each f (concat xss) s = for_each (for_each f) xss s"
  by (induction xss arbitrary: s) (auto simp: for_each_append intro!: and_then_cong)

lemma for_each_map: "for_each f (map g xs) s = for_each (\<lambda>x. f (g x)) xs s"
  by (induction xs arbitrary: s) (auto intro!: and_then_cong)

lemma for_each_cong: "(\<And>x s. x \<in> set xs \<Longrightarrow> f x s = g x s) \<Longrightarrow> for_each f xs s = for_each g xs s"
  by (induction xs arbitrary: s) (auto intro!: and_then_cong)

definition bit_color :: "Console \<Rightarrow> u8 \<Rightarrow> nat \<Rightarrow> Rgb" where
  "bit_color con bits col = (if bits AND drop_bit col 0x80 \<noteq> 0 then con_fg con else con_bg con)"

definition bit_pixels :: "Console \<Rightarrow> usize \<Rightarrow> usize \<Rightarrow> nat \<Rightarrow> u8 \<Rightarrow> nat \<Rightarrow> (usize \<times> usize \<times> Rgb) list" where
  "bit_pixels con px0 py0 row bits col =
     [(px0 + of_nat col, py0 + of_nat (row * 2), bit_color con bits col),
      (px0 + of_nat col, py0 + of_nat (row * 2) + 1, bit_color con bits col)]"

definition glyph_pixels :: "Console \<Rightarrow> usize \<Rightarrow> usize \<Rightarrow> u8 list \<Rightarrow> (usize \<times> usize \<times> Rgb) list" where
  "glyph_pixels con px0 py0 g =
     concat (map (\<lambda>(row, bits). concat (map (bit_pixels con px0 py0 row bits) [0..<8])) (enumerate 0 g))"

lemma small_of_nat: "n < 256 \<Longrightarrow> unat (of_nat n :: u64) = n"
  by (simp add: unsigned_of_nat take_bit_nat_eq_self)

lemma draw_bit_eq:
  assumes "unat px0 + 8 \<le> 2 ^ 64" "unat py0 + 16 \<le> 2 ^ 64" "row < 8" "col < 8"
  shows "draw_bit con px0 py0 row bits col m =
    for_each (\<lambda>(x, y, c). put_pixel (con_fb con) x y c) (bit_pixels con px0 py0 row bits col) m"
proof -
  have u: "unat (of_nat (row * 2) :: u64) = row * 2" "unat (of_nat col :: u64) = col"
    using assms(3,4) by (intro small_of_nat; simp)+
  have y: "add_chk py0 (of_nat (row * 2)) = Inr (py0 + of_nat (row * 2))"
    "unat (py0 + of_nat (row * 2)) = unat py0 + row * 2"
    using assms(2,3) u(1) by (simp_all add: add_chk_nat unat_add_no_wrap del: of_nat_mult)
  have x: "add_chk px0 (of_nat col) = Inr (px0 + of_nat col)"
    using assms(1,4) u(2) by (simp add: add_chk_nat)
  have y1: "add_chk (py0 + of_nat (row * 2)) 1 = Inr (py0 + of_nat (row * 2) + 1)"
    using assms(2,3) y(2) by (simp add: add_chk_nat del: of_nat_mult)
  show ?thesis
    unfolding draw_bit_def bit_pixels_def Let_def bit_color_def [symmetric] x y(1) and_then.simps y1
    by (cases "put_pixel (con_fb con) (px0 + of_nat col) (py0 + of_nat (row * 2)) (bit_color con bits col) m")
      (auto simp: and_then_assoc split: sum.split)
qed

lemma draw_glyph_eq:
  assumes "unat (cx con) * 8 + 8 \<le> 2 ^ 64" "unat (cy con) * 16 + 16 \<le> 2 ^ 64" "length g = 8"
  shows "draw_glyph con g m = for_each (\<lambda>(x, y, c). put_pixel (con_fb con) x y c)
      (glyph_pixels con (cx con * 8) (cy con * 16) g) m"
    "unat (cx con * 8) = unat (cx con) * 8" "unat (cy con * 16) = unat (cy con) * 16"
proof -
  show u: "unat (cx con * 8) = unat (cx con) * 8" "unat (cy con * 16) = unat (cy con) * 16"
    using assms by (simp_all add: unat_mul_no_wrap)
  have c: "mul_chk (cx con) CELL_W = Inr (cx con * 8)" "mul_chk (cy con) CELL_H = Inr (cy con * 16)"
    using assms by (simp_all add: mul_chk_nat CELL_W_def CELL_H_def)
  let ?put = "\<lambda>(x, y, c). put_pixel (con_fb con) x y c" and ?px = "cx con * 8" and ?py = "cy con * 16"
  have row: "(\<lambda>(row, bits). for_each (\<lambda>col. draw_bit con ?px ?py row bits col) [0..<8]) rb s =
      (\<lambda>(row, bits). for_each ?put (concat (map (bit_pixels con ?px ?py row bits) [0..<8]))) rb s"
    if "rb \<in> set (enumerate 0 g)" for rb s
  proof -
    obtain r b where rb: "rb = (r, b)" by (cases rb)
    with that assms(3) have r: "r < 8" by (auto simp: in_set_enumerate_eq)
    have "for_each (\<lambda>col. draw_bit con ?px ?py r b col) [0..<8] s
        = for_each (\<lambda>col. for_each ?put (bit_pixels con ?px ?py r b col)) [0..<8] s"
      using r assms u by (intro for_each_cong draw_bit_eq) simp_all
    then show ?thesis by (simp add: rb for_each_concat for_each_map)
  qed
  have "draw_glyph con g m = for_each (\<lambda>(row, bits). for_each (\<lambda>col. draw_bit con ?px ?py row bits col) [0..<8])
      (enumerate 0 g) m" by (simp add: draw_glyph_def c)
  also have "\<dots> = for_each (\<lambda>(row, bits). for_each ?put (concat (map (bit_pixels con ?px ?py row bits) [0..<8])))
      (enumerate 0 g) m" by (rule for_each_cong, rule row)
  also have "\<dots> = for_each ?put (glyph_pixels con ?px ?py g) m"
    unfolding glyph_pixels_def for_each_concat for_each_map by (rule for_each_cong) (auto simp: for_each_concat for_each_map)
  finally show "draw_glyph con g m = for_each ?put (glyph_pixels con ?px ?py g) m" .
qed

lemma glyph_pixels_elem:
  assumes "unat px + 8 \<le> 2 ^ 64" "unat py + 16 \<le> 2 ^ 64" "length g = 8" "(x, y, c) \<in> set (glyph_pixels con px py g)"
  obtains row col d where "row < 8" "col < 8" "d < 2" "unat x = unat px + col" "unat y = unat py + 2 * row + d"
    "c = bit_color con (g ! row) col"
proof -
  from assms(4) obtain row col where rc: "(row, g ! row) \<in> set (enumerate 0 g)" "col < 8"
    "(x, y, c) \<in> set (bit_pixels con px py row (g ! row) col)"
    by (fastforce simp: glyph_pixels_def in_set_enumerate_eq)
  then have row: "row < 8" using assms(3) by (simp add: in_set_enumerate_eq)
  have u: "unat (of_nat (row * 2) :: u64) = row * 2" "unat (of_nat col :: u64) = col"
    using row rc(2) by (intro small_of_nat; simp)+
  have xx: "unat (px + of_nat col) = unat px + col" using assms(1) rc(2) u(2) by (subst unat_add_no_wrap) simp_all
  have yy: "unat (py + of_nat (row * 2)) = unat py + row * 2" using assms(2) row u(1) by (subst unat_add_no_wrap) simp_all
  have yy1: "unat (py + of_nat (row * 2) + 1) = unat py + row * 2 + 1"
    using assms(2) row yy by (subst unat_add_no_wrap) simp_all
  from rc(3) consider "x = px + of_nat col" "y = py + of_nat (row * 2)" "c = bit_color con (g ! row) col"
    | "x = px + of_nat col" "y = py + of_nat (row * 2) + 1" "c = bit_color con (g ! row) col"
    by (auto simp: bit_pixels_def)
  then show thesis
    by cases (use that [OF row rc(2), of 0] that [OF row rc(2), of 1] xx yy yy1 in \<open>auto simp: mult.commute\<close>)
qed

lemma glyph_pixels_mem:
  assumes "unat px + 8 \<le> 2 ^ 64" "unat py + 16 \<le> 2 ^ 64" "length g = 8" "row < 8" "col < 8" "d < 2"
  shows "\<exists>x y. (x, y, bit_color con (g ! row) col) \<in> set (glyph_pixels con px py g)
    \<and> unat x = unat px + col \<and> unat y = unat py + 2 * row + d"
proof -
  have u: "unat (of_nat (row * 2) :: u64) = row * 2" "unat (of_nat col :: u64) = col"
    using assms(4,5) by (intro small_of_nat; simp)+
  have xx: "unat (px + of_nat col) = unat px + col" using assms(1,5) u(2) by (subst unat_add_no_wrap) simp_all
  have yy: "unat (py + of_nat (row * 2)) = unat py + row * 2" using assms(2,4) u(1) by (subst unat_add_no_wrap) simp_all
  have yy1: "unat (py + of_nat (row * 2) + 1) = unat py + row * 2 + 1"
    using assms(2,4) yy by (subst unat_add_no_wrap) simp_all
  have e: "(row, g ! row) \<in> set (enumerate 0 g)" using assms(3,4) by (simp add: in_set_enumerate_eq)
  have s: "set (bit_pixels con px py row (g ! row) col) \<subseteq> set (glyph_pixels con px py g)"
    using e assms(5) by (fastforce simp: glyph_pixels_def)
  have "(px + of_nat col, py + of_nat (row * 2), bit_color con (g ! row) col) \<in> set (glyph_pixels con px py g)"
    "(px + of_nat col, py + of_nat (row * 2) + 1, bit_color con (g ! row) col) \<in> set (glyph_pixels con px py g)"
    by (rule subsetD [OF s], simp add: bit_pixels_def)+
  moreover have "unat (py + of_nat (row * 2)) = unat py + 2 * row + 0" "unat (py + of_nat (row * 2) + 1) = unat py + 2 * row + 1"
    using yy yy1 by simp_all
  moreover have "d = 0 \<or> d = 1" using assms(6) by auto
  ultimately show ?thesis using xx by blast
qed

lemma cell_coords:
  fixes i j X Y :: nat
  shows "i div 8 = X \<Longrightarrow> i = X * 8 + i mod 8"
    "j div 16 = Y \<Longrightarrow> j = Y * 16 + 2 * (j mod 16 div 2) + j mod 16 mod 2"
proof -
  show "i = X * 8 + i mod 8" if "i div 8 = X" using div_mult_mod_eq [of i 8] that by simp
  show "j = Y * 16 + 2 * (j mod 16 div 2) + j mod 16 mod 2" if "j div 16 = Y"
    using div_mult_mod_eq [of j 16] mult_div_mod_eq [of 2 "j mod 16"] that by linarith
qed

lemma cell_coords_unique:
  fixes i j X Y row col d :: nat
  shows "col < 8 \<Longrightarrow> i = X * 8 + col \<Longrightarrow> i div 8 = X \<and> i mod 8 = col"
    "row < 8 \<Longrightarrow> d < 2 \<Longrightarrow> j = Y * 16 + 2 * row + d \<Longrightarrow> j div 16 = Y \<and> j mod 16 div 2 = row"
proof -
  show "i div 8 = X \<and> i mod 8 = col" if "col < 8" "i = X * 8 + col" using that by simp
  assume "row < 8" "d < 2" "j = Y * 16 + 2 * row + d"
  then have "2 * row + d < 16" "j = Y * 16 + (2 * row + d)" "d div 2 = 0" by simp_all
  then have "j div 16 = Y" "j mod 16 = 2 * row + d" by simp_all
  with \<open>d div 2 = 0\<close> show "j div 16 = Y \<and> j mod 16 div 2 = row" by simp
qed

text \<open>The picture a glyph makes in the cell of the cursor.\<close>

definition cell_color :: "Console \<Rightarrow> u8 list \<Rightarrow> nat \<Rightarrow> nat \<Rightarrow> Rgb" where
  "cell_color con g i j = (if bit (g ! (j mod 16 div 2)) (7 - i mod 8) then con_fg con else con_bg con)"

lemma glyph_bit: "col < 8 \<Longrightarrow> (b AND drop_bit col 0x80 \<noteq> 0) = bit (b :: u8) (7 - col)"
proof -
  assume "col < 8"
  then have "drop_bit col (2 ^ 7) = (2 ^ (7 - col) :: u8)"
    by (intro bit_eqI) (simp only: bit_drop_bit_eq comp_def bit_exp_iff, auto)
  then have "drop_bit col 0x80 = (2 ^ (7 - col) :: u8)" by simp
  then show ?thesis by (simp only: and_exp_eq_0_iff_not_bit not_not)
qed

lemma draw_glyph_picture:
  assumes "fb_ok (con_fb con)" "length g = 8"
    "unat (cx con) * 8 + 8 \<le> unat (f_width (con_fb con))" "unat (cy con) * 16 + 16 \<le> unat (f_height (con_fb con))"
  shows "\<exists>m'. draw_glyph con g m = Inr m' \<and> (\<forall>i j. inside (con_fb con) i j \<longrightarrow>
    pixel (con_fb con) m' i j = (if i div 8 = unat (cx con) \<and> j div 16 = unat (cy con)
      then pixel_value (f_format (con_fb con)) (cell_color con g i j) else pixel (con_fb con) m i j))"
proof -
  let ?fb = "con_fb con" and ?px = "cx con * 8" and ?py = "cy con * 16"
  let ?ps = "glyph_pixels con ?px ?py g"
  have lim: "unat (cx con) * 8 + 8 \<le> 2 ^ 64" "unat (cy con) * 16 + 16 \<le> 2 ^ 64"
    using assms(3,4) unat_u64_lt [of "f_width ?fb"] unat_u64_lt [of "f_height ?fb"] by simp_all
  note dg = draw_glyph_eq [OF lim assms(2)]
  have l: "unat ?px + 8 \<le> 2 ^ 64" "unat ?py + 16 \<le> 2 ^ 64" using lim dg(2,3) by simp_all
  have "\<forall>(x, y, c) \<in> set ?ps. inside ?fb (unat x) (unat y)"
  proof (intro ballI, clarify)
    fix x y c assume "(x, y, c) \<in> set ?ps"
    from glyph_pixels_elem [OF l assms(2) this] obtain row col d where
      "row < 8" "col < 8" "d < 2" "unat x = unat ?px + col" "unat y = unat ?py + 2 * row + d" by metis
    then have "unat x < unat (cx con) * 8 + 8" "unat y < unat (cy con) * 16 + 16" unfolding dg(2,3) by linarith+
    with assms(1,3,4) show "inside ?fb (unat x) (unat y)" by (simp add: inside_def)
  qed
  from fbs.paint [OF this, of m] obtain m' where m': "draw_glyph con g m = Inr m'"
    "\<And>i j. inside ?fb i j \<Longrightarrow> pixel ?fb m' i j = fbs.painted ?fb ?ps m i j" by (auto simp: dg(1))
  have "fbs.painted ?fb ?ps m i j = (if i div 8 = unat (cx con) \<and> j div 16 = unat (cy con)
      then pixel_value (f_format ?fb) (cell_color con g i j) else pixel ?fb m i j)" for i j
  proof (cases "i div 8 = unat (cx con) \<and> j div 16 = unat (cy con)")
    case True
    let ?row = "j mod 16 div 2" and ?col = "i mod 8" and ?d = "j mod 16 mod 2"
    have ij: "i = unat ?px + ?col" "j = unat ?py + 2 * ?row + ?d"
      using cell_coords(1) [of i "unat (cx con)"] cell_coords(2) [of j "unat (cy con)"] True
      unfolding dg(2,3) by blast+
    have r: "?row < 8" "?col < 8" "?d < 2" by simp_all
    obtain x y where xy: "(x, y, bit_color con (g ! ?row) ?col) \<in> set ?ps" "unat x = i" "unat y = j"
      using glyph_pixels_mem [OF l assms(2) r, of con] ij by metis
    have "\<forall>(x', y', c') \<in> set ?ps. unat x' = i \<and> unat y' = j \<longrightarrow> c' = bit_color con (g ! ?row) ?col"
    proof (intro ballI, clarify)
      fix x' y' c' assume e: "(x', y', c') \<in> set ?ps" "i = unat x'" "j = unat y'"
      from glyph_pixels_elem [OF l assms(2) e(1)] obtain row col d where
        c: "row < 8" "col < 8" "d < 2" "unat x' = unat ?px + col" "unat y' = unat ?py + 2 * row + d"
        "c' = bit_color con (g ! row) col" .
      have "row = unat y' mod 16 div 2" "col = unat x' mod 8"
        using cell_coords_unique(1) [OF c(2), of "unat x'" "unat (cx con)"]
          cell_coords_unique(2) [OF c(1,3), of "unat y'" "unat (cy con)"] c(4,5) dg(2,3) by simp_all
      with c(6) show "c' = bit_color con (g ! (unat y' mod 16 div 2)) (unat x' mod 8)" by simp
    qed
    from fbs.painted_hit [OF xy this] True show ?thesis
      using glyph_bit [of ?col "g ! ?row"] by (simp add: bit_color_def cell_color_def)
  next
    case False
    have "\<forall>(x, y, c) \<in> set ?ps. \<not> (unat x = i \<and> unat y = j)"
    proof (intro ballI, clarify)
      fix x y c assume e: "(x, y, c) \<in> set ?ps" "i = unat x" "j = unat y"
      from glyph_pixels_elem [OF l assms(2) e(1)] obtain row col d where
        c: "row < 8" "col < 8" "d < 2" "unat x = unat ?px + col" "unat y = unat ?py + 2 * row + d" by metis
      have "i div 8 = unat (cx con)" "j div 16 = unat (cy con)"
        using cell_coords_unique(1) [OF c(2), of "unat x" "unat (cx con)"]
          cell_coords_unique(2) [OF c(1,3), of "unat y" "unat (cy con)"] c(4,5) dg(2,3) e(2,3) by simp_all
      with False show False by simp
    qed
    from fbs.painted_miss [OF this] False show ?thesis by auto
  qed
  with m' show ?thesis by auto
qed

section \<open>The console\<close>

definition con_ok :: "Console \<Rightarrow> bool" where
  "con_ok con \<longleftrightarrow> fb_ok (con_fb con) \<and> cols con = f_width (con_fb con) div CELL_W
     \<and> rows con = f_height (con_fb con) div CELL_H \<and> 0 < cols con \<and> 0 < rows con
     \<and> cx con \<le> cols con \<and> cy con < rows con"

text \<open>The cell in which the next character is drawn: at the end of a line the first cell of the next
  one, except that the last line is used again and again.\<close>

definition cell_x :: "Console \<Rightarrow> nat" where
  "cell_x con = (if cols con \<le> cx con then 0 else unat (cx con))"

definition cell_y :: "Console \<Rightarrow> nat" where
  "cell_y con = (if cols con \<le> cx con then min (unat (cy con) + 1) (unat (rows con) - 1) else unat (cy con))"

lemma con_okD:
  assumes "con_ok con"
  shows "fb_ok (con_fb con)" "unat (cols con) = unat (f_width (con_fb con)) div 8"
    "unat (rows con) = unat (f_height (con_fb con)) div 16" "0 < unat (cols con)" "0 < unat (rows con)"
    "unat (cx con) \<le> unat (cols con)" "unat (cy con) < unat (rows con)"
proof -
  from assms have *: "fb_ok (con_fb con)" "cols con = f_width (con_fb con) div CELL_W"
    "rows con = f_height (con_fb con) div CELL_H" "0 < cols con" "0 < rows con" "cx con \<le> cols con" "cy con < rows con"
    unfolding con_ok_def by blast+
  show "unat (cols con) = unat (f_width (con_fb con)) div 8" "unat (rows con) = unat (f_height (con_fb con)) div 16"
    unfolding *(2,3) by (simp_all add: CELL_W_def CELL_H_def unat_div)
  show "fb_ok (con_fb con)" "0 < unat (cols con)" "0 < unat (rows con)"
    "unat (cx con) \<le> unat (cols con)" "unat (cy con) < unat (rows con)"
    using *(1,4-7) by (simp_all only: word_less_nat_alt word_le_nat_alt unat_0)
qed

text \<open>Moving the cursor.\<close>

lemma con_ok_cursor:
  assumes "con_ok con" "unat x \<le> unat (cols con)" "unat y < unat (rows con)"
  shows "con_ok (con\<lparr>cx := x, cy := y\<rparr>)"
  using assms unfolding con_ok_def word_less_nat_alt word_le_nat_alt by auto

lemma newline_eq:
  assumes "con_ok con"
  shows "newline con = Inr (con\<lparr>cx := 0, cy := of_nat (min (unat (cy con) + 1) (unat (rows con) - 1))\<rparr>)"
proof -
  have lt: "unat (cy con) < unat (rows con)" by (rule con_okD(7) [OF assms])
  then have a: "add_chk (cy con) 1 = Inr (cy con + 1)" "unat (cy con + 1) = unat (cy con) + 1"
    using unat_u64_lt [of "rows con"] by (simp_all add: add_chk_nat unat_add_no_wrap)
  have "(if rows con \<le> cy con + 1 then saturating_sub (rows con) 1 else cy con + 1)
      = of_nat (min (unat (cy con) + 1) (unat (rows con) - 1))"
  proof (cases "rows con \<le> cy con + 1")
    case True
    then have "unat (saturating_sub (rows con) 1) = unat (rows con) - 1" "unat (rows con) = unat (cy con) + 1"
      using lt a(2) by (simp_all add: unat_saturating_sub word_le_nat_alt)
    then have "saturating_sub (rows con) 1 = cy con" "min (unat (cy con) + 1) (unat (rows con) - 1) = unat (cy con)"
      by (simp_all add: word_unat_eq_iff)
    with True show ?thesis by simp
  next
    case False
    then have "unat (cy con) + 1 < unat (rows con)" using a(2) by (simp add: word_le_nat_alt)
    then have "min (unat (cy con) + 1) (unat (rows con) - 1) = unat (cy con) + 1" by simp
    with False show ?thesis by simp
  qed
  with a(1) show ?thesis by (simp add: newline_def)
qed

lemma glyph_length: "length (glyph c) = 8"
proof -
  have "length (glyph_upper d) = 8" for d by (simp add: glyph_upper_def if_distrib [of length])
  then show ?thesis by (simp add: glyph_def)
qed

lemma put_char_picture:
  assumes "con_ok con" "ch \<noteq> 0x0a" "ch \<noteq> 0x0d"
  defines "con' \<equiv> con\<lparr>cx := of_nat (cell_x con) + 1, cy := of_nat (cell_y con)\<rparr>"
  shows "\<exists>m'. put_char ch (con, m) = Inr (con', m') \<and> con_ok con' \<and> (\<forall>i j. inside (con_fb con) i j \<longrightarrow>
    pixel (con_fb con) m' i j = (if i div 8 = cell_x con \<and> j div 16 = cell_y con
      then pixel_value (f_format (con_fb con)) (cell_color con (glyph ch) i j) else pixel (con_fb con) m i j))"
proof -
  define con1 where "con1 = con\<lparr>cx := of_nat (cell_x con), cy := of_nat (cell_y con)\<rparr>"
  note n = con_okD [OF assms(1)]
  have lt: "cell_x con < unat (cols con)" "cell_y con < unat (rows con)"
    using n by (auto simp: cell_x_def cell_y_def word_le_nat_alt)
  have u: "unat (cx con1) = cell_x con" "unat (cy con1) = cell_y con"
    using lt unat_u64_lt [of "cols con"] unat_u64_lt [of "rows con"]
    by (simp_all add: con1_def unsigned_of_nat take_bit_nat_eq_self)
  have e: "(if cols con \<le> cx con then newline con else Inr con) = Inr con1"
    using newline_eq [OF assms(1)] by (simp add: con1_def cell_x_def cell_y_def)
  have fb: "con_fb con1 = con_fb con" by (simp add: con1_def)
  have b: "cell_x con * 8 + 8 \<le> unat (f_width (con_fb con))" "cell_y con * 16 + 16 \<le> unat (f_height (con_fb con))"
    using lt n(2,3) by linarith+
  from draw_glyph_picture [of con1 "glyph ch" m, unfolded fb u, OF n(1) glyph_length b] obtain m' where
    m': "draw_glyph con1 (glyph ch) m = Inr m'" "\<And>i j. inside (con_fb con) i j \<Longrightarrow>
      pixel (con_fb con) m' i j = (if i div 8 = cell_x con \<and> j div 16 = cell_y con
        then pixel_value (f_format (con_fb con)) (cell_color con1 (glyph ch) i j) else pixel (con_fb con) m i j)" by blast
  have cc: "cell_color con1 = cell_color con" by (simp add: con1_def cell_color_def fun_eq_iff)
  have a: "add_chk (cx con1) 1 = Inr (cx con1 + 1)" "unat (cx con1 + 1) = cell_x con + 1"
    using u(1) lt(1) unat_u64_lt [of "cols con"] by (simp_all add: add_chk_nat unat_add_no_wrap)
  have c': "con' = con1\<lparr>cx := cx con1 + 1\<rparr>" by (simp add: con'_def con1_def)
  have "put_char ch (con, m) = Inr (con', m')"
    using assms(2,3) e m'(1) a(1) by (simp add: put_char_def c')
  moreover have "con_ok con'" unfolding con'_def
    by (rule con_ok_cursor [OF assms(1)]) (use lt a(2) u(2) in \<open>simp_all add: con1_def\<close>)
  ultimately show ?thesis using m'(2) unfolding cc by blast
qed

lemma put_char_ok:
  assumes "con_ok con"
  shows "\<exists>con' m'. put_char ch (con, m) = Inr (con', m') \<and> con_ok con' \<and> con_fb con' = con_fb con"
proof -
  note d = con_okD [OF assms]
  have "con_ok (con\<lparr>cx := 0\<rparr>)" using con_ok_cursor [OF assms, of 0 "cy con"] d by simp
  moreover have "con_ok (con\<lparr>cx := 0, cy := of_nat (min (unat (cy con) + 1) (unat (rows con) - 1))\<rparr>)"
  proof -
    have "min (unat (cy con) + 1) (unat (rows con) - 1) < unat (rows con)" using d(5) by simp
    then have "unat (of_nat (min (unat (cy con) + 1) (unat (rows con) - 1)) :: u64) < unat (rows con)"
      using unat_u64_lt [of "rows con"] by (simp add: unsigned_of_nat take_bit_nat_eq_self)
    with con_ok_cursor [OF assms, of 0] show ?thesis by simp
  qed
  ultimately show ?thesis
    using newline_eq [OF assms] put_char_picture [OF assms, of ch m]
    by (cases "ch = 0x0a \<or> ch = 0x0d") (auto simp: put_char_def)
qed

section \<open>Properties\<close>

text \<open>A screen of 16 by 32 pixels with two columns and two rows of characters.\<close>

definition demo_fb :: FrameBuffer where
  "demo_fb = \<lparr>f_base = 0x80000000, f_size = 2048, f_width = 16, f_height = 32, f_stride = 16, f_format = PixBgr\<rparr>"

lemma demo_con_ok: "con_ok (console_new demo_fb)"
  by (simp add: con_ok_def console_new_def demo_fb_def fb_ok_def CELL_W_def CELL_H_def)

text \<open>C32: drawing a character paints exactly its cell. On a console whose cursor is in range, a character
  other than a line break is drawn in the cell of the cursor (the first cell of the next line when the
  line is full, the last line again at the bottom): every pixel of the 8 by 16 cell gets the
  foreground or background colour according to the bit of the glyph, two scan lines per glyph row,
  most significant bit left; no other pixel changes, nothing overflows and the cursor stays in range.\<close>

theorem put_char_draws:
  assumes "con_ok con" "ch \<noteq> 0x0a" "ch \<noteq> 0x0d"
  shows "\<exists>con' m'. put_char ch (con, m) = Inr (con', m') \<and> con_ok con'
    \<and> con' = con\<lparr>cx := of_nat (cell_x con) + 1, cy := of_nat (cell_y con)\<rparr>
    \<and> (\<forall>i j. inside (con_fb con) i j \<longrightarrow> pixel (con_fb con) m' i j =
        (if i div 8 = cell_x con \<and> j div 16 = cell_y con
         then pixel_value (f_format (con_fb con)) (cell_color con (glyph ch) i j) else pixel (con_fb con) m i j))"
  using put_char_picture [OF assms] by blast

theorem put_char_draws_witness:
  "\<exists>con' m'. put_char 0x41 (console_new demo_fb, \<lambda>_. 0) = Inr (con', m') \<and> pixel demo_fb m' 3 1 = 0xffffff
    \<and> pixel demo_fb m' 0 0 = 0"
proof -
  have fb: "con_fb (console_new demo_fb) = demo_fb" by (simp add: console_new_def)
  have i: "inside demo_fb 3 1" "inside demo_fb 0 0" by (simp_all add: inside_def fb_ok_def demo_fb_def)
  have c: "cell_x (console_new demo_fb) = 0" "cell_y (console_new demo_fb) = 0"
    by (simp_all add: cell_x_def cell_y_def console_new_def demo_fb_def CELL_W_def)
  have g: "cell_color (console_new demo_fb) (glyph 0x41) 3 1 = \<lparr>c_r = 0xff, c_g = 0xff, c_b = 0xff\<rparr>"
    "cell_color (console_new demo_fb) (glyph 0x41) 0 0 = \<lparr>c_r = 0, c_g = 0, c_b = 0\<rparr>"
    by (simp_all add: cell_color_def console_new_def glyph_def glyph_upper_def)
  have v: "pixel_value (f_format demo_fb) \<lparr>c_r = 0xff, c_g = 0xff, c_b = 0xff\<rparr> = 0xffffff"
    "pixel_value (f_format demo_fb) \<lparr>c_r = 0, c_g = 0, c_b = 0\<rparr> = 0"
    by (simp_all add: demo_fb_def)
  from put_char_draws [OF demo_con_ok, of "0x41" "\<lambda>_. 0", unfolded fb] obtain con' m' where
    r: "put_char 0x41 (console_new demo_fb, \<lambda>_. 0) = Inr (con', m')" "\<And>i j. inside demo_fb i j \<Longrightarrow> pixel demo_fb m' i j =
      (if i div 8 = cell_x (console_new demo_fb) \<and> j div 16 = cell_y (console_new demo_fb)
       then pixel_value (f_format demo_fb) (cell_color (console_new demo_fb) (glyph 0x41) i j)
       else pixel demo_fb (\<lambda>_. 0) i j)" by auto
  have "pixel demo_fb m' 3 1 = 0xffffff" "pixel demo_fb m' 0 0 = 0"
    using r(2) [OF i(1)] r(2) [OF i(2)] by (simp_all add: c g [simplified] v)
  with r(1) show ?thesis by blast
qed

text \<open>C33: the console cannot write outside the framebuffer. Whatever geometry the boot loader reports and
  whatever the coordinates, a pixel store that returns changes at most four bytes inside
  \<open>[base, base + size)\<close>.\<close>

theorem put_pixel_safe:
  assumes "put_pixel fb x y c m = Inr m'" "unat (f_base fb) + unat (f_size fb) \<le> 2 ^ 64" "m' a \<noteq> m a"
  shows "unat (f_base fb) \<le> unat a \<and> unat a < unat (f_base fb) + unat (f_size fb)"
  using assms by (rule put_pixel_inside)

theorem put_pixel_safe_witness:
  "\<exists>m'. put_pixel demo_fb 1 0 \<lparr>c_r = 1, c_g = 2, c_b = 3\<rparr> (\<lambda>_. 0) = Inr m' \<and> m' 0x80000004 = 3
    \<and> unat (f_base demo_fb) \<le> unat (0x80000004 :: u64)"
proof -
  let ?m = "wr32 (\<lambda>_. 0) 0x80000004 0x010203"
  have p: "put_pixel demo_fb 1 0 \<lparr>c_r = 1, c_g = 2, c_b = 3\<rparr> (\<lambda>_. 0) = Inr ?m"
    by (simp add: put_pixel_def demo_fb_def mul_chk_def add_chk_def word_le_nat_alt)
  have v: "?m 0x80000004 = 3" by (simp add: wr32_def)
  from put_pixel_safe [OF p, of "0x80000004"] v have "unat (f_base demo_fb) \<le> unat (0x80000004 :: u64)"
    by (simp add: demo_fb_def)
  with p v show ?thesis by blast
qed

end
