(* ===== verification/Boot_Layout.thy ===== *)
theory Boot_Layout
  imports Fb
begin

text \<open>
  How the records of the boot protocol lie in memory (\<^verbatim>\<open>repr(C)\<close> in \<^verbatim>\<open>libs/bootinfo/src/lib.rs\<close>), and
  the text that \<^verbatim>\<open>core::fmt\<close> produces for the values the loader and the kernel print. Loader and kernel
  share only this layout: what one stores with \<open>ptr::write\<close> the other reads through a reference.
\<close>

section \<open>Bytes in memory\<close>

definition le32 :: "u32 \<Rightarrow> u8 list" where
  "le32 v = [ucast v, ucast (drop_bit 8 v), ucast (drop_bit 16 v), ucast (drop_bit 24 v)]"

definition le64 :: "u64 \<Rightarrow> u8 list" where
  "le64 v = [ucast v, ucast (drop_bit 8 v), ucast (drop_bit 16 v), ucast (drop_bit 24 v),
     ucast (drop_bit 32 v), ucast (drop_bit 40 v), ucast (drop_bit 48 v), ucast (drop_bit 56 v)]"

definition store_bytes :: "u64 \<Rightarrow> u8 list \<Rightarrow> memory \<Rightarrow> memory" where
  "store_bytes a bs m = (\<lambda>x. if unat (x - a) < length bs then bs ! unat (x - a) else m x)"

definition load_bytes :: "u64 \<Rightarrow> u64 \<Rightarrow> memory \<Rightarrow> u8 list" where
  "load_bytes a n m = map (\<lambda>i. m (a + of_nat i)) [0..<unat n]"

lemma length_le [simp]: "length (le32 v) = 4" "length (le64 w) = 8"
  by (simp_all add: le32_def le64_def)

lemma length_load_bytes [simp]: "length (load_bytes a n m) = unat n"
  by (simp add: load_bytes_def)

section \<open>Records\<close>

text \<open>The padding fields \<open>_reserved0\<close> and \<open>_reserved\<close> are written as zero.\<close>

definition bootinfo_bytes :: "BootInfo \<Rightarrow> u8 list" where
  "bootinfo_bytes bi =
     le32 (bi_magic bi) @ le32 (bi_version bi) @ le64 (fb_base bi) @ le64 (fb_size bi)
     @ le32 (fb_width bi) @ le32 (fb_height bi) @ le32 (fb_stride bi) @ le32 (fb_format bi)
     @ le64 (regions_ptr bi) @ le32 (regions_len bi) @ le32 0
     @ le64 (kernel_phys_base bi) @ le64 (kernel_phys_end bi)"

definition read_bootinfo :: "u64 \<Rightarrow> memory \<Rightarrow> BootInfo" where
  "read_bootinfo p m =
     \<lparr>bi_magic = rd32 m p, bi_version = rd32 m (p + 4), fb_base = rd64 m (p + 8),
      fb_size = rd64 m (p + 16), fb_width = rd32 m (p + 24), fb_height = rd32 m (p + 28),
      fb_stride = rd32 m (p + 32), fb_format = rd32 m (p + 36), regions_ptr = rd64 m (p + 40),
      regions_len = rd32 m (p + 48), kernel_phys_base = rd64 m (p + 56),
      kernel_phys_end = rd64 m (p + 64)\<rparr>"

definition region_bytes :: "MemoryRegion \<Rightarrow> u8 list" where
  "region_bytes r = le64 (mr_base r) @ le64 (mr_len r) @ le32 (mr_kind r) @ le32 0"

definition read_region :: "u64 \<Rightarrow> memory \<Rightarrow> MemoryRegion" where
  "read_region p m = \<lparr>mr_base = rd64 m p, mr_len = rd64 m (p + 8), mr_kind = rd32 m (p + 16)\<rparr>"

definition read_regions :: "u64 \<Rightarrow> nat \<Rightarrow> memory \<Rightarrow> MemoryRegion list" where
  "read_regions p n m = map (\<lambda>i. read_region (p + of_nat (24 * i)) m) [0..<n]"

section \<open>Formatting\<close>

text \<open>\<open>{}\<close> prints a number with \<open>dec_bytes\<close>; \<open>{:#x}\<close> prints the hexadecimal digits without leading
  zeros.\<close>

fun hex_fill :: "nat \<Rightarrow> u64 \<Rightarrow> u8 list" where
  "hex_fill 0 v = []"
| "hex_fill (Suc n) v = (if v = 0 then [] else hex_digit (ucast (v AND 0xf)) # hex_fill n (drop_bit 4 v))"

definition bytes_of :: "string \<Rightarrow> u8 list" where
  "bytes_of s = map of_char s"

definition fmt_hex :: "u64 \<Rightarrow> u8 list" where
  "fmt_hex v = bytes_of ''0x'' @ (if v = 0 then [48] else rev (hex_fill 16 v))"

fun fmt_pixel :: "PixelFormat \<Rightarrow> u8 list" where
  "fmt_pixel PixUnknown = bytes_of ''Unknown''"
| "fmt_pixel PixRgb = bytes_of ''Rgb''"
| "fmt_pixel PixBgr = bytes_of ''Bgr''"

section \<open>What is stored is what is read\<close>

lemma store_bytes_at: "i < length bs \<Longrightarrow> i < 2 ^ 64 \<Longrightarrow> store_bytes a bs m (a + of_nat i) = bs ! i"
  by (simp add: store_bytes_def unat_of_nat)

lemma store_bytes_outside: "length bs \<le> unat (x - a) \<Longrightarrow> store_bytes a bs m x = m x"
  by (simp add: store_bytes_def)

text \<open>The bytes from an address on; a read of a field depends on nothing else.\<close>

definition holds :: "u64 \<Rightarrow> u8 list \<Rightarrow> memory \<Rightarrow> bool" where
  "holds a bs m \<longleftrightarrow> (\<forall>i < length bs. m (a + of_nat i) = bs ! i)"

lemma holds_append: "holds a (bs @ cs) m \<longleftrightarrow> holds a bs m \<and> holds (a + of_nat (length bs)) cs m"
proof -
  have "(\<forall>i < length bs + length cs. P i) \<longleftrightarrow> (\<forall>i < length bs. P i) \<and> (\<forall>i < length cs. P (length bs + i))" for P
    by (auto, metis add_less_cancel_left le_add_diff_inverse not_less)
  from this [of "\<lambda>i. m (a + of_nat i) = (bs @ cs) ! i"] show ?thesis
    by (simp add: holds_def nth_append add.assoc)
qed

lemma holds_store: "length bs < 2 ^ 64 \<Longrightarrow> holds a bs (store_bytes a bs m)"
  by (simp add: holds_def store_bytes_at)

lemma holds_cong: "(\<And>i. i < length bs \<Longrightarrow> m' (a + of_nat i) = m (a + of_nat i)) \<Longrightarrow> holds a bs m' = holds a bs m"
  by (simp add: holds_def)

lemma rd64_holds: "holds a (le64 v) m \<Longrightarrow> rd64 m a = v"
proof -
  assume h: "holds a (le64 v) m"
  have "m (a + of_nat i) = le64 v ! i" if "i < 8" for i using h that by (simp add: holds_def)
  from this [of 0] this [of 1] this [of 2] this [of 3] this [of 4] this [of 5] this [of 6] this [of 7]
  have "rd64 m a = rd64 (wr64 m a v) a"
    unfolding rd64_def wr64_def le64_def by simp
  then show ?thesis by simp
qed

lemma rd32_holds: "holds a (le32 v) m \<Longrightarrow> rd32 m a = v"
proof -
  assume h: "holds a (le32 v) m"
  have "m (a + of_nat i) = le32 v ! i" if "i < 4" for i using h that by (simp add: holds_def)
  from this [of 0] this [of 1] this [of 2] this [of 3] have "rd32 m a = rd32 (wr32 m a v) a"
    unfolding rd32_def wr32_def le32_def by simp
  then show ?thesis by (simp add: rd32_wr32_same)
qed

lemma read_bootinfo_holds: "holds p (bootinfo_bytes bi) m \<Longrightarrow> read_bootinfo p m = bi"
  by (simp add: bootinfo_bytes_def holds_append read_bootinfo_def rd32_holds rd64_holds add.assoc)

lemma read_region_holds: "holds p (region_bytes r) m \<Longrightarrow> read_region p m = r"
  by (simp add: region_bytes_def holds_append read_region_def rd32_holds rd64_holds add.assoc)

lemma length_bootinfo_bytes [simp]: "length (bootinfo_bytes bi) = 72"
  by (simp add: bootinfo_bytes_def)

lemma length_region_bytes [simp]: "length (region_bytes r) = 24"
  by (simp add: region_bytes_def)

end
