(* ===== verification/Arch.thy ===== *)
theory Arch
  imports Descriptors Pic
begin

text \<open>
  Bringing up the processor and the interrupt hardware: \<^verbatim>\<open>gdt::init\<close>, \<^verbatim>\<open>idt::init\<close>, \<^verbatim>\<open>pit.rs\<close> and \<^verbatim>\<open>arch::x86_64::init\<close>. The system registers that \<open>lgdt\<close>, \<open>lidt\<close>,
  \<open>ltr\<close> and the segment loads write, the flag that enables interrupts and the tables themselves are one
  record, which the operations carry beside the machine. The addresses the linker gives to the statics
  are parameters.
\<close>

section \<open>State\<close>

text \<open>\<open>TSS0.rsp0\<close> is the field \<open>tss_rsp0\<close> of the machine.\<close>

record Tss =
  t_rsp1 :: u64
  t_rsp2 :: u64
  t_ist1 :: u64
  t_ist2 :: u64
  t_ist3 :: u64
  t_ist4 :: u64
  t_ist5 :: u64
  t_ist6 :: u64
  t_ist7 :: u64
  t_iomap_base :: u16

definition TSS_BYTES :: u32 where
  "TSS_BYTES = 104"

definition tss_new :: Tss where
  "tss_new = \<lparr>t_rsp1 = 0, t_rsp2 = 0, t_ist1 = 0, t_ist2 = 0, t_ist3 = 0, t_ist4 = 0, t_ist5 = 0,
     t_ist6 = 0, t_ist7 = 0, t_iomap_base = ucast TSS_BYTES\<rparr>"

record table_reg =
  tr_limit :: u16
  tr_base :: u64

record arch_state =
  TSS0 :: Tss
  GDT :: "u64 list"
  IDT :: "IdtEntry list"
  gdtr :: table_reg
  idtr :: table_reg
  r_cs :: u16
  r_ds :: u16
  r_es :: u16
  r_ss :: u16
  r_tr :: u16
  int_enabled :: bool

text \<open>The addresses of the statics.\<close>

record statics =
  DF_IST_STACK_at :: u64
  KERNEL_INT_STACK0_at :: u64
  TSS0_at :: u64
  GDT_at :: u64
  IDT_at :: u64

section \<open>Segments\<close>

definition lgdt :: "u64 \<Rightarrow> u64 list \<Rightarrow> arch_state \<Rightarrow> arch_state" where
  "lgdt at gdt c = c\<lparr>gdtr := \<lparr>tr_limit = of_nat (length gdt * 8 - 1), tr_base = at\<rparr>\<rparr>"

definition load_seg_regs :: "arch_state \<Rightarrow> arch_state" where
  "load_seg_regs c = c\<lparr>r_ds := KDATA_SEL, r_es := KDATA_SEL, r_ss := KDATA_SEL, r_cs := KCODE_SEL\<rparr>"

definition ltr :: "u16 \<Rightarrow> arch_state \<Rightarrow> arch_state" where
  "ltr sel c = c\<lparr>r_tr := sel\<rparr>"

definition gdt_init :: "statics \<Rightarrow> arch_state \<times> 'z machine_scheme \<Rightarrow> arch_state \<times> 'z machine_scheme" where
  "gdt_init a st = (case st of (c, s) \<Rightarrow>
     let df_top = DF_IST_STACK_at a + 16 * 1024;
         c1 = c\<lparr>TSS0 := (TSS0 c)\<lparr>t_ist1 := df_top\<rparr>\<rparr>;
         rsp0_top = KERNEL_INT_STACK0_at a + 16 * 1024;
         s1 = set_rsp0 rsp0_top s;
         (tss_lo, tss_hi) = gdt_tss64 (TSS0_at a) (TSS_BYTES - 1);
         c2 = c1\<lparr>GDT := (GDT c1)[0 := 0, 1 := gdt_code64, 2 := gdt_data, 3 := tss_lo, 4 := tss_hi,
                                  5 := gdt_user_data, 6 := gdt_user_code64]\<rparr>;
         c3 = ltr TSS_SEL (load_seg_regs (lgdt (GDT_at a) (GDT c2) c2)) in
     (c3, write_str (''mantracore: gdt/tss initialized'' @ nl) s1))"

section \<open>Interrupts\<close>

definition lidt :: "u64 \<Rightarrow> arch_state \<Rightarrow> arch_state" where
  "lidt at c = c\<lparr>idtr := \<lparr>tr_limit = 256 * 16 - 1, tr_base = at\<rparr>\<rparr>"

definition idt_setup ::
  "statics \<Rightarrow> handlers \<Rightarrow> arch_state \<times> 'z machine_scheme \<Rightarrow> arch_state \<times> 'z machine_scheme" where
  "idt_setup a h st = (case st of (c, s) \<Rightarrow>
     let c1 = c\<lparr>IDT := idt_init (r_cs c) h (IDT c)\<rparr> in
     (lidt (IDT_at a) c1, write_str (''mantracore: idt initialized'' @ nl) s))"

definition enable_interrupts :: "arch_state \<times> 'z machine_scheme \<Rightarrow> arch_state \<times> 'z machine_scheme" where
  "enable_interrupts st = (case st of (c, s) \<Rightarrow>
     (c\<lparr>int_enabled := True\<rparr>, write_str (''mantracore: interrupts enabled'' @ nl) s))"

text \<open>The timer: \<open>clamp\<close>, the division and the truncation to 16 bits.\<close>

definition pit_divisor :: "u32 \<Rightarrow> u16" where
  "pit_divisor hz = (let hz = max 18 (min hz 2000) in ucast (1193182 div hz))"

definition pit_init :: "u32 \<Rightarrow> 'z machine_scheme \<Rightarrow> 'z machine_scheme" where
  "pit_init hz s =
     (let divisor = pit_divisor hz;
          s = outb 0x43 0x36 s;
          s = outb 0x40 (ucast (divisor AND 0xff)) s in
      outb 0x40 (ucast (drop_bit 8 divisor)) s)"

definition arch_init ::
  "statics \<Rightarrow> handlers \<Rightarrow> arch_state \<times> 'z machine_scheme \<Rightarrow> arch_state \<times> 'z machine_scheme" where
  "arch_init a h st =
     (case idt_setup a h (gdt_init a st) of (c, s) \<Rightarrow> (c, pit_init 100 (pic_init s)))"

section \<open>Properties\<close>

lemma pit_init_writes: "port_writes (pit_init hz s) = port_writes s @
   [(0x43, 0x36), (0x40, ucast (pit_divisor hz AND 0xff)), (0x40, ucast (drop_bit 8 (pit_divisor hz)))]"
  by (simp add: pit_init_def Let_def port_simps)

lemma arch_init_eq:
  assumes "gdt_tss64 (TSS0_at a) (TSS_BYTES - 1) = (lo, hi)"
  shows "fst (arch_init a h (c, s)) = c\<lparr>TSS0 := (TSS0 c)\<lparr>t_ist1 := DF_IST_STACK_at a + 16384\<rparr>,
      GDT := (GDT c)[0 := 0, 1 := gdt_code64, 2 := gdt_data, 3 := lo, 4 := hi, 5 := gdt_user_data, 6 := gdt_user_code64],
      IDT := idt_init KCODE_SEL h (IDT c),
      gdtr := \<lparr>tr_limit = of_nat (length (GDT c) * 8 - 1), tr_base = GDT_at a\<rparr>,
      idtr := \<lparr>tr_limit = 4095, tr_base = IDT_at a\<rparr>,
      r_cs := KCODE_SEL, r_ds := KDATA_SEL, r_es := KDATA_SEL, r_ss := KDATA_SEL, r_tr := TSS_SEL\<rparr>"
    "tss_rsp0 (snd (arch_init a h (c, s))) = KERNEL_INT_STACK0_at a + 16384"
    "port_writes (snd (arch_init a h (c, s))) = port_writes (pit_init 100 (pic_init s))"
  by (simp_all add: arch_init_def gdt_init_def idt_setup_def Let_def assms lgdt_def lidt_def ltr_def load_seg_regs_def
      set_rsp0_def serial_eqs pit_init_def pic_init_def port_simps)

text \<open>C34: interrupts arrive where the table expects them. Whatever state the firmware left the two interrupt
  controllers in and whatever was written to ports before, after \<open>arch::init\<close> the timer line arrives at vector 32, whose gate leads to the timer
  stub, and every other device line of both controllers is masked.\<close>

theorem timer_line_routed:
  assumes "length (IDT c) = 256"
  shows "let (c', s') = arch_init a h (c, s); (m, sl) = pics_after (port_writes s') (p1, p2) in
     pic_vector m 0 = Some 32 \<and> gate_offset (IDT c' ! 32) = timer_irq_stub h \<and> gate_present (IDT c' ! 32)
     \<and> selector (IDT c' ! 32) = KCODE_SEL
     \<and> (\<forall>n < 8. n \<noteq> 0 \<and> n \<noteq> 2 \<longrightarrow> pic_vector m n = None) \<and> (\<forall>n < 8. pic_vector sl n = None)"
proof -
  obtain lo hi where d: "gdt_tss64 (TSS0_at a) (TSS_BYTES - 1) = (lo, hi)" by fastforce
  obtain c' s' where st: "arch_init a h (c, s) = (c', s')" by fastforce
  with arch_init_eq [OF d, of h c s] have i: "IDT c' = idt_init KCODE_SEL h (IDT c)"
    and w: "port_writes s' = port_writes (pit_init 100 (pic_init s))" by simp_all
  have g: "IDT c' ! 32 = set_handler KCODE_SEL (timer_irq_stub h) (IDT c ! 32)"
    using assms by (simp add: i idt_init_def Let_def idt_update_def)
  have sel: "selector (set_handler c x e) = c" for c x e
    by (simp add: set_handler_def Let_def)
  have m: "bit (0xFA :: u8) n \<longleftrightarrow> n \<noteq> 0 \<and> n \<noteq> 2" "bit (0xFF :: u8) n" if "n < 8" for n
  proof -
    from that have "n = 0 \<or> n = 1 \<or> n = 2 \<or> n = 3 \<or> n = 4 \<or> n = 5 \<or> n = 6 \<or> n = 7" by linarith
    then show "bit (0xFA :: u8) n \<longleftrightarrow> n \<noteq> 0 \<and> n \<noteq> 2" "bit (0xFF :: u8) n"
      by (elim disjE; simp add: bit_iff_odd_drop_bit)+
  qed
  obtain q1 q2 where q: "fold pic_port (port_writes s) (p1, p2) = (q1, q2)" by fastforce
  have f: "pics_after (port_writes s') (p1, p2) =
      (q1\<lparr>icw_step := 0, vec_offset := 0x20, cascade := 4, irq_mask := 0xFA, in_service := False\<rparr>,
       q2\<lparr>icw_step := 0, vec_offset := 0x28, cascade := 2, irq_mask := 0xFF, in_service := False\<rparr>)"
    by (simp add: w pit_init_writes pic_init_writes q pics_after_def pic_cmd_write_def pic_data_write_def)
  have "(\<forall>n < 8. n \<noteq> 0 \<and> n \<noteq> 2 \<longrightarrow> bit (0xFA :: u8) n) \<and> (\<forall>n < 8. bit (0xFF :: u8) n)"
    using m by blast
  then show ?thesis
    unfolding st Let_def f prod.case g
    by (auto simp: pic_vector_def gate_kinds gate_offset_set_handler sel)
qed

definition demo_arch :: arch_state where
  "demo_arch = \<lparr>TSS0 = tss_new, GDT = replicate 7 0,
     IDT = replicate 256 idt_missing, gdtr = \<lparr>tr_limit = 0, tr_base = 0\<rparr>, idtr = \<lparr>tr_limit = 0, tr_base = 0\<rparr>,
     r_cs = 0x38, r_ds = 0x30, r_es = 0x30, r_ss = 0x30, r_tr = 0, int_enabled = True\<rparr>"

definition demo_machine :: machine where
  "demo_machine = \<lparr>mem = (\<lambda>_. 0), cr3 = 0, tss_rsp0 = 0, serial_out = [], port_writes = []\<rparr>"

definition demo_statics :: statics where
  "demo_statics = \<lparr>DF_IST_STACK_at = 0x210000, KERNEL_INT_STACK0_at = 0x214000, TSS0_at = 0x218000,
     GDT_at = 0x219000, IDT_at = 0x21A000\<rparr>"

lemma demo_arch_ok: "length (IDT demo_arch) = 256" "length (GDT demo_arch) = 7" "port_writes demo_machine = []"
  by (simp_all add: demo_arch_def demo_machine_def)

theorem timer_line_routed_witness:
  "\<forall>h p1 p2. let (c', s') = arch_init demo_statics h (demo_arch, demo_machine);
       (m, sl) = pics_after (port_writes s') (p1, p2) in
     pic_vector m 0 = Some 32 \<and> gate_offset (IDT c' ! 32) = timer_irq_stub h"
proof (intro allI)
  fix h p1 p2
  from timer_line_routed [OF demo_arch_ok(1), of demo_statics h demo_machine p1 p2]
  show "let (c', s') = arch_init demo_statics h (demo_arch, demo_machine);
       (m, sl) = pics_after (port_writes s') (p1, p2) in
     pic_vector m 0 = Some 32 \<and> gate_offset (IDT c' ! 32) = timer_irq_stub h"
    by (auto simp: Let_def split: prod.splits)
qed

lemma gdt_update7:
  "length xs = 7 \<Longrightarrow> xs[0 := a, 1 := b, 2 := c, 3 := d, 4 := e, 5 := f, 6 := g] = [a, b, c, d, e, f, g]"
  by (rule nth_equalityI) (auto simp: nth_list_update less_Suc_eq numeral_eq_Suc)

text \<open>C35: the segment state after \<open>arch::init\<close> is consistent. The code segment register selects a present
  ring-0 code segment, the data and stack registers a ring-0 data segment, and the task register the
  descriptor of the TSS, all inside the limit loaded into the table register; the TSS descriptor gives
  the address of \<open>TSS0\<close> and its last byte; the double-fault gate uses the stack top that the TSS holds
  in its first interrupt-stack slot; and the interrupt table register covers all 256 gates.\<close>

theorem arch_init_consistent:
  assumes "length (GDT c) = 7" "length (IDT c) = 256"
  shows "let (c', s') = arch_init a h (c, s); at = \<lambda>sel. GDT c' ! unat (drop_bit 3 sel) in
     seg_code (at (r_cs c')) \<and> seg_dpl (at (r_cs c')) = 0
     \<and> \<not> seg_code (at (r_ss c')) \<and> seg_dpl (at (r_ss c')) = 0 \<and> r_ds c' = r_ss c' \<and> r_es c' = r_ss c'
     \<and> tss_base (at (r_tr c'), at (r_tr c' + 8)) = TSS0_at a \<and> tss_limit (at (r_tr c'), at (r_tr c' + 8)) = 103
     \<and> unat (r_tr c') + 15 \<le> unat (tr_limit (gdtr c')) \<and> unat (UCODE_SEL) + 7 \<le> unat (tr_limit (gdtr c'))
     \<and> unat (UDATA_SEL) + 7 \<le> unat (tr_limit (gdtr c')) \<and> tr_base (gdtr c') = GDT_at a
     \<and> ist (IDT c' ! 8) = 1 \<and> t_ist1 (TSS0 c') = DF_IST_STACK_at a + 16384
     \<and> tss_rsp0 s' = KERNEL_INT_STACK0_at a + 16384
     \<and> unat (tr_limit (idtr c')) + 1 = 16 * length (IDT c') \<and> tr_base (idtr c') = IDT_at a"
proof -
  obtain lo hi where d: "gdt_tss64 (TSS0_at a) (TSS_BYTES - 1) = (lo, hi)" by fastforce
  obtain c' s' where st: "arch_init a h (c, s) = (c', s')" by fastforce
  note e = arch_init_eq(1,2) [OF d, of h c s, unfolded st gdt_update7 [OF assms(1)] assms(1) fst_conv snd_conv]
  have i: "ist (idt_init k h (IDT c) ! 8) = 1" "length (idt_init k h (IDT c)) = 256" for k
    using assms(2) by (simp_all add: idt_init_def Let_def idt_update_def df_ist_index_def set_ist_def)
  have t: "tss_base (lo, hi) = TSS0_at a" "tss_limit (lo, hi) = 103"
    using tss_base_gdt [of "TSS0_at a" "TSS_BYTES - 1"] tss_limit_gdt [of "TSS0_at a" "TSS_BYTES - 1"]
    unfolding d by (simp_all add: TSS_BYTES_def mask_eq_exp_minus_1)
  show ?thesis
    unfolding st Let_def prod.case e
    by (simp add: i t KCODE_SEL_def KDATA_SEL_def TSS_SEL_def UCODE_SEL_def UDATA_SEL_def seg_dpl_def seg_code_def
        gdt_code64_def gdt_data_def bit_iff_odd_drop_bit)
qed

theorem arch_init_consistent_witness:
  "\<forall>h. let (c', s') = arch_init demo_statics h (demo_arch, demo_machine); at = \<lambda>sel. GDT c' ! unat (drop_bit 3 sel) in
        seg_code (at (r_cs c')) \<and> tss_base (at (r_tr c'), at (r_tr c' + 8)) = 0x218000
        \<and> t_ist1 (TSS0 c') = 0x214000 \<and> tss_rsp0 s' = 0x218000"
proof
  fix h
  from arch_init_consistent [OF demo_arch_ok(2,1), of demo_statics h demo_machine]
  show "let (c', s') = arch_init demo_statics h (demo_arch, demo_machine); at = \<lambda>sel. GDT c' ! unat (drop_bit 3 sel) in
        seg_code (at (r_cs c')) \<and> tss_base (at (r_tr c'), at (r_tr c' + 8)) = 0x218000
        \<and> t_ist1 (TSS0 c') = 0x214000 \<and> tss_rsp0 s' = 0x218000"
    by (auto simp: Let_def demo_statics_def split: prod.splits)
qed

lemma pit_divisor_low: "hz \<le> 18 \<Longrightarrow> pit_divisor hz = 751"
proof -
  assume "hz \<le> 18"
  then have "max 18 (min hz 2000) = 18" by (simp add: min_def max_def word_le_nat_alt word_unat_eq_iff)
  then show ?thesis by (simp add: pit_divisor_def Let_def)
qed

lemma pit_divisor_high:
  assumes "19 \<le> hz"
  shows "unat (pit_divisor hz) = 1193182 div unat (max 18 (min hz 2000))"
proof -
  define h where "h = max 18 (min hz 2000)"
  have "19 \<le> unat h" using assms by (auto simp: h_def min_def max_def word_le_nat_alt)
  then have "1193182 div unat h \<le> 1193182 div 19" by (rule div_le_mono2 [rotated]) simp
  then have "1193182 div unat h < 2 ^ 16" by simp
  moreover have "unat (pit_divisor hz) = (1193182 div unat h) mod 2 ^ 16"
    by (simp add: pit_divisor_def h_def [symmetric] Let_def unsigned_ucast_eq unat_div take_bit_eq_mod)
  ultimately show ?thesis by (simp add: h_def)
qed

lemma pit_bytes:
  fixes d :: u16
  shows "unat (ucast (d AND 0xff) :: u8) + 256 * unat (ucast (drop_bit 8 d) :: u8) = unat d"
proof -
  have "d AND 0xff = take_bit 8 d" by (simp add: take_bit_eq_mask mask_eq_exp_minus_1)
  then have "unat (ucast (d AND 0xff) :: u8) = unat d mod 256"
    by (simp add: unsigned_ucast_eq unsigned_take_bit_eq take_bit_eq_mod unat_mod)
  moreover have "unat (ucast (drop_bit 8 d) :: u8) = unat d div 256"
  proof -
    have "unat d < 2 ^ 16" using unsigned_less [of d, where 'a = nat] by simp
    then have "unat d div 256 < 256" by simp
    then show ?thesis by (simp add: unsigned_ucast_eq drop_bit_eq_div take_bit_eq_mod unat_div)
  qed
  ultimately show ?thesis by simp
qed

text \<open>The timer frequency. The divisor written to the timer is the true quotient, and it comes back
  from the two bytes sent to the data port, exactly when at least 19 Hz are asked for: the lowest
  frequency the clamp admits, 18 Hz, needs the divisor 66287, which does not fit in 16 bits and is
  sent as 751, that is 1588 Hz.\<close>

theorem pit_divisor_exact:
  "(unat (pit_divisor hz) = 1193182 div unat (max 18 (min hz 2000)) \<longleftrightarrow> 19 \<le> hz)
   \<and> (hz \<le> 18 \<longrightarrow> unat (pit_divisor hz) = 751)
   \<and> (\<exists>lo hi. port_writes (pit_init hz s) = port_writes s @ [(0x43, 0x36), (0x40, lo), (0x40, hi)]
        \<and> unat lo + 256 * unat hi = unat (pit_divisor hz))"
proof -
  have "unat (max 18 (min hz 2000)) = 18" if "hz \<le> 18"
    using that by (simp add: min_def max_def word_le_nat_alt)
  then have "unat (pit_divisor hz) = 1193182 div unat (max 18 (min hz 2000)) \<longleftrightarrow> 19 \<le> hz"
    using pit_divisor_high [of hz] pit_divisor_low [of hz] by (cases "19 \<le> hz") (auto simp: word_le_nat_alt)
  moreover have "hz \<le> 18 \<longrightarrow> unat (pit_divisor hz) = 751"
    using pit_divisor_low [of hz] by simp
  ultimately show ?thesis
    using pit_bytes [of "pit_divisor hz"] by (auto simp: pit_init_writes)
qed

theorem pit_divisor_exact_witness:
  "unat (pit_divisor 100) = 11931 \<and> unat (pit_divisor 18) = 751"
  using pit_divisor_exact [of 100 demo_machine] pit_divisor_exact [of 18 demo_machine] by simp

end
