(* ===== verification/Kmain.thy ===== *)
theory Kmain
  imports Kernel_Props Boot_Layout Arch
begin

text \<open>
  The kernel's entry point, \<^verbatim>\<open>kernel/src/main.rs\<close>: it brings up serial line, processor, console, frame
  allocator, paging and heap in this order and enters the first user process, or reports why it
  cannot and halts. \<open>boot_info\<close> and the region slice are references into memory, so every use of one
  reads the memory of that moment. The embedded program, the addresses of statics and handlers, and the
  address after the \<open>int3\<close> instruction are parameters.
\<close>

section \<open>Architecture wrappers\<close>

text \<open>The entry point names the architecture only through \<^verbatim>\<open>arch/mod.rs\<close>, which forwards to \<^verbatim>\<open>arch/x86_64/mod.rs\<close>.\<close>

definition x86_64_enable_interrupts :: "arch_state \<times> 'z machine_scheme \<Rightarrow> arch_state \<times> 'z machine_scheme" where
  [simp]: "x86_64_enable_interrupts st = enable_interrupts st"

definition x86_64_init_paging :: "u64 \<Rightarrow> 'z paging_state_scheme \<Rightarrow> (unit \<times> 'z paging_state_scheme) outcome" where
  [simp]: "x86_64_init_paging max_phys_addr_inclusive s = paging_init max_phys_addr_inclusive s"

definition arch_mod_init ::
  "statics \<Rightarrow> handlers \<Rightarrow> arch_state \<times> 'z machine_scheme \<Rightarrow> arch_state \<times> 'z machine_scheme" where
  [simp]: "arch_mod_init a h st = arch_init a h st"

definition arch_mod_enable_interrupts :: "arch_state \<times> 'z machine_scheme \<Rightarrow> arch_state \<times> 'z machine_scheme" where
  [simp]: "arch_mod_enable_interrupts st = x86_64_enable_interrupts st"

definition arch_mod_init_paging :: "u64 \<Rightarrow> 'z paging_state_scheme \<Rightarrow> (unit \<times> 'z paging_state_scheme) outcome" where
  [simp]: "arch_mod_init_paging max_phys_addr_inclusive s = x86_64_init_paging max_phys_addr_inclusive s"

section \<open>References passed by the loader\<close>

definition boot_regions :: "BootInfo \<Rightarrow> memory \<Rightarrow> MemoryRegion list" where
  "boot_regions bi m =
     (if regions_ptr bi \<noteq> 0 \<and> regions_len bi \<noteq> 0
      then read_regions (regions_ptr bi) (unat (regions_len bi)) m else [])"

definition count_usable :: "MemoryRegion list \<Rightarrow> u64" where
  "count_usable rs = fold (\<lambda>r n. if mr_kind r = kind_as_u32 KUsable then n + 1 else n) rs 0"

definition format_of :: "u32 \<Rightarrow> PixelFormat" where
  "format_of x = (if x = pixel_as_u32 PixRgb then PixRgb
     else if x = pixel_as_u32 PixBgr then PixBgr else PixUnknown)"

definition kernel_fb :: "BootInfo \<Rightarrow> FrameBuffer" where
  "kernel_fb bi = \<lparr>f_base = fb_base bi, f_size = fb_size bi, f_width = ucast (fb_width bi),
     f_height = ucast (fb_height bi), f_stride = ucast (fb_stride bi), f_format = format_of (fb_format bi)\<rparr>"

section \<open>Console output\<close>

text \<open>\<open>writeln!(&mut con, ..)\<close>.\<close>

definition con_writeln ::
  "u8 list \<Rightarrow> Console \<times> 'z machine_scheme \<Rightarrow> (Console \<times> 'z machine_scheme) outcome" where
  "con_writeln bs st = (case st of (con, s) \<Rightarrow>
     and_then (console_write_str (bs @ [0x0a]) (con, mem s)) (\<lambda>(con', m'). Inr (con', s\<lparr>mem := m'\<rparr>)))"

definition BG :: Rgb where
  "BG = \<lparr>c_r = 0x08, c_g = 0x0b, c_b = 0x10\<rparr>"

definition FG :: Rgb where
  "FG = \<lparr>c_r = 0xe8, c_g = 0xef, c_b = 0xff\<rparr>"

definition banner ::
  "u64 \<Rightarrow> nat \<Rightarrow> PixelFormat \<Rightarrow> Console \<times> 'z machine_scheme \<Rightarrow> (Console \<times> 'z machine_scheme) outcome" where
  "banner p n fmt st =
     and_then (con_writeln (bytes_of ''MantraOS'') st) (\<lambda>(con, s).
     and_then (con_writeln (let bi = read_bootinfo p (mem s) in
       bytes_of ''BootInfo v'' @ dec_bytes (ucast (bi_version bi)) @ bytes_of '' OK'') (con, s)) (\<lambda>(con, s).
     and_then (con_writeln (bytes_of ''Regions: '' @ dec_bytes (of_nat n)) (con, s)) (\<lambda>(con, s).
     and_then (con_writeln (let bi = read_bootinfo p (mem s) in
       bytes_of ''FB '' @ dec_bytes (ucast (fb_width bi)) @ bytes_of ''x'' @ dec_bytes (ucast (fb_height bi))
       @ bytes_of '' stride='' @ dec_bytes (ucast (fb_stride bi)) @ bytes_of '' fmt='' @ fmt_pixel fmt) (con, s)) (\<lambda>(con, s).
     and_then (con_writeln (let bi = read_bootinfo p (mem s) in
       bytes_of ''FB base='' @ fmt_hex (fb_base bi) @ bytes_of '' size='' @ fmt_hex (fb_size bi)) (con, s)) (\<lambda>(con, s).
     con_writeln (let bi = read_bootinfo p (mem s) in
       bytes_of ''Kernel '' @ fmt_hex (kernel_phys_base bi) @ bytes_of ''-'' @ fmt_hex (kernel_phys_end bi)) (con, s))))))"

section \<open>Trying out the allocators\<close>

fun frame_test ::
  "nat list \<Rightarrow> Console \<times> 'z pmm_state_scheme \<Rightarrow> (Console \<times> 'z pmm_state_scheme) outcome" where
  "frame_test [] st = Inr st"
| "frame_test (n # ns) (con, s) =
     and_then (alloc_frame s) (\<lambda>(r, s1).
     and_then (case r of
         Some p \<Rightarrow> con_writeln (bytes_of ''Frame'' @ dec_bytes (of_nat n) @ bytes_of '' '' @ fmt_hex p)
           (con, write_str nl (write_hex_u64 p (write_str ''mantracore: alloc_frame ok '' s1)))
       | None \<Rightarrow> con_writeln (bytes_of ''Frame'' @ dec_bytes (of_nat n) @ bytes_of '' FAIL'')
           (con, write_str (''mantracore: alloc_frame failed'' @ nl) s1)) (frame_test ns))"

text \<open>The \<open>Vec<u64>\<close> of the \<open>alloc\<close> crate: capacity 4 first, doubled when full; the default \<open>realloc\<close>
  of a global allocator allocates, copies and frees. A refused allocation is \<open>None\<close>.\<close>

record Vec =
  v_ptr :: u64
  v_cap :: u64
  v_len :: u64

definition vec_new :: Vec where
  "vec_new = \<lparr>v_ptr = 8, v_cap = 0, v_len = 0\<rparr>"

definition vec_grow :: "Vec \<Rightarrow> 'z heap_state_scheme \<Rightarrow> (Vec option \<times> 'z heap_state_scheme) outcome" where
  "vec_grow v s =
     (let cap' = max 4 (max (2 * v_cap v) (v_cap v + 1)) in
      and_then (kalloc (8 * cap', 8) s) (\<lambda>(r, s1). case r of
        None \<Rightarrow> Inr (None, s1)
      | Some p \<Rightarrow>
          let s2 = fold (\<lambda>i s. vwrite64 (p + 8 * of_nat i) (vread64 (v_ptr v + 8 * of_nat i) s) s) [0..<unat (v_cap v)] s1;
              s3 = (if v_cap v = 0 then s2 else kdealloc (v_ptr v) (8 * v_cap v, 8) s2) in
          Inr (Some (v\<lparr>v_ptr := p, v_cap := cap'\<rparr>), s3)))"

definition vec_push :: "u64 \<Rightarrow> Vec \<Rightarrow> 'z heap_state_scheme \<Rightarrow> (Vec option \<times> 'z heap_state_scheme) outcome" where
  "vec_push x v s =
     and_then (if v_len v = v_cap v then vec_grow v s else Inr (Some v, s)) (\<lambda>(r, s1). case r of
       None \<Rightarrow> Inr (None, s1)
     | Some v1 \<Rightarrow> Inr (Some (v1\<lparr>v_len := v_len v1 + 1\<rparr>), vwrite64 (v_ptr v1 + 8 * v_len v1) x s1))"

fun push_all ::
  "u64 list \<Rightarrow> Vec \<Rightarrow> 'z heap_state_scheme \<Rightarrow> (Vec option \<times> 'z heap_state_scheme) outcome" where
  "push_all [] v s = Inr (Some v, s)"
| "push_all (x # xs) v s = and_then (vec_push x v s) (\<lambda>(r, s1). case r of
     None \<Rightarrow> Inr (None, s1) | Some v1 \<Rightarrow> push_all xs v1 s1)"

text \<open>The allocation-error handler; it halts with interrupts off.\<close>

definition oom :: "'z machine_scheme \<Rightarrow> 'z machine_scheme" where
  "oom s = write_str (''OOM'' @ nl) s"

text \<open>\<open>False\<close> stands for having ended in that handler.\<close>

definition heap_smoke :: "'z heap_state_scheme \<Rightarrow> (bool \<times> 'z heap_state_scheme) outcome" where
  "heap_smoke s =
     and_then (push_all (map (\<lambda>i. of_nat i * 3) [0..<16]) vec_new s) (\<lambda>(r, s1). case r of
       None \<Rightarrow> Inr (False, oom s1)
     | Some v \<Rightarrow>
         and_then (kalloc (8, 8) s1) (\<lambda>(r, s2). case r of
           None \<Rightarrow> Inr (False, oom s2)
         | Some b \<Rightarrow>
             let s3 = vwrite64 b 0xdeadbeef s2;
                 s4 = write_str ''heap: vec_len='' s3;
                 s5 = write_dec_u64 (v_len v) s4;
                 s6 = write_str '' box='' s5;
                 s7 = write_hex_u64 (vread64 b s6) s6;
                 s8 = write_str nl s7 in
             Inr (True, kdealloc (v_ptr v) (8 * v_cap v, 8) (kdealloc b (8, 8) s8))))"

text \<open>The library target of the package, \<^verbatim>\<open>kernel/src/lib.rs\<close>, which the kernel image does not contain: it writes a letter to
  the text screen and stops.\<close>

definition kernel_main :: "memory \<Rightarrow> memory" where
  "kernel_main m = m(0xb8000 := 0x4d, 0xb8001 := 0x0f)"

section \<open>The entry point\<close>

text \<open>How the entry point ends: halted, or by resuming a user process with the given trap frame.\<close>

datatype kernel_end = Halted | EnteredUser u64

definition max_phys_of :: "BootInfo \<Rightarrow> u64" where
  "max_phys_of bi =
     (let max_phys = kernel_phys_end bi; fb_end = saturating_add (fb_base bi) (fb_size bi);
          max_phys = (if max_phys < fb_end then fb_end else max_phys) in
      saturating_add max_phys (512 * 1024 * 1024))"

definition memory_up ::
  "u8 list \<Rightarrow> u64 \<Rightarrow> PmmStats \<Rightarrow> Console \<times> user_state \<Rightarrow> (kernel_end \<times> Console \<times> user_state) outcome" where
  "memory_up INIT_ELF p stats st = (case st of (con, s) \<Rightarrow>
     let s = write_str (''mantracore: pmm initialized'' @ nl) s in
     and_then (con_writeln (bytes_of ''PMM usable='' @ dec_bytes (usable_bytes stats div (1024 * 1024))
         @ bytes_of ''MiB free='' @ dec_bytes (free_bytes stats div (1024 * 1024))
         @ bytes_of ''MiB ranges='' @ dec_bytes (of_nat (range_count stats))) (con, s)) (\<lambda>(con, s).
     and_then (frame_test [0..<3] (con, s)) (\<lambda>(con, s).
     let max_phys = max_phys_of (read_bootinfo p (mem s)) in
     and_then (arch_mod_init_paging max_phys s) (\<lambda>(_, s).
     let con = con\<lparr>con_fb := (con_fb con)\<lparr>f_base := phys_to_virt (fb_base (read_bootinfo p (mem s)))\<rparr>\<rparr> in
     and_then (heap_init s) (\<lambda>(_, s).
     and_then (kmap_smoke_test s) (\<lambda>(_, s).
     and_then (heap_smoke s) (\<lambda>(ok, s).
     if \<not> ok then Inr (Halted, con, s)
     else let bi = read_bootinfo p (mem s) in
       and_then (enter_first_user INIT_ELF (kernel_phys_base bi) (kernel_phys_end bi) max_phys s) (\<lambda>(tf, s).
       Inr (EnteredUser tf, con, s)))))))))"

definition draw_diagonal :: "Console \<Rightarrow> memory \<Rightarrow> memory outcome" where
  "draw_diagonal con m =
     for_each (\<lambda>i. put_pixel (con_fb con) (of_nat i) (of_nat i) \<lparr>c_r = 0x5a, c_g = 0xff, c_b = 0x86\<rparr>)
       [0..<unat (min (f_width (con_fb con)) (f_height (con_fb con)))] m"

definition idle ::
  "InterruptStackFrame \<Rightarrow> Console \<Rightarrow> arch_state \<times> user_state \<Rightarrow> (kernel_end \<times> arch_state \<times> user_state) outcome" where
  "idle int3_frame con st = (case arch_mod_enable_interrupts st of (c, s) \<Rightarrow>
     let s = breakpoint int3_frame s in
     and_then (draw_diagonal con (mem s)) (\<lambda>m. Inr (Halted, c, s\<lparr>mem := m\<rparr>)))"

text \<open>The part between the checks of the boot information and the frame allocator.\<close>

definition console_up ::
  "u64 \<Rightarrow> 'z machine_scheme \<Rightarrow> (Console \<times> 'z machine_scheme) outcome" where
  "console_up boot_info s =
     (let bi = read_bootinfo boot_info (mem s);
          regions = boot_regions bi (mem s);
          s = write_str ''mantracore: regions='' s;
          s = write_dec_u64 (of_nat (length regions)) s;
          s = write_str '' usable='' s;
          s = write_dec_u64 (count_usable regions) s;
          s = write_str nl s;
          fmt = format_of (fb_format bi);
          con = console_new (kernel_fb bi) in
      and_then (console_clear BG (con, mem s)) (\<lambda>(con, m).
      let s = s\<lparr>mem := m\<rparr>; con = set_colors FG BG con in
      and_then (banner boot_info (length regions) fmt (con, s)) (\<lambda>(con, s).
      Inr (con, write_str (''mantracore: framebuffer initialized'' @ nl) s))))"

definition kernel_start ::
  "statics \<Rightarrow> handlers \<Rightarrow> InterruptStackFrame \<Rightarrow> u8 list \<Rightarrow> u64 \<Rightarrow> arch_state \<times> user_state
    \<Rightarrow> (kernel_end \<times> arch_state \<times> user_state) outcome" where
  "kernel_start a h int3_frame INIT_ELF boot_info st = (case st of (c, s) \<Rightarrow>
     let s = write_str (''mantracore: entered kernel'' @ nl) (serial_init s);
         (c, s) = arch_mod_init a h (c\<lparr>int_enabled := False\<rparr>, s) in
     if boot_info = 0 then Inr (Halted, c, write_str (''mantracore: boot_info null'' @ nl) s)
     else let bi = read_bootinfo boot_info (mem s) in
     if bi_magic bi \<noteq> BOOTINFO_MAGIC \<or> bi_version bi \<noteq> BOOTINFO_VERSION
     then Inr (Halted, c, write_str (''mantracore: boot_info magic/version mismatch'' @ nl) s)
     else and_then (console_up boot_info s) (\<lambda>(con, s).
     and_then (pmm_init (boot_regions bi (mem s)) s) (\<lambda>(r, s). case r of
       Some stats \<Rightarrow>
         and_then (memory_up INIT_ELF boot_info stats (con, s)) (\<lambda>(e, con, s). Inr (e, c, s))
     | None \<Rightarrow>
         let s = write_str (''mantracore: pmm init failed'' @ nl) s in
         and_then (con_writeln (bytes_of ''PMM init failed'') (con, s)) (\<lambda>(con, s).
         idle int3_frame con (c, s)))))"

end
