(* ===== verification/Kmain_Props.thy ===== *)
theory Kmain_Props
  imports Kmain Kernel_Space
begin

text \<open>
  What the entry point establishes: it refuses bad boot information before touching memory, and every run
  that enters a user process starts the kernel in a state from which its invariant holds.
\<close>

section \<open>What the steps leave alone\<close>

text \<open>The state of the scheduler's clock and of the endpoints, which only system calls change.\<close>

definition ipc_same :: "user_state \<Rightarrow> user_state \<Rightarrow> bool" where
  "ipc_same s s' \<longleftrightarrow> ENDPOINTS s' = ENDPOINTS s \<and> NEXT_EP s' = NEXT_EP s \<and> TICKS s' = TICKS s"

lemma ipc_same_trans [trans]: "ipc_same s s1 \<Longrightarrow> ipc_same s1 s2 \<Longrightarrow> ipc_same s s2"
  by (simp add: ipc_same_def)

lemma ipc_same_boot: "ipc_same s s' \<Longrightarrow> boot_state s' = boot_state s"
  by (simp add: ipc_same_def boot_state_def)

named_theorems ipc_keep

lemma ipc_same_simps [ipc_keep]: "ipc_same s s" "ipc_same s (s'\<lparr>mem := m\<rparr>) = ipc_same s s'" "ipc_same s (s'\<lparr>PMM := pm\<rparr>) = ipc_same s s'"
  "ipc_same s (s'\<lparr>HEAP := h\<rparr>) = ipc_same s s'" "ipc_same s (s'\<lparr>cr3 := c\<rparr>) = ipc_same s s'"
  "ipc_same s (s'\<lparr>PML4_PHYS := c\<rparr>) = ipc_same s s'" "ipc_same s (s'\<lparr>KMAP_NEXT := c\<rparr>) = ipc_same s s'"
  "ipc_same s (s'\<lparr>serial_out := o'\<rparr>) = ipc_same s s'" "ipc_same s (s'\<lparr>port_writes := w\<rparr>) = ipc_same s s'"
  "ipc_same s (s'\<lparr>tss_rsp0 := r\<rparr>) = ipc_same s s'"
  by (simp_all add: ipc_same_def)

lemma ipc_same_write [ipc_keep]: "ipc_same s (write_str x s') = ipc_same s s'" "ipc_same s (write_dec_u64 n s') = ipc_same s s'"
  "ipc_same s (write_hex_u64 n s') = ipc_same s s'" "ipc_same s (vwrite64 va v s') = ipc_same s s'"
  "ipc_same s (zero_page p s') = ipc_same s s'" "ipc_same s (load_cr3 c s') = ipc_same s s'"
  "ipc_same s (kdealloc a l s') = ipc_same s s'" "ipc_same s (oom s') = ipc_same s s'" "ipc_same s (outb port b s') = ipc_same s s'"
  "ipc_same s (serial_init s') = ipc_same s s'" "ipc_same s (set_rsp0 r s') = ipc_same s s'"
  by (simp_all add: serial_eqs vwrite64_def zero_page_def load_cr3_def kdealloc_def oom_def outb_def serial_init_def
      set_rsp0_def ipc_keep)

lemma arch_init_ipc: "arch_init a h (c, s) = (c', s') \<Longrightarrow> ipc_same s s'"
  by (auto simp: arch_init_def gdt_init_def idt_setup_def Let_def pit_init_def pic_init_def io_wait_def ipc_keep
      split: prod.splits)

lemma writeln_ipc: "con_writeln bs (con, s) = Inr (con', s') \<Longrightarrow> ipc_same s s'"
  by (auto simp: con_writeln_def ipc_keep elim!: and_then_InrE)

lemma banner_ipc: "banner p n fmt (con, s) = Inr (con', s') \<Longrightarrow> ipc_same s s'"
  unfolding banner_def Let_def by (auto elim!: and_then_InrE dest!: writeln_ipc) (metis ipc_same_trans)

lemma pmm_init_ipc: "pmm_init rs s = Inr (r, s') \<Longrightarrow> ipc_same s s'"
  by (auto simp: pmm_init_def ipc_keep split: option.splits elim!: and_then_InrE)

lemma alloc_ipc: "alloc_pages n s = Inr (r, s') \<Longrightarrow> ipc_same s s'"
  by (auto simp: alloc_pages_def ipc_keep split: option.splits if_splits elim!: and_then_InrE)

lemma alloc_table_ipc: "paging_alloc_table s = Inr (t, s') \<Longrightarrow> ipc_same s s'"
  by (auto simp: paging_alloc_table_def alloc_table_msg_def ipc_keep elim!: and_then_InrE dest!: alloc_ipc)

lemma frame_test_ipc: "frame_test ns (con, s) = Inr (con', s') \<Longrightarrow> ipc_same s s'"
proof (induction ns arbitrary: con s)
  case (Cons n ns)
  from Cons(2) obtain r s1 con1 s2 where 1: "alloc_frame s = Inr (r, s1)" and
    2: "(case r of Some p \<Rightarrow> con_writeln (bytes_of ''Frame'' @ dec_bytes (of_nat n) @ bytes_of '' '' @ fmt_hex p)
           (con, write_str nl (write_hex_u64 p (write_str ''mantracore: alloc_frame ok '' s1)))
       | None \<Rightarrow> con_writeln (bytes_of ''Frame'' @ dec_bytes (of_nat n) @ bytes_of '' FAIL'')
           (con, write_str (''mantracore: alloc_frame failed'' @ nl) s1)) = Inr (con1, s2)" and
    3: "frame_test ns (con1, s2) = Inr (con', s')" by (auto elim!: and_then_InrE)
  have "ipc_same s s1" using alloc_ipc 1 by (simp add: alloc_frame_def)
  moreover have "ipc_same s1 s2" using 2 writeln_ipc by (fastforce simp: ipc_same_def serial_eqs split: option.splits)
  moreover have "ipc_same s2 s'" using Cons(1) 3 by blast
  ultimately show ?case using ipc_same_trans by blast
qed (simp add: ipc_keep)

lemma map_chunks_ipc: "map_chunks pdpt is s = Inr s' \<Longrightarrow> ipc_same s s'"
proof (induction "is" arbitrary: s)
  case (Cons i "is")
  from Cons(2) obtain pd s1 where "paging_alloc_table s = Inr (pd, s1)" and
    r: "map_chunks pdpt is (s1\<lparr>mem := fill_pd pd (of_nat i * GIB) (wr64 (mem s1) (pdpt + 8 * of_nat i) (pd OR (PTE_P OR PTE_RW)))\<rparr>) = Inr s'"
    by (auto simp: Let_def elim!: and_then_InrE)
  then have "ipc_same s s1" using alloc_table_ipc by blast
  with Cons(1) [OF r] show ?case by (simp add: ipc_same_def)
qed (simp add: ipc_keep)

lemma paging_ipc: "paging_init m s = Inr (u, s') \<Longrightarrow> ipc_same s s'"
proof -
  assume "paging_init m s = Inr (u, s')"
  then consider (small) x where "s' = write_str x s"
    | (up) root s1 pdpt s2 m2 n s3 where "paging_alloc_table s = Inr (root, s1)" "paging_alloc_table s1 = Inr (pdpt, s2)"
      "map_chunks pdpt [0..<n] (s2\<lparr>mem := m2\<rparr>) = Inr s3" "ipc_same s3 s'"
    unfolding paging_init_def Let_def by (auto simp: ipc_keep split: if_splits elim!: and_then_InrE)
  then show ?thesis
  proof cases
    case up
    from up(3) have "ipc_same (s2\<lparr>mem := m2\<rparr>) s3" by (rule map_chunks_ipc)
    with alloc_table_ipc [OF up(1)] alloc_table_ipc [OF up(2)] up(4) show ?thesis by (simp add: ipc_same_def)
  qed (simp add: ipc_keep)
qed

lemma heap_try_ipc: "heap_try n s = Inr (r, k, s') \<Longrightarrow> ipc_same s s'"
proof (induction n s rule: heap_try.induct)
  case (1 n s)
  then show ?case
    by (subst (asm) (2) heap_try.simps)
      (auto simp: ipc_keep split: if_splits option.splits elim!: and_then_InrE dest: alloc_ipc intro: ipc_same_trans)
qed

lemma heap_init_ipc: "heap_init s = Inr (u, s') \<Longrightarrow> ipc_same s s'"
proof -
  assume "heap_init s = Inr (u, s')"
  then obtain r k s1 where "heap_try 4096 s = Inr (r, k, s1)" "ipc_same s1 s'"
    unfolding heap_init_def Let_def by (auto simp: ipc_keep split: option.splits elim!: and_then_InrE)
  then show ?thesis using heap_try_ipc ipc_same_trans by blast
qed

lemma kget_ipc: "kget_or_alloc_table e s = Inr (t, s') \<Longrightarrow> ipc_same s s'"
  by (auto simp: kget_or_alloc_table_def Let_def ipc_keep split: if_splits elim!: and_then_InrE dest: alloc_table_ipc)

lemma kmap_alloc_ipc: "kmap_alloc_4k p s = Inr (v, s') \<Longrightarrow> ipc_same s s'"
  unfolding kmap_alloc_4k_def kmap_map_4k_def Let_def
  by (auto simp: ipc_keep split: if_splits elim!: and_then_InrE dest!: kget_ipc) (simp add: ipc_same_def)

lemma kmap_smoke_ipc: "kmap_smoke_test s = Inr (u, s') \<Longrightarrow> ipc_same s s'"
  unfolding kmap_smoke_test_def Let_def
  by (auto simp: ipc_keep alloc_frame_def split: option.splits elim!: and_then_InrE dest!: alloc_ipc kmap_alloc_ipc)
    (metis ipc_same_trans)

lemma kalloc_ipc: "kalloc l s = Inr (r, s') \<Longrightarrow> ipc_same s s'"
  by (auto simp: kalloc_def Let_def ipc_keep split: if_splits prod.splits elim!: and_then_InrE)

lemma fold_vwrite_ipc: "ipc_same s (fold (\<lambda>i t. vwrite64 (f i) (g i t) t) is s') = ipc_same s s'"
  by (induction "is" arbitrary: s') (simp_all add: ipc_keep)

lemma vec_grow_ipc: "vec_grow v s = Inr (r, s') \<Longrightarrow> ipc_same s s'"
  by (auto simp: vec_grow_def Let_def fold_vwrite_ipc ipc_keep split: option.splits if_splits elim!: and_then_InrE
      dest!: kalloc_ipc)

lemma vec_push_ipc: "vec_push x v s = Inr (r, s') \<Longrightarrow> ipc_same s s'"
  by (auto simp: vec_push_def ipc_keep split: option.splits if_splits elim!: and_then_InrE dest!: vec_grow_ipc)

lemma push_all_ipc: "push_all xs v s = Inr (r, s') \<Longrightarrow> ipc_same s s'"
proof (induction xs arbitrary: v s)
  case (Cons x xs)
  from Cons(2) obtain r1 s1 where 1: "vec_push x v s = Inr (r1, s1)" and
    2: "(case r1 of None \<Rightarrow> Inr (None, s1) | Some v1 \<Rightarrow> push_all xs v1 s1) = Inr (r, s')"
    by (auto elim!: and_then_InrE)
  have "ipc_same s1 s'" using 2 Cons(1) by (auto simp: ipc_keep split: option.splits)
  with vec_push_ipc [OF 1] show ?case by (rule ipc_same_trans)
qed (simp add: ipc_keep)

lemma heap_smoke_ipc: "heap_smoke s = Inr (ok, s') \<Longrightarrow> ipc_same s s'"
proof -
  assume "heap_smoke s = Inr (ok, s')"
  then obtain r s1 where 1: "push_all (map (\<lambda>i. of_nat i * 3) [0..<16]) vec_new s = Inr (r, s1)" and
    2: "(case r of None \<Rightarrow> Inr (False, oom s1) | Some v \<Rightarrow> and_then (kalloc (8, 8) s1) (\<lambda>(r, s2). case r of
           None \<Rightarrow> Inr (False, oom s2)
         | Some b \<Rightarrow> let s3 = vwrite64 b 0xdeadbeef s2; s4 = write_str ''heap: vec_len='' s3;
                 s5 = write_dec_u64 (v_len v) s4; s6 = write_str '' box='' s5;
                 s7 = write_hex_u64 (vread64 b s6) s6; s8 = write_str nl s7 in
             Inr (True, kdealloc (v_ptr v) (8 * v_cap v, 8) (kdealloc b (8, 8) s8)))) = Inr (ok, s')"
    by (auto simp: heap_smoke_def elim!: and_then_InrE)
  have "ipc_same s1 s'"
    using 2 by (auto simp: Let_def ipc_keep split: option.splits elim!: and_then_InrE dest!: kalloc_ipc)
  with push_all_ipc [OF 1] show ?thesis by (rule ipc_same_trans)
qed

section \<open>The entry point\<close>

lemma memory_up_reaches:
  assumes "memory_up elf p stats (con, s) = Inr (EnteredUser tf, con', s')" "boot_state s"
  shows "reach elf 0 s'"
proof -
  from assms(1) obtain con1 s1 con2 s2 u s3 u' s4 u'' s5 s6 kb ke m x1 where
    1: "con_writeln x1 (con, write_str (''mantracore: pmm initialized'' @ nl) s) = Inr (con1, s1)" and
    2: "frame_test [0..<3] (con1, s1) = Inr (con2, s2)" and 3: "paging_init m s2 = Inr (u, s3)" and
    4: "heap_init s3 = Inr (u', s4)" and 5: "kmap_smoke_test s4 = Inr (u'', s5)" and 6: "heap_smoke s5 = Inr (True, s6)" and
    7: "enter_first_user elf kb ke m s6 = Inr (tf, s')"
    unfolding memory_up_def Let_def by (auto split: if_splits elim!: and_then_InrE)
  have "ipc_same s s1" using writeln_ipc [OF 1] by (simp add: ipc_same_def serial_eqs)
  also have "ipc_same s1 s2" by (rule frame_test_ipc [OF 2])
  also have "ipc_same s2 s3" by (rule paging_ipc [OF 3])
  also have "ipc_same s3 s4" by (rule heap_init_ipc [OF 4])
  also have "ipc_same s4 s5" by (rule kmap_smoke_ipc [OF 5])
  also have "ipc_same s5 s6" by (rule heap_smoke_ipc [OF 6])
  finally have "boot_state s6" using assms(2) by (simp add: ipc_same_boot)
  from start [OF this 7] show ?thesis .
qed

text \<open>The state after the processor has been brought up, and the entry point from there on.\<close>

definition after_arch :: "statics \<Rightarrow> handlers \<Rightarrow> arch_state \<times> user_state \<Rightarrow> arch_state \<times> user_state" where
  "after_arch a h st = (case st of (c, s) \<Rightarrow>
     arch_init a h (c\<lparr>int_enabled := False\<rparr>, write_str (''mantracore: entered kernel'' @ nl) (serial_init s)))"

lemma after_arch_keeps:
  assumes "after_arch a h (c, s) = (c', s')"
  shows "mem s' = mem s" "PMM s' = PMM s" "cr3 s' = cr3 s" "HEAP s' = HEAP s" "KMAP_NEXT s' = KMAP_NEXT s" "\<not> int_enabled c'"
    "ipc_same s s'"
proof -
  show "mem s' = mem s" "PMM s' = PMM s" "cr3 s' = cr3 s" "HEAP s' = HEAP s" "KMAP_NEXT s' = KMAP_NEXT s" "\<not> int_enabled c'"
    using assms by (auto simp: after_arch_def serial_init_def serial_eqs arch_init_def gdt_init_def idt_setup_def Let_def pit_init_def
        pic_init_def io_wait_def outb_def set_rsp0_def lgdt_def lidt_def ltr_def load_seg_regs_def split: prod.splits)
  from assms have "arch_init a h (c\<lparr>int_enabled := False\<rparr>, write_str (''mantracore: entered kernel'' @ nl) (serial_init s)) = (c', s')"
    by (simp add: after_arch_def)
  from arch_init_ipc [OF this] show "ipc_same s s'" by (simp add: ipc_same_def serial_eqs serial_init_def)
qed

lemma kernel_start_refused:
  assumes "after_arch a h (c, s) = (c1, s1)" "p = 0 \<or> bi_magic (read_bootinfo p (mem s)) \<noteq> BOOTINFO_MAGIC
    \<or> bi_version (read_bootinfo p (mem s)) \<noteq> BOOTINFO_VERSION"
  shows "kernel_start a h fr elf p (c, s) = Inr (Halted, c1, write_str ((if p = 0 then ''mantracore: boot_info null''
         else ''mantracore: boot_info magic/version mismatch'') @ nl) s1)"
  using assms unfolding kernel_start_def after_arch_def by (auto simp: Let_def after_arch_keeps(1) [OF assms(1)])

lemma kernel_start_accepted:
  assumes "after_arch a h (c, s) = (c1, s1)" "p \<noteq> 0" "bi = read_bootinfo p (mem s)" "bi_magic bi = BOOTINFO_MAGIC"
    "bi_version bi = BOOTINFO_VERSION"
  shows "kernel_start a h fr elf p (c, s) = and_then (console_up p s1) (\<lambda>(con, s).
     and_then (pmm_init (boot_regions bi (mem s)) s) (\<lambda>(r, s). case r of
       Some stats \<Rightarrow> and_then (memory_up elf p stats (con, s)) (\<lambda>(e, con, s). Inr (e, c1, s))
     | None \<Rightarrow> let s = write_str (''mantracore: pmm init failed'' @ nl) s in
         and_then (con_writeln (bytes_of ''PMM init failed'') (con, s)) (\<lambda>(con, s). idle fr con (c1, s))))"
  using assms unfolding kernel_start_def after_arch_def by (simp add: Let_def after_arch_keeps(1) [OF assms(1)])

lemma console_up_ipc: "console_up p s = Inr (con, s') \<Longrightarrow> ipc_same s s'"
  unfolding console_up_def Let_def
  by (auto simp: ipc_keep elim!: and_then_InrE dest!: banner_ipc) (simp add: ipc_same_def serial_eqs)

lemma kernel_start_entered:
  assumes "kernel_start a h fr elf p (c, s) = Inr (EnteredUser tf, c', s')" "boot_state s"
  shows "reach elf 0 s'" "\<not> int_enabled c'"
proof -
  obtain c1 s1 where i: "after_arch a h (c, s) = (c1, s1)" by fastforce
  note k = after_arch_keeps [OF i]
  have ok: "p \<noteq> 0" "bi_magic (read_bootinfo p (mem s)) = BOOTINFO_MAGIC" "bi_version (read_bootinfo p (mem s)) = BOOTINFO_VERSION"
    using kernel_start_refused [OF i, of p fr elf] assms(1) by fastforce+
  from assms(1) [unfolded kernel_start_accepted [OF i ok(1) refl ok(2,3)]] obtain con s2 st s3 con' where
    1: "console_up p s1 = Inr (con, s2)" and
    2: "pmm_init (boot_regions (read_bootinfo p (mem s)) (mem s2)) s2 = Inr (Some st, s3)" and
    3: "memory_up elf p st (con, s3) = Inr (EnteredUser tf, con', s')" and c: "c' = c1"
    by (auto simp: idle_def Let_def split: option.splits prod.splits elim!: and_then_InrE)
  have "ipc_same s s3" using k(7) console_up_ipc [OF 1] pmm_init_ipc [OF 2] ipc_same_trans by blast
  then show "reach elf 0 s'" using memory_up_reaches [OF 3] assms(2) by (simp add: ipc_same_boot)
  show "\<not> int_enabled c'" using c k(6) by simp
qed

text \<open>C38: the kernel refuses boot information it cannot trust. If the pointer is null or the magic number or
  the version is wrong, the entry point halts with interrupts off; it has not written memory, has not
  set up an allocator and has not loaded a page table, and the last thing on the serial line is the
  reason.\<close>

theorem kernel_start_rejects:
  assumes "p = 0 \<or> bi_magic (read_bootinfo p (mem s)) \<noteq> BOOTINFO_MAGIC \<or> bi_version (read_bootinfo p (mem s)) \<noteq> BOOTINFO_VERSION"
  shows "\<exists>c' s' o'. kernel_start a h fr elf p (c, s) = Inr (Halted, c', s') \<and> \<not> int_enabled c' \<and> mem s' = mem s \<and> PMM s' = PMM s
    \<and> cr3 s' = cr3 s \<and> serial_out s' = o' @ bytes_of ((if p = 0 then ''mantracore: boot_info null''
         else ''mantracore: boot_info magic/version mismatch'') @ nl)"
proof -
  obtain c1 s1 where i: "after_arch a h (c, s) = (c1, s1)" by fastforce
  note k = after_arch_keeps [OF i]
  obtain msg where msg: "msg = (if p = 0 then ''mantracore: boot_info null''
      else ''mantracore: boot_info magic/version mismatch'') @ nl" by blast
  show ?thesis
    unfolding kernel_start_refused [OF i assms] msg [symmetric]
    using k by (intro exI [of _ c1] exI [of _ "write_str msg s1"] exI [of _ "serial_out s1"])
      (simp add: write_str_eq bytes_of_def)
qed

theorem kernel_start_rejects_witness:
  "\<forall>h fr. \<exists>c' s' o'. kernel_start demo_statics h fr [] 0x7000 (demo_arch, demo_start) = Inr (Halted, c', s')
    \<and> mem s' = mem demo_start \<and> serial_out s' = o' @ bytes_of (''mantracore: boot_info magic/version mismatch'' @ nl)"
proof -
  have "bi_magic (read_bootinfo 0x7000 (mem demo_start)) \<noteq> BOOTINFO_MAGIC"
    by (simp add: read_bootinfo_def demo_start_def demo_kernel_def wr64_def rd32_def BOOTINFO_MAGIC_def)
  then show ?thesis
    using kernel_start_rejects [of "0x7000" demo_start demo_statics _ _ "[]" demo_arch] by fastforce
qed

end
