(* ===== verification/Boot_Memory.thy ===== *)
theory Boot_Memory
  imports Kmain_Props
begin

text \<open>
  Memory while the kernel starts: the requests of the start-up code, in the order it makes them, are
  served as long as one free range has room for all of them, and all that is written lies in memory
  that was free when the frame allocator was set up. This is what keeps the boot information intact
  until it has been read for the last time.
\<close>

section \<open>Room in one range\<close>

text \<open>A request is served from the first range it fits, and ranges it does not fit are given up; a range with room for
  all requests to come is never given up.\<close>

definition room :: "nat \<Rightarrow> 'z pmm_state_scheme \<Rightarrow> bool" where
  "room n s \<longleftrightarrow> n = 0 \<or> (\<exists>p. PMM s = Some p \<and> (\<exists>r \<in> set (live p). unat (r_base r) + n * 4096 \<le> unat (r_end r)))"

lemma room_cong: "PMM s' = PMM s \<Longrightarrow> room n s' = room n s"
  by (simp add: room_def)

lemma room_mono: "room n s \<Longrightarrow> m \<le> n \<Longrightarrow> room m s"
  unfolding room_def by (elim disjE exE conjE bexE) force+

lemma room_frames: "room n s \<Longrightarrow> n \<le> frames s"
proof (cases "n = 0")
  case False
  assume "room n s"
  with False obtain p r where p: "PMM s = Some p" "r \<in> set (live p)" "unat (r_base r) + n * 4096 \<le> unat (r_end r)"
    by (auto simp: room_def)
  then have "n \<le> range_frames r" by (simp add: range_frames_def less_eq_div_iff_mult_less_eq)
  also have "\<dots> \<le> sum_list (map range_frames (live p))" using p(2) by (intro member_le_sum_list) auto
  finally show ?thesis by (simp add: frames_def p(1))
qed simp

lemma alloc_room:
  assumes "pmm_inv s" "room (unat k + n) s" "k \<noteq> 0"
  obtains a p where "alloc_pages k s = Inr (Some a, s\<lparr>PMM := Some p\<rparr>)" "room n (s\<lparr>PMM := Some p\<rparr>)"
proof -
  have k: "unat k \<noteq> 0" using assms(3) by (simp add: unat_eq_0)
  with assms(2) obtain p r where p: "PMM s = Some p" "r \<in> set (live p)" "unat (r_base r) + (unat k + n) * 4096 \<le> unat (r_end r)"
    unfolding room_def by auto
  have wf: "pmm_wf p" using assms(1) p(1) by (simp add: pmm_inv_def)
  have fr: "fits k r" using p(3) k by (simp add: fits_def word_less_nat_alt algebra_simps)
  then obtain skipped q rest where l: "live p = skipped @ q # rest" "fits k q" "\<forall>x \<in> set skipped. \<not> fits k x"
    using p(2) by (metis split_list_first_prop)
  from alloc_scan_grant [OF wf l(1,3,2)] obtain p' where a: "alloc_scan k p = Inr (Some (r_base q), p')"
    and l': "live p' = (if r_end q \<le> r_base (take_pages k q) then rest else take_pages k q # rest)" by blast
  have "r = q \<or> r \<in> set rest" using p(2) l fr by auto
  then have "room n (s\<lparr>PMM := Some p'\<rparr>)"
  proof
    assume "r = q"
    then show ?thesis using l' p(3) unat_take_pages [OF l(2)] by (auto simp: room_def word_le_nat_alt algebra_simps take_pages_def)
  next
    assume "r \<in> set rest"
    then show ?thesis using l' p(3) by (force simp: room_def algebra_simps)
  qed
  then show thesis using that p(1) a assms(3) by (simp add: alloc_pages_def)
qed

section \<open>Where the start-up code writes\<close>

text \<open>A step that takes \<open>k\<close> frames and writes only to the addresses \<open>F\<close>, which contain all free memory.\<close>

definition boot_ok :: "nat set \<Rightarrow> 'z pmm_state_scheme \<Rightarrow> bool" where
  "boot_ok F s \<longleftrightarrow> pmm_inv s \<and> pmm_free s \<subseteq> F \<and> F \<subseteq> {..<2 ^ 46}"

definition spends :: "nat set \<Rightarrow> nat \<Rightarrow> 'z pmm_state_scheme \<Rightarrow> 'z pmm_state_scheme \<Rightarrow> bool" where
  "spends F k s s' \<longleftrightarrow> boot_ok F s' \<and> pmm_free s' \<subseteq> pmm_free s \<and> (\<forall>n. room (k + n) s \<longrightarrow> room n s')
     \<and> (\<forall>x. unat x \<notin> F \<longrightarrow> mem s' x = mem s x)"

lemma spendsD:
  assumes "spends F k s s'"
  shows "boot_ok F s'" "room (k + n) s \<Longrightarrow> room n s'" "unat x \<notin> F \<Longrightarrow> mem s' x = mem s x"
    "pmm_free s' \<subseteq> pmm_free s"
  using assms by (auto simp: spends_def)

lemma spends_trans: "spends F j s s1 \<Longrightarrow> spends F k s1 s2 \<Longrightarrow> spends F (j + k) s s2"
  by (auto simp: spends_def add.assoc)

lemma spends_refl: "boot_ok F s \<Longrightarrow> spends F 0 s s"
  by (simp add: spends_def)

lemma spends_mem:
  assumes "spends F k s s1" "PMM s2 = PMM s1" "\<And>x. unat x \<notin> F \<Longrightarrow> mem s2 x = mem s1 x"
  shows "spends F k s s2"
  using assms by (simp add: spends_def room_cong [OF assms(2)] boot_ok_def pmm_inv_def pmm_free_def)

text \<open>A frame all of whose bytes may be written.\<close>

definition owned :: "nat set \<Rightarrow> u64 \<Rightarrow> bool" where
  "owned F t \<longleftrightarrow> frame_ok t \<and> (\<forall>a :: u64. unat a div 4096 * 4096 = unat t \<longrightarrow> unat a \<in> F)"

lemma owned_entry:
  assumes "owned F t" "i < 512" "unat x \<notin> F"
  shows "wr64 m (entry t i) v x = m x"
  using assms entry_span_frame [of t i x] by (intro wr64_outside) (auto simp: owned_def)

lemma owned_zero: "owned F t \<Longrightarrow> unat x \<notin> F \<Longrightarrow> zero_frame t m x = m x"
  using in_frame_iff [of t x] by (auto simp: owned_def zero_frame_def)

lemma owned_fill:
  assumes "owned F pd" "unat x \<notin> F"
  shows "fill_pd pd base m x = m x"
proof -
  have "fold (\<lambda>j m. wr64 m (pd + 8 * of_nat j) (g j)) [0..<n] m x = m x" if "n \<le> 512" for n g
    using that
  proof (induction n)
    case (Suc n)
    then show ?case using owned_entry [OF assms(1) of_nat_512(1) assms(2), of n] by (simp add: entry_def)
  qed simp
  then show ?thesis unfolding fill_pd_def by simp
qed

section \<open>Page tables\<close>

lemma boot_okD: "boot_ok F s \<Longrightarrow> pmm_inv s" "boot_ok F s \<Longrightarrow> pmm_free s \<subseteq> F" "boot_ok F s \<Longrightarrow> mem_ok s"
  by (fastforce simp: boot_ok_def mem_ok_def)+

lemma alloc_spends:
  assumes "boot_ok F s" "alloc_pages k s = Inr (Some a, s')" "k \<noteq> 0"
  shows "spends F (unat k) s s'" "block a k \<subseteq> F" "4096 dvd unat a"
proof -
  note b = boot_okD [OF assms(1)]
  note g = pmm.alloc_grant [OF b(1) assms(2)]
  show "block a k \<subseteq> F" "4096 dvd unat a" using g b(2) by blast+
  have "room n s'" if "room (unat k + n) s" for n
    using alloc_room [OF b(1) that assms(3)] assms(2) by fastforce
  moreover have "mem s' = mem s"
    using assms(2) by (auto simp: alloc_pages_def split: option.splits if_splits elim!: and_then_InrE)
  ultimately show "spends F (unat k) s s'"
    using pmm.alloc_inv [OF b(1) assms(2)] g assms(1) by (auto simp: spends_def boot_ok_def)
qed

lemma frame_owned:
  assumes "F \<subseteq> {..<2 ^ 46}" "block t 1 \<subseteq> F" "4096 dvd unat t"
  shows "owned F t"
proof -
  have "unat t \<in> F" using assms(2) by (auto simp: block_def)
  then have "unat t < 2 ^ 46" using assms(1) by auto
  moreover have "unat a \<in> block t 1" if "unat a div 4096 * 4096 = unat t" for a :: u64
    using that div_mult_mod_eq [of "unat a" 4096] mod_less_divisor [of 4096 "unat a"] by (simp add: block_def)
  ultimately show ?thesis using assms by (auto simp: owned_def frame_ok_def)
qed

lemma page_spends:
  assumes "boot_ok F s" "alloc_pages 1 s = Inr (Some t, s')"
  shows "spends F 1 s s'" "owned F t"
  using alloc_spends [OF assms] frame_owned assms(1) by (simp_all add: boot_ok_def)

lemma table_spends:
  assumes "boot_ok F s" "paging_alloc_table s = Inr (t, s')"
  shows "spends F 1 s s'" "owned F t"
proof -
  from assms(2) obtain s1 where a: "alloc_pages 1 s = Inr (Some t, s1)" and s': "s' = zero_page t s1"
    by (auto simp: paging_alloc_table_def alloc_table_msg_def elim!: and_then_InrE)
  note sp = page_spends [OF assms(1) a]
  show o: "owned F t" by (rule sp(2))
  from sp(1) show "spends F 1 s s'" by (rule spends_mem) (simp_all add: s' zero_page_def owned_zero [OF o])
qed

lemma map_chunks_spends:
  assumes "boot_ok F s" "owned F pdpt" "\<forall>i \<in> set is. i < 512" "map_chunks pdpt is s = Inr s'"
  shows "spends F (length is) s s'"
  using assms
proof (induction "is" arbitrary: s)
  case Nil
  then show ?case by (simp add: spends_refl)
next
  case (Cons i "is")
  define g where "g pd m = fill_pd pd (of_nat i * GIB) (wr64 m (pdpt + 8 * of_nat i) (pd OR (PTE_P OR PTE_RW)))" for pd m
  from Cons.prems(4) obtain pd s1 where 1: "paging_alloc_table s = Inr (pd, s1)"
    and 2: "map_chunks pdpt is (s1\<lparr>mem := g pd (mem s1)\<rparr>) = Inr s'"
    by (auto simp: Let_def g_def elim!: and_then_InrE)
  note t = table_spends [OF Cons.prems(1) 1]
  have "spends F 1 s (s1\<lparr>mem := g pd (mem s1)\<rparr>)"
    by (rule spends_mem [OF t(1)])
      (use owned_entry [OF Cons.prems(2) of_nat_512(1), of i] Cons.prems(3) in \<open>simp_all add: g_def owned_fill [OF t(2)] entry_def\<close>)
  moreover from this have "spends F (length is) (s1\<lparr>mem := g pd (mem s1)\<rparr>) s'"
    using Cons.IH [OF spendsD(1) Cons.prems(2) _ 2] Cons.prems(3) by simp
  ultimately have "spends F (1 + length is) s s'" by (rule spends_trans)
  then show ?case by simp
qed

lemma paging_spends:
  fixes s :: "'z heap_state_scheme"
  assumes "boot_ok F s" "unat m + 2 ^ 32 \<le> 2 ^ 64" "paging_init m s = Inr (u, s')"
  shows "spends F (2 + gib_chunks m) s s'" "owned F (cr3 s')"
proof -
  from pdpt_entries_total [OF assms(2)] obtain e where e: "pdpt_entries_for m = Inr (e, gib_chunks m)" ..
  define v where "v pdpt = (pdpt OR (PTE_P OR PTE_RW) :: u64)" for pdpt
  from assms(3) e gib_chunks_pos [of m] obtain root s1 pdpt s2 s3 where
    1: "paging_alloc_table s = Inr (root, s1)" and 2: "paging_alloc_table s1 = Inr (pdpt, s2)" and
    3: "map_chunks pdpt [0..<gib_chunks m] (s2\<lparr>mem := wr64 (wr64 (mem s2) (entry root 0) (v pdpt)) (entry root 256) (v pdpt)\<rparr>) = Inr s3" and
    4: "PMM s' = PMM s3" "mem s' = mem s3" "cr3 s' = root"
    by (auto simp: paging_init_def Let_def load_cr3_def serial_eqs v_def entry_def elim!: and_then_InrE)
  note a = table_spends [OF assms(1) 1]
  note b = table_spends [OF spendsD(1) [OF a(1)] 2]
  let ?t = "s2\<lparr>mem := wr64 (wr64 (mem s2) (entry root 0) (v pdpt)) (entry root 256) (v pdpt)\<rparr>"
  have "spends F (1 + 1) s s2" by (rule spends_trans [OF a(1) b(1)])
  then have t: "spends F (1 + 1) s ?t" by (rule spends_mem) (simp_all add: owned_entry [OF a(2)])
  have "gib_chunks m \<le> 512" by (simp add: gib_chunks_def)
  then have "spends F (length [0..<gib_chunks m]) ?t s3"
    by (intro map_chunks_spends [OF spendsD(1) [OF t] b(2) _ 3]) auto
  from spends_trans [OF t this] have "spends F (2 + gib_chunks m) s s3" by simp
  then show "spends F (2 + gib_chunks m) s s'" by (rule spends_mem) (simp_all add: 4)
  show "owned F (cr3 s')" using a(2) by (simp add: 4)
qed

lemma paging_up:
  fixes s :: "'z heap_state_scheme"
  assumes "boot_ok F s" "0 \<notin> pmm_free s" "unat m + 2 ^ 32 \<le> 2 ^ 64" "room (2 + gib_chunks m) s"
  obtains s' where "paging_init m s = Inr ((), s')" "spends F (2 + gib_chunks m) s s'" "tables_up (cr3 s') (gib_chunks m) s'"
    "PML4_PHYS s' = cr3 s'" "cr3 s' \<noteq> 0" "owned F (cr3 s')" "KMAP_NEXT s' = KMAP_NEXT s"
proof -
  from paging_init_keeps [OF boot_okD(1) [OF assms(1)] assms(3) room_frames [OF assms(4)]] obtain s' where
    i: "paging_init m s = Inr ((), s')" by blast
  from pdpt_entries_total [OF assms(3)] obtain e where e: "pdpt_entries_for m = Inr (e, gib_chunks m)" ..
  note post = paging_init_post [OF boot_okD(3) [OF assms(1)] e gib_chunks_pos i]
  have "cr3 s' \<noteq> 0" using post(3) assms(2) by auto
  with that i paging_spends [OF assms(1,3) i] post(1,2) paging_init_next [OF i] show thesis by blast
qed

section \<open>The heap and the trial mapping\<close>

text \<open>Bytes left in the heap.\<close>

definition hroom :: "nat \<Rightarrow> 'z heap_state_scheme \<Rightarrow> bool" where
  "hroom n s \<longleftrightarrow> heap_inv s \<and> h_ready (HEAP s) \<and> unat (h_next (HEAP s)) + n \<le> unat (h_end (HEAP s))"

text \<open>\<open>H\<close> is a set of addresses of the direct map whose frames lie in \<open>F\<close>.\<close>

definition in_heap :: "nat set \<Rightarrow> nat set \<Rightarrow> bool" where
  "in_heap F H \<longleftrightarrow> H \<subseteq> {..<2 ^ 64} \<and> (\<forall>a :: u64. unat a \<in> H \<longrightarrow> unat (a - HHDM_BASE) \<in> F)"

lemma heap_spends:
  fixes s :: "'z heap_state_scheme"
  assumes "boot_ok F s" "room 4096 s"
  obtains p pm o' s' where "alloc_pages 4096 s = Inr (Some p, s\<lparr>PMM := Some pm\<rparr>)" "heap_init s = Inr ((), s')" "spends F 4096 s s'"
    "s' = s\<lparr>PMM := Some pm, HEAP := \<lparr>h_start = phys_to_virt p, h_end = phys_to_virt p + 0x1000000,
      h_next = phys_to_virt p, h_ready = True\<rparr>, serial_out := o'\<rparr>" "hroom 0x1000000 s'" "in_heap F (heap_free s')"
proof -
  have "room (unat (4096 :: u64) + 0) s" "(4096 :: u64) \<noteq> 0" using assms(2) by simp_all
  from alloc_room [OF boot_okD(1) [OF assms(1)] this] obtain p pm where
    a: "alloc_pages 4096 s = Inr (Some p, s\<lparr>PMM := Some pm\<rparr>)" by blast
  note sp = alloc_spends [OF assms(1) a]
  have b: "block p 4096 \<subseteq> F" using sp(2) by simp
  then have "block p 4096 \<subseteq> {..<2 ^ 46}" using assms(1) by (auto simp: boot_ok_def)
  from block_top [OF this] have top: "unat p + 0x1000000 \<le> 2 ^ 46" by simp
  from heap_init_granted [OF a this] obtain o' s' where
    h: "heap_init s = Inr ((), s')" "s' = s\<lparr>PMM := Some pm\<rparr>\<lparr>HEAP := \<lparr>h_start = phys_to_virt p, h_end = phys_to_virt p + 0x1000000,
      h_next = phys_to_virt p, h_ready = True\<rparr>, serial_out := o'\<rparr>" "heap_inv s'"
    "unat (h_end (HEAP s')) = unat (h_next (HEAP s')) + 0x1000000" .
  have "spends F 4096 s (s\<lparr>PMM := Some pm\<rparr>)" using sp(1) by simp
  then have "spends F 4096 s s'" by (rule spends_mem) (simp_all add: h(2))
  moreover have "hroom 0x1000000 s'" using h(2-4) by (simp add: hroom_def)
  moreover have "unat (phys_to_virt p) = 0xffff800000000000 + unat p" using top by (intro unat_phys_to_virt) simp
  then have "heap_free s' = {0xffff800000000000 + unat p..<0xffff800000000000 + unat p + 0x1000000}"
    using h(2,4) by (simp add: heap_free_def)
  then have "in_heap F (heap_free s')"
    using top by (auto simp: in_heap_def HHDM_BASE_def unat_sub word_le_nat_alt block_def intro!: subsetD [OF b])
  ultimately show thesis using that a h(1,2) by simp
qed

text \<open>Handing out more frames does not disturb tables in use.\<close>

lemma tables_up_shrink:
  assumes "tables_up root n s" "mem_ok s'" "mem s' = mem s" "\<And>f. used f s \<Longrightarrow> used f s'"
  shows "tables_up root n s'"
  using assms unfolding tables_up_def chunks_at_def by metis

lemma alloc_used:
  assumes "boot_ok F s" "alloc_pages k s = Inr (Some a, s')" "used f s"
  shows "used f s'"
  using assms pmm.alloc_free_subset [OF boot_okD(1) [OF assms(1)] assms(2)] by (auto simp: used_def)

lemma kget_fresh:
  assumes "boot_ok F s" "owned F t" "used t s" "i < 512" "te (mem s) t i = 0"
    "kget_or_alloc_table (table_entry_mut t i) s = Inr (c, s')"
  shows "spends F 1 s s'" "owned F c" "used c s'" "k < 512 \<Longrightarrow> te (mem s') c k = 0"
proof -
  from assms(5,6) obtain s1 where a: "paging_alloc_table s = Inr (c, s1)"
    and s': "s' = s1\<lparr>mem := wr64 (mem s1) (entry t i) (c OR (PTE_P OR PTE_RW))\<rparr>"
    by (auto simp: kget_or_alloc_table_def vread_entry vwrite_entry Let_def elim!: and_then_InrE)
  note sp = table_spends [OF assms(1) a]
  note p = alloc_table_post [OF boot_okD(3) [OF assms(1)] a [unfolded paging_alloc_table_def]]
  note z = te_alloc [OF boot_okD(3) [OF assms(1)] a [unfolded paging_alloc_table_def]]
  show "spends F 1 s s'" by (rule spends_mem [OF sp(1)]) (simp_all add: s' owned_entry [OF assms(2,4)])
  show "owned F c" by (rule sp(2))
  show "used c s'" using p(3) mem_ok_cong(2) [of s' s1] by (simp add: s')
  have "frame_ok t" "frame_ok c" "t \<noteq> c" using assms(3) p(3) p(5) [of t] by auto
  then show "k < 512 \<Longrightarrow> te (mem s') c k = 0" using te_wr64 [of t i c k] assms(4) z(1) by (simp add: s')
qed

lemma kmap_first_spends:
  fixes s :: "'z paging_state_scheme"
  assumes "boot_ok F s" "owned F (PML4_PHYS s)" "used (PML4_PHYS s) s" "PML4_PHYS s \<noteq> 0"
    "te (mem s) (PML4_PHYS s) KMAP_PML4_INDEX = 0" "kmap_alloc_4k p s = Inr (v, s')"
  shows "spends F 3 s s'"
proof -
  define s0 where "s0 = s\<lparr>KMAP_NEXT := KMAP_NEXT s + PAGE_SIZE\<rparr>"
  define w where "w = align_down (KMAP_NEXT s) PAGE_SIZE"
  have s0: "PMM s0 = PMM s" "mem s0 = mem s" "PML4_PHYS s0 = PML4_PHYS s" by (simp_all add: s0_def)
  have b0: "boot_ok F s0" using assms(1) by (simp add: boot_ok_def pmm_inv_def pmm_free_def s0)
  have u0: "used (PML4_PHYS s) s0" using assms(3) mem_ok_cong(2) [of s0 s] s0 by simp
  from assms(4,6) obtain pdpt s1 pd s2 pt s3 x where
    1: "kget_or_alloc_table (table_entry_mut (PML4_PHYS s) KMAP_PML4_INDEX) s0 = Inr (pdpt, s1)" and
    2: "kget_or_alloc_table (table_entry_mut pdpt (pt_index 30 w)) s1 = Inr (pd, s2)" and
    3: "kget_or_alloc_table (table_entry_mut pd (pt_index 21 w)) s2 = Inr (pt, s3)" and
    s': "s' = s3\<lparr>mem := wr64 (mem s3) (entry pt (pt_index 12 w)) x\<rparr>"
    by (auto simp: kmap_alloc_4k_def kmap_map_4k_def Let_def s0_def w_def vwrite_entry elim!: and_then_InrE)
  have "te (mem s0) (PML4_PHYS s) KMAP_PML4_INDEX = 0" using assms(5) s0 by simp
  note a = kget_fresh [OF b0 assms(2) u0 _ this 1, simplified]
  note b = kget_fresh [OF spendsD(1) [OF a(1)] a(2,3) pt_index_bound a(4) [OF pt_index_bound] 2]
  note c = kget_fresh [OF spendsD(1) [OF b(1)] b(2,3) pt_index_bound b(4) [OF pt_index_bound] 3]
  have "spends F (0 + 1 + 1 + 1) s s3"
    by (rule spends_trans [OF spends_trans [OF spends_trans [OF spends_mem [OF spends_refl [OF assms(1)]]]]])
      (use a(1) b(1) c(1) s0 in simp_all)
  then have "spends F 3 s s3" by (simp add: numeral_3_eq_3)
  then show ?thesis by (rule spends_mem) (simp_all add: s' owned_entry [OF c(2)])
qed

lemma kmap_smoke_spends:
  fixes s :: "'z heap_state_scheme"
  assumes "boot_ok F s" "tables_up (cr3 s) n s" "PML4_PHYS s = cr3 s" "cr3 s \<noteq> 0" "owned F (cr3 s)"
    "KMAP_NEXT s = KMAP_BASE" "room 4 s"
  obtains s' where "kmap_smoke_test s = Inr ((), s')" "spends F 4 s s'" "HEAP s' = HEAP s"
proof -
  have "room (unat (1 :: u64) + 3) s" "(1 :: u64) \<noteq> 0" using assms(7) by simp_all
  from alloc_room [OF boot_okD(1) [OF assms(1)] this] obtain p pm where
    a: "alloc_pages 1 s = Inr (Some p, s\<lparr>PMM := Some pm\<rparr>)" and rm: "room 3 (s\<lparr>PMM := Some pm\<rparr>)" by blast
  define s1 where "s1 = s\<lparr>PMM := Some pm\<rparr>"
  note a = a [folded s1_def] and rm = rm [folded s1_def]
  have e1: "mem s1 = mem s" "PML4_PHYS s1 = cr3 s" "cr3 s1 = cr3 s" "KMAP_NEXT s1 = KMAP_BASE" "HEAP s1 = HEAP s"
    using assms(3,6) by (simp_all add: s1_def)
  note sp = page_spends [OF assms(1) a]
  note b1 = spendsD(1) [OF sp(1)]
  have t1: "tables_up (cr3 s) n s1"
    by (rule tables_up_shrink [OF assms(2) boot_okD(3) [OF b1] e1(1) alloc_used [OF assms(1) a]])
  have fp: "frame_ok p" using sp(2) by (simp add: owned_def)
  from kmap_alloc_keeps [OF boot_okD(1) [OF b1] room_frames [OF rm], of p] obtain v s2 where
    k: "kmap_alloc_4k p s1 = Inr (v, s2)" "keeps s1 s2 3" .
  have "spends F 3 s1 s2"
    by (rule kmap_first_spends [OF b1 _ _ _ _ k(1)]) (use t1 e1 assms(4,5) in \<open>auto simp: tables_up_def\<close>)
  then have sp2: "spends F 4 s s2" using spends_trans [OF sp(1)] by fastforce
  have kn: "KMAP_NEXT s1 = kmap_page 0" "(0 :: nat) < 2 ^ 27" "PML4_PHYS s1 \<noteq> 0"
    using e1(2,4) assms(4) by (simp_all add: kmap_page_def)
  have ks: "kspace (PML4_PHYS s1) n Map.empty s1" using kspace_start [OF t1] e1(2) by simp
  note st = kmap_alloc_step [OF ks kn(3,1,2) fp k(1)]
  have w: "mmu_walk (mem s2) (cr3 s2) v = Some p" using kspace_walk(1) [OF st(2), of 0 p] st(1,4) e1(2,3) by simp
  obtain o' where s': "kmap_smoke_test s = Inr ((), s2\<lparr>mem := wr64 (mem s2) p 0x1122334455667788, serial_out := o'\<rparr>)"
    using a k(1) w by (auto simp: kmap_smoke_test_def alloc_frame_def Let_def serial_eqs)
  show thesis
  proof (rule that [OF s'])
    show "HEAP (s2\<lparr>mem := wr64 (mem s2) p 0x1122334455667788, serial_out := o'\<rparr>) = HEAP s"
      using k(2) e1(5) by (simp add: keeps_def)
    show "spends F 4 s (s2\<lparr>mem := wr64 (mem s2) p 0x1122334455667788, serial_out := o'\<rparr>)"
      by (rule spends_mem [OF sp2]) (use owned_entry [OF sp(2), of 0] in \<open>simp_all add: entry_def\<close>)
  qed
qed

end
