(* ===== verification/Boot_Heap.thy ===== *)
theory Boot_Heap
  imports Boot_Memory
begin

text \<open>
  The trial of the heap at the end of the start-up: with a heap of some kilobytes the vector of sixteen
  elements and the box are allocated, and nothing but the heap's own memory is written.
\<close>

section \<open>Bytes left in the heap\<close>

text \<open>A step that takes \<open>k\<close> bytes of the heap, no frame, and writes only to \<open>F\<close>.\<close>

definition hstep :: "nat set \<Rightarrow> nat \<Rightarrow> 'z heap_state_scheme \<Rightarrow> 'z heap_state_scheme \<Rightarrow> bool" where
  "hstep F k s s' \<longleftrightarrow> PMM s' = PMM s \<and> (\<forall>x. unat x \<notin> F \<longrightarrow> mem s' x = mem s x) \<and> heap_free s' \<subseteq> heap_free s
     \<and> (\<forall>n. hroom (k + n) s \<longrightarrow> hroom n s')"

lemma hstep_refl [simp]: "hstep F 0 s s"
  by (simp add: hstep_def)

lemma hstep_trans: "hstep F j s s1 \<Longrightarrow> hstep F k s1 s2 \<Longrightarrow> hstep F (j + k) s s2"
  by (auto simp: hstep_def add.assoc)

lemma hroom_mono: "hroom n s \<Longrightarrow> m \<le> n \<Longrightarrow> hroom m s"
  by (simp add: hroom_def)

lemma hstep_mono: "hstep F j s s' \<Longrightarrow> j \<le> k \<Longrightarrow> hstep F k s s'"
  by (simp add: hstep_def) (meson add_le_mono1 hroom_mono)

lemma hstepD:
  assumes "hstep F k s s'"
  shows "PMM s' = PMM s" "heap_free s' \<subseteq> heap_free s" "hroom (k + n) s \<Longrightarrow> hroom n s'" "unat x \<notin> F \<Longrightarrow> mem s' x = mem s x"
  using assms by (auto simp: hstep_def)

lemma hstep_mem:
  assumes "hstep F k s s1" "PMM s2 = PMM s1" "HEAP s2 = HEAP s1" "\<And>x. unat x \<notin> F \<Longrightarrow> mem s2 x = mem s1 x"
  shows "hstep F k s s2"
proof -
  have "heap_free s2 = heap_free s1" "hroom n s2 = hroom n s1" for n
    using assms(3) by (simp_all add: heap_free_def hroom_def heap_inv_def)
  with assms(1,2,4) show ?thesis by (simp add: hstep_def)
qed

lemma kalloc_room:
  fixes s :: "'z heap_state_scheme"
  assumes "hroom (unat n + 7) s"
  obtains p s' where "kalloc (n, 8) s = Inr (Some p, s')" "hstep F (unat n + 7) s s'" "bytes p n \<subseteq> heap_free s"
proof -
  have inv: "heap_inv s" and l: "layout_ok (n, 8)" using assms by (auto simp: hroom_def layout_ok_def intro: exI [of _ 3])
  show thesis
  proof (cases rule: kalloc_cases [OF inv l])
    case grant: (3 start e)
    from grant(3-7) have "hstep F (unat n + 7) s (s\<lparr>HEAP := (HEAP s)\<lparr>h_next := e\<rparr>\<rparr>)"
      by (auto simp: hstep_def hroom_def heap_free_def heap_inv_def word_le_nat_alt)
    moreover have "bytes start n \<subseteq> heap_free s" using grant by (auto simp: bytes_def heap_free_def)
    ultimately show thesis using that grant(2) by blast
  qed (use assms in \<open>auto simp: hroom_def\<close>)
qed

section \<open>Writes into the heap\<close>

lemma vwrite_in_heap:
  assumes "in_heap F H" "bytes va 8 \<subseteq> H" "unat x \<notin> F"
  shows "mem (vwrite64 va v s) x = mem s x"
proof -
  have "x \<notin> span8 (va - HHDM_BASE)"
  proof
    assume "x \<in> span8 (va - HHDM_BASE)"
    then obtain k where k: "x = (va + k) - HHDM_BASE" "k \<in> {0, 1, 2, 3, 4, 5, 6, 7}"
      unfolding span8_def by (auto simp: algebra_simps)
    then have "unat k < 8" by auto
    then have i: "unat va + unat k \<in> H" using assms(2) by (auto simp: bytes_def)
    then have "unat va + unat k < 2 ^ 64" using assms(1) by (auto simp: in_heap_def)
    then have "unat (va + k) \<in> H" using i by (simp add: unat_add_no_wrap)
    then show False using assms(1,3) k(1) by (simp add: in_heap_def)
  qed
  then show ?thesis by (simp add: vwrite64_def wr64_outside)
qed

text \<open>The words of a block.\<close>

lemma word_in_block:
  assumes "in_heap F H" "bytes p (8 * c) \<subseteq> H" "unat (8 * c) = 8 * unat c" "unat i < unat c"
  shows "bytes (p + 8 * i) 8 \<subseteq> H"
proof -
  have "unat p + 8 * unat c - 1 \<in> bytes p (8 * c)" using assms(3,4) by (auto simp: bytes_def)
  then have t: "unat p + 8 * unat c \<le> 2 ^ 64" using assms(1,2) by (fastforce simp: in_heap_def)
  then have "unat (8 * i) = 8 * unat i" using assms(4) by (subst unat_mul_no_wrap) simp_all
  then have "unat (p + 8 * i) = unat p + 8 * unat i" using t assms(4) by (subst unat_add_no_wrap) simp_all
  then have "bytes (p + 8 * i) 8 \<subseteq> bytes p (8 * c)" using assms(3,4) by (auto simp: bytes_def)
  with assms(2) show ?thesis by blast
qed

lemma fold_vwrite_heap:
  assumes "in_heap F H" "\<And>i. i \<in> set is \<Longrightarrow> bytes (f i) 8 \<subseteq> H"
  shows "unat x \<notin> F \<Longrightarrow> mem (fold (\<lambda>i t. vwrite64 (f i) (g i t) t) is s) x = mem s x"
    "PMM (fold (\<lambda>i t. vwrite64 (f i) (g i t) t) is s) = PMM (s :: 'z heap_state_scheme)"
    "HEAP (fold (\<lambda>i t. vwrite64 (f i) (g i t) t) is s) = HEAP s"
  using assms(2)
proof (induction "is" arbitrary: s)
  case (Cons i "is")
  { case 1 then show ?case using Cons(1) vwrite_in_heap [OF assms(1), of "f i"] by simp }
  { case 2 then show ?case using Cons(2) by (simp add: vwrite64_def) }
  { case 3 then show ?case using Cons(3) by (simp add: vwrite64_def) }
qed simp_all

section \<open>The vector\<close>

definition vec_ok :: "nat set \<Rightarrow> Vec \<Rightarrow> bool" where
  "vec_ok H v \<longleftrightarrow> v_len v \<le> v_cap v \<and> v_cap v \<in> {0, 4, 8, 16} \<and> bytes (v_ptr v) (8 * v_cap v) \<subseteq> H"

lemma vec_capD:
  assumes "vec_ok H v"
  shows "unat (8 * v_cap v) = 8 * unat (v_cap v)" "unat (v_cap v) \<le> 16" "unat (v_len v) \<le> unat (v_cap v)"
    "unat (v_len v) < 16 \<Longrightarrow> v_len v = v_cap v \<Longrightarrow> v_cap v \<in> {0, 4, 8}"
  using assms by (auto simp: vec_ok_def word_le_nat_alt)

lemma vec_grow_room:
  fixes s :: "'z heap_state_scheme"
  assumes "vec_ok H v" "v_cap v \<in> {0, 4, 8}" "in_heap F H" "heap_free s \<subseteq> H" "hroom 135 s"
  obtains v' s' where "vec_grow v s = Inr (Some v', s')" "hstep F 135 s s'" "vec_ok H v'" "v_len v' = v_len v" "v_len v' < v_cap v'"
proof -
  define c where "c = max 4 (max (2 * v_cap v) (v_cap v + 1))"
  have c: "c \<in> {4, 8, 16}" "v_cap v < c" "unat (v_cap v) < unat c"
    using assms(2) by (auto simp: c_def max_def word_le_nat_alt word_less_nat_alt)
  then have u: "unat (8 * c) = 8 * unat c" "unat c \<le> 16" by auto
  have "hroom (unat (8 * c) + 7) s" using assms(5) u by (auto intro: hroom_mono)
  from kalloc_room [OF this, of F] obtain p s1 where
    k: "kalloc (8 * c, 8) s = Inr (Some p, s1)" "hstep F (unat (8 * c) + 7) s s1" "bytes p (8 * c) \<subseteq> heap_free s" .
  define s2 where "s2 = fold (\<lambda>i s. vwrite64 (p + 8 * of_nat i) (vread64 (v_ptr v + 8 * of_nat i) s) s) [0..<unat (v_cap v)] s1"
  have pH: "bytes p (8 * c) \<subseteq> H" using k(3) assms(4) by blast
  have "bytes (p + 8 * of_nat i) 8 \<subseteq> H" if "i \<in> set [0..<unat (v_cap v)]" for i
    using that c(3) u by (intro word_in_block [OF assms(3) pH]) (simp_all add: unat_of_nat)
  note w = fold_vwrite_heap [of F H "[0..<unat (v_cap v)]" "\<lambda>i. p + 8 * of_nat i", OF assms(3) this]
  have "hstep F (unat (8 * c) + 7) s s2" unfolding s2_def by (rule hstep_mem [OF k(2)]) (rule w; assumption?)+
  then have "hstep F 135 s s2" by (rule hstep_mono) (use u in simp)
  moreover have "vec_grow v s = Inr (Some (v\<lparr>v_ptr := p, v_cap := c\<rparr>), s2)"
    using k(1) by (simp add: vec_grow_def c_def [symmetric] Let_def s2_def kdealloc_def)
  moreover have "v_len v < c" using assms(1) c(2) by (auto simp: vec_ok_def intro: le_less_trans)
  ultimately show thesis using that pH c(1) by (simp add: vec_ok_def)
qed

lemma vec_push_room:
  fixes s :: "'z heap_state_scheme"
  assumes "vec_ok H v" "unat (v_len v) < 16" "in_heap F H" "heap_free s \<subseteq> H" "hroom 135 s"
  obtains v' s' where "vec_push x v s = Inr (Some v', s')" "hstep F 135 s s'" "vec_ok H v'" "unat (v_len v') = unat (v_len v) + 1"
proof -
  obtain v1 s1 where g: "(if v_len v = v_cap v then vec_grow v s else Inr (Some v, s)) = Inr (Some v1, s1)"
    "hstep F 135 s s1" "vec_ok H v1" "v_len v1 = v_len v" "v_len v1 < v_cap v1"
  proof (cases "v_len v = v_cap v")
    case True
    with vec_grow_room [OF assms(1) vec_capD(4) [OF assms(1,2) True] assms(3-5)] that show ?thesis by metis
  next
    case False
    moreover from this assms(1) have "v_len v < v_cap v" by (simp add: vec_ok_def less_le)
    moreover have "hstep F 135 s s" by (rule hstep_mono [OF hstep_refl]) simp
    ultimately show ?thesis using that [of v s] assms(1) by simp
  qed
  note d = vec_capD [OF g(3)]
  have "bytes (v_ptr v1 + 8 * v_len v1) 8 \<subseteq> H"
    by (rule word_in_block [OF assms(3) _ d(1)]) (use g(3,5) in \<open>simp_all add: vec_ok_def word_less_nat_alt\<close>)
  note w = vwrite_in_heap [OF assms(3) this]
  have "hstep F 135 s (vwrite64 (v_ptr v1 + 8 * v_len v1) x s1)"
    by (rule hstep_mem [OF g(2)]) (simp_all add: w, simp_all add: vwrite64_def)
  moreover have "vec_push x v s = Inr (Some (v1\<lparr>v_len := v_len v1 + 1\<rparr>), vwrite64 (v_ptr v1 + 8 * v_len v1) x s1)"
    by (simp only: vec_push_def g(1)) simp
  moreover have n: "unat (v_len v1 + 1) = unat (v_len v) + 1" using assms(2) g(4) by (subst unat_add_no_wrap) simp_all
  moreover have "vec_ok H (v1\<lparr>v_len := v_len v1 + 1\<rparr>)" using g(3-5) n by (auto simp: vec_ok_def word_le_nat_alt word_less_nat_alt)
  ultimately show thesis using that by simp
qed

lemma push_all_room:
  fixes s :: "'z heap_state_scheme"
  assumes "vec_ok H v" "unat (v_len v) + length xs \<le> 16" "in_heap F H" "heap_free s \<subseteq> H" "hroom (135 * length xs) s"
  shows "\<exists>v' s'. push_all xs v s = Inr (Some v', s') \<and> hstep F (135 * length xs) s s'"
  using assms
proof (induction xs arbitrary: v s)
  case (Cons x xs)
  have "unat (v_len v) < 16" "hroom 135 s" using Cons.prems(2,5) by (auto intro: hroom_mono)
  from vec_push_room [OF Cons.prems(1) this(1) Cons.prems(3,4) this(2), of x] obtain v1 s1 where
    p: "vec_push x v s = Inr (Some v1, s1)" "hstep F 135 s s1" "vec_ok H v1" "unat (v_len v1) = unat (v_len v) + 1" .
  have pre: "unat (v_len v1) + length xs \<le> 16" "heap_free s1 \<subseteq> H" "hroom (135 * length xs) s1"
    using p(4) Cons.prems(2,4,5) hstepD(2,3) [OF p(2)] by auto
  from Cons.IH [OF p(3) pre(1) Cons.prems(3) pre(2,3)] obtain v' s' where
    "push_all xs v1 s1 = Inr (Some v', s')" "hstep F (135 * length xs) s1 s'" by blast
  with p(1) hstep_trans [OF p(2)] show ?case by fastforce
qed simp

lemma heap_smoke_room:
  fixes s :: "'z heap_state_scheme"
  assumes "hroom 4096 s" "in_heap F (heap_free s)"
  obtains s' where "heap_smoke s = Inr (True, s')" "hstep F 4096 s s'"
proof -
  let ?xs = "map (\<lambda>i. of_nat i * 3) [0..<16]"
  have v: "vec_ok (heap_free s) vec_new" by (simp add: vec_ok_def vec_new_def bytes_def)
  have "hroom (135 * length ?xs) s" using assms(1) by (auto intro: hroom_mono)
  from push_all_room [OF v _ assms(2) order_refl this] obtain w s1 where
    p: "push_all ?xs vec_new s = Inr (Some w, s1)" "hstep F 2160 s s1" by (auto simp: vec_new_def)
  have "hroom (unat (8 :: u64) + 7) s1" using hstepD(3) [OF p(2), of 15] hroom_mono [OF assms(1), of 2175] by simp
  from kalloc_room [OF this, of F] obtain b s2 where
    k: "kalloc (8, 8) s1 = Inr (Some b, s2)" "hstep F 15 s1 s2" "bytes b 8 \<subseteq> heap_free s1" by auto
  have bb: "bytes b 8 \<subseteq> heap_free s" using k(3) hstepD(2) [OF p(2)] by blast
  have h: "hstep F 4096 s s2" by (rule hstep_mono [OF hstep_trans [OF p(2) k(2)]]) simp
  obtain o' where o': "heap_smoke s = Inr (True, (vwrite64 b 0xdeadbeef s2)\<lparr>serial_out := o'\<rparr>)"
    using p(1) k(1) by (auto simp: heap_smoke_def Let_def kdealloc_def serial_eqs)
  show thesis
    by (rule that [OF o'], rule hstep_mem [OF h])
      (simp_all add: vwrite_in_heap [OF assms(2) bb], simp_all add: vwrite64_def)
qed

end
