(* ===== verification/Addr_Space.thy ===== *)
theory Addr_Space
  imports Kmap_Props Kernel_Props
begin

text \<open>
  The memory of a user process. An address space is followed while it is built: which frames hold its
  tables, which frames its user-accessible entries lead to, and which other frames the construction may
  write. From this follows what isolates the memory of processes: a process reaches only frames that were
  free before it was built, none of them holds a table, and no other frame decides what it reaches.
\<close>

section \<open>The invariant of the construction\<close>

definition page_of :: "u64 \<Rightarrow> nat" where
  "page_of a = unat a div 4096 * 4096"

text \<open>An entry of a table of level \<open>l\<close>: empty, or leading to a table one level down, or, at level 1, to a frame
  of the process or to a kernel frame that is not open to user mode.\<close>

definition entry_ok :: "(u64 \<rightharpoonup> nat) \<Rightarrow> u64 set \<Rightarrow> u64 set \<Rightarrow> nat \<Rightarrow> u64 \<Rightarrow> bool" where
  "entry_ok lv U K l e \<longleftrightarrow> e AND PTE_P = 0
     \<or> (1 < l \<and> lv (e AND ADDR_MASK) = Some (l - 1) \<and> e AND PTE_PS = 0)
     \<or> (l = 1 \<and> (e AND ADDR_MASK \<in> U \<or> e AND PTE_U = 0 \<and> e AND ADDR_MASK \<in> K))"

definition tables_ok :: "u64 \<Rightarrow> (u64 \<rightharpoonup> nat) \<Rightarrow> u64 set \<Rightarrow> u64 set \<Rightarrow> memory \<Rightarrow> bool" where
  "tables_ok root lv U K m \<longleftrightarrow> (\<forall>t l i. lv t = Some l \<longrightarrow> i < 512 \<longrightarrow>
     (if t = root \<and> i = 256 then te m t i AND PTE_U = 0 else entry_ok lv U K l (te m t i)))"

text \<open>The entries that form the tree of tables, all but the one of the direct map, and that two of them lead to the same
  place only if that is a kernel frame.\<close>

definition pslot :: "u64 \<Rightarrow> (u64 \<rightharpoonup> nat) \<Rightarrow> u64 \<Rightarrow> u64 \<Rightarrow> bool" where
  "pslot root lv t i \<longleftrightarrow> lv t \<noteq> None \<and> i < 512 \<and> \<not> (t = root \<and> i = 256)"

definition points :: "memory \<Rightarrow> u64 \<Rightarrow> u64 \<Rightarrow> u64 \<Rightarrow> bool" where
  "points m t i c \<longleftrightarrow> te m t i AND PTE_P \<noteq> 0 \<and> te m t i AND ADDR_MASK = c"

definition unshared :: "u64 \<Rightarrow> (u64 \<rightharpoonup> nat) \<Rightarrow> u64 set \<Rightarrow> memory \<Rightarrow> bool" where
  "unshared root lv K m \<longleftrightarrow> (\<forall>t i t' i' c. pslot root lv t i \<longrightarrow> pslot root lv t' i' \<longrightarrow> points m t i c \<longrightarrow> points m t' i' c
     \<longrightarrow> c \<notin> K \<longrightarrow> t = t' \<and> i = i')"

definition unled :: "u64 \<Rightarrow> (u64 \<rightharpoonup> nat) \<Rightarrow> u64 \<Rightarrow> memory \<Rightarrow> bool" where
  "unled root lv f m \<longleftrightarrow> (\<forall>t i. pslot root lv t i \<longrightarrow> \<not> points m t i f)"

definition only_mem :: "'z pmm_state_scheme \<Rightarrow> 'z pmm_state_scheme \<Rightarrow> bool" where
  "only_mem s0 s \<longleftrightarrow> (\<exists>pm m. s = s0\<lparr>PMM := pm, mem := m\<rparr>)"

lemma only_mem_refl: "only_mem s s"
proof -
  have "s = s\<lparr>PMM := PMM s, mem := mem s\<rparr>" by simp
  then show ?thesis unfolding only_mem_def by blast
qed

lemma only_mem_update: "only_mem s0 s \<Longrightarrow> only_mem s0 (s\<lparr>mem := m\<rparr>)" "only_mem s0 s \<Longrightarrow> only_mem s0 (s\<lparr>PMM := pm\<rparr>)"
proof -
  assume "only_mem s0 s"
  then obtain pm' m' where s: "s = s0\<lparr>PMM := pm', mem := m'\<rparr>" unfolding only_mem_def by blast
  have "s\<lparr>mem := m\<rparr> = s0\<lparr>PMM := pm', mem := m\<rparr>" "s\<lparr>PMM := pm\<rparr> = s0\<lparr>PMM := pm, mem := m'\<rparr>" by (simp_all add: s)
  then show "only_mem s0 (s\<lparr>mem := m\<rparr>)" "only_mem s0 (s\<lparr>PMM := pm\<rparr>)" unfolding only_mem_def by blast+
qed

text \<open>\<open>s0\<close> is the state before the construction.\<close>

definition aspace ::
  "'z pmm_state_scheme \<Rightarrow> u64 \<Rightarrow> (u64 \<rightharpoonup> nat) \<Rightarrow> u64 set \<Rightarrow> u64 set \<Rightarrow> 'z pmm_state_scheme \<Rightarrow> bool" where
  "aspace s0 root lv U K s \<longleftrightarrow> only_mem s0 s \<and> mem_ok s \<and> lv root = Some 4 \<and> pmm_free s \<subseteq> pmm_free s0
     \<and> (\<forall>t. lv t \<noteq> None \<longrightarrow> used t s \<and> unat t \<in> pmm_free s0)
     \<and> (\<forall>f \<in> U. used f s \<and> lv f = None \<and> unat f \<in> pmm_free s0)
     \<and> (\<forall>f \<in> K. used f s \<and> lv f = None) \<and> U \<inter> K = {}
     \<and> unshared root lv K (mem s) \<and> tables_ok root lv U K (mem s)
     \<and> (\<forall>a. page_of a \<notin> pmm_free s0 \<longrightarrow> page_of a \<notin> unat ` K \<longrightarrow> mem s a = mem s0 a)"

lemma aspaceD:
  assumes "aspace s0 root lv U K s"
  shows "mem_ok s" "lv root = Some 4" "pmm_free s \<subseteq> pmm_free s0" "lv t \<noteq> None \<Longrightarrow> used t s \<and> unat t \<in> pmm_free s0"
    "f \<in> U \<Longrightarrow> used f s \<and> lv f = None \<and> unat f \<in> pmm_free s0" "f \<in> K \<Longrightarrow> used f s \<and> lv f = None"
    "tables_ok root lv U K (mem s)"
    "page_of a \<notin> pmm_free s0 \<Longrightarrow> page_of a \<notin> unat ` K \<Longrightarrow> mem s a = mem s0 a"
    "only_mem s0 s" "U \<inter> K = {}" "unshared root lv K (mem s)"
  using assms unfolding aspace_def by blast+

lemma unsharedD:
  assumes "unshared root lv K m" "pslot root lv t i" "pslot root lv t' i'" "points m t i c" "points m t' i' c" "c \<notin> K"
  shows "t = t'" "i = i'"
  using assms unfolding unshared_def by blast+

lemma points_te: "te m' t i = te m t i \<Longrightarrow> points m' t i c = points m t i c"
  by (simp add: points_def)

lemma unshared_cong:
  assumes "unshared root lv K m" "\<And>t i. pslot root lv t i \<Longrightarrow> te m' t i = te m t i"
  shows "unshared root lv K m'"
  unfolding unshared_def using unsharedD [OF assms(1)] points_te [OF assms(2)] by blast

lemma tables_okD:
  assumes "tables_ok root lv U K m" "lv t = Some l" "i < 512"
  shows "\<not> (t = root \<and> i = 256) \<Longrightarrow> entry_ok lv U K l (te m t i)" "t = root \<Longrightarrow> i = 256 \<Longrightarrow> te m t i AND PTE_U = 0"
  using assms unfolding tables_ok_def by metis+

lemma entry_ok_mono:
  "entry_ok lv U K l e \<Longrightarrow> lv \<subseteq>\<^sub>m lv' \<Longrightarrow> U \<subseteq> U' \<Longrightarrow> K \<subseteq> K' \<Longrightarrow> entry_ok lv' U' K' l e"
  unfolding entry_ok_def map_le_def by (metis domI subsetD)

text \<open>An entry leads to a table, a frame of the process or a kernel frame.\<close>

lemma points_target:
  assumes "tables_ok root lv U K m" "pslot root lv t i" "points m t i c"
  shows "lv c \<noteq> None \<or> c \<in> U \<or> c \<in> K"
proof -
  from assms(2) obtain l where "lv t = Some l" "i < 512" "\<not> (t = root \<and> i = 256)" by (auto simp: pslot_def)
  from tables_okD(1) [OF assms(1) this] assms(3) show ?thesis by (auto simp: entry_ok_def points_def)
qed

section \<open>Changes of memory\<close>

lemma page_of_span:
  assumes "frame_ok t" "i < 512" "a \<in> span8 (entry t i)"
  shows "page_of a = unat t"
  using entry_span_frame [OF assms] by (simp add: page_of_def)

lemma te_page:
  assumes "frame_ok t" "i < 512" "\<And>a. page_of a = unat t \<Longrightarrow> m' a = m a"
  shows "te m' t i = te m t i"
  unfolding te_def by (rule rd64_cong) (use assms page_of_span in blast)

lemma page_of_zero: "frame_ok p \<Longrightarrow> zero_frame p m a \<noteq> m a \<Longrightarrow> page_of a = unat p"
  using in_frame_iff [of p a] by (auto simp: zero_frame_def page_of_def split: if_splits)

text \<open>Memory of the process and of the kernel may change at will.\<close>

lemma te_outside:
  assumes "aspace s0 root lv U K s" "\<And>a. m a \<noteq> mem s a \<Longrightarrow> page_of a \<in> unat ` (U \<union> K)" "lv t \<noteq> None" "i < 512"
  shows "te m t i = te (mem s) t i"
proof (rule te_page)
  note d = aspaceD [OF assms(1)]
  show "frame_ok t" "i < 512" using assms(4) d(4) [OF assms(3)] by auto
  show "m a = mem s a" if "page_of a = unat t" for a
  proof (rule ccontr)
    assume "m a \<noteq> mem s a"
    then have "unat t \<in> unat ` (U \<union> K)" using assms(2) that by metis
    then have "t \<in> U \<union> K" by (metis imageE word_unat_eq_iff)
    then show False using \<open>lv t \<noteq> None\<close> d(5,6) by auto
  qed
qed

lemma aspace_mem:
  assumes "aspace s0 root lv U K s" "\<And>a. m a \<noteq> mem s a \<Longrightarrow> page_of a \<in> unat ` (U \<union> K)"
  shows "aspace s0 root lv U K (s\<lparr>mem := m\<rparr>)"
proof -
  note d = aspaceD [OF assms(1)]
  have eq: "mem_ok (s\<lparr>mem := m\<rparr>) = mem_ok s" "used f (s\<lparr>mem := m\<rparr>) = used f s" "pmm_free (s\<lparr>mem := m\<rparr>) = pmm_free s" for f
    by (rule mem_ok_cong; simp)+ (simp add: pmm_free_def)
  have same: "te m t i = te (mem s) t i" if "lv t \<noteq> None" "i < 512" for t i
    by (rule te_outside [OF assms that])
  have "tables_ok root lv U K m"
    unfolding tables_ok_def using tables_okD [OF d(7)] same by (metis option.discI)
  moreover have "unshared root lv K m" by (rule unshared_cong [OF d(11)]) (simp add: same pslot_def)
  moreover have "m a = mem s0 a" if "page_of a \<notin> pmm_free s0" "page_of a \<notin> unat ` K" for a
  proof -
    have "page_of a \<notin> unat ` U" using d(5) that(1) by auto
    then have "page_of a \<notin> unat ` (U \<union> K)" using that(2) by (simp add: image_Un)
    then show ?thesis using d(8) [OF that] assms(2) by metis
  qed
  ultimately show ?thesis unfolding aspace_def eq using d(1-6,10) only_mem_update(1) [OF d(9)] by simp
qed

text \<open>An entry is written.\<close>

lemma aspace_entry:
  assumes "aspace s0 root lv U K s" "lv t = Some l" "i < 512" "t = root \<Longrightarrow> i = 256 \<Longrightarrow> e AND PTE_U = 0"
    "\<not> (t = root \<and> i = 256) \<Longrightarrow> entry_ok lv U K l e"
    "\<And>t' i'. pslot root lv t i \<Longrightarrow> pslot root lv t' i' \<Longrightarrow> points (mem s) t' i' (e AND ADDR_MASK) \<Longrightarrow> e AND ADDR_MASK \<notin> K
      \<Longrightarrow> t' = t \<and> i' = i"
  shows "aspace s0 root lv U K (s\<lparr>mem := wr64 (mem s) (entry t i) e\<rparr>)"
proof -
  note d = aspaceD [OF assms(1)]
  let ?s = "s\<lparr>mem := wr64 (mem s) (entry t i) e\<rparr>"
  have eq: "mem_ok ?s = mem_ok s" "used f ?s = used f s" "pmm_free ?s = pmm_free s" for f
    by (rule mem_ok_cong; simp)+ (simp add: pmm_free_def)
  have ft: "frame_ok t" "unat t \<in> pmm_free s0" using d(4) [of t] assms(2) by auto
  have te: "te (mem ?s) t' j = (if t = t' \<and> i = j then e else te (mem s) t' j)" if "lv t' \<noteq> None" "j < 512" for t' j
  proof -
    have "frame_ok t'" using d(4) [OF that(1)] by auto
    from te_wr64 [OF ft(1) assms(3) this that(2)] show ?thesis by simp
  qed
  have "tables_ok root lv U K (mem ?s)"
    unfolding tables_ok_def
  proof (intro allI impI)
    fix t' l' and j :: u64 assume h: "lv t' = Some l'" "j < 512"
    then show "if t' = root \<and> j = 256 then te (mem ?s) t' j AND PTE_U = 0 else entry_ok lv U K l' (te (mem ?s) t' j)"
      using te [of t' j] tables_okD [OF d(7) h] assms(2,4,5) by (cases "t = t' \<and> i = j") auto
  qed
  moreover have "unshared root lv K (mem ?s)"
    unfolding unshared_def
  proof (intro allI impI)
    fix t1 i1 t2 i2 c
    assume h: "pslot root lv t1 i1" "pslot root lv t2 i2" "points (mem ?s) t1 i1 c" "points (mem ?s) t2 i2 c" "c \<notin> K"
    have pt: "points (mem ?s) t' j c = (if t = t' \<and> i = j then e AND PTE_P \<noteq> 0 \<and> e AND ADDR_MASK = c else points (mem s) t' j c)"
      if "pslot root lv t' j" for t' j using te [of t' j] that by (auto simp: points_def pslot_def)
    consider "t1 = t" "i1 = i" "t2 = t" "i2 = i" | "t1 = t" "i1 = i" "\<not> (t = t2 \<and> i = i2)" | "\<not> (t = t1 \<and> i = i1)" "t2 = t" "i2 = i"
      | "\<not> (t = t1 \<and> i = i1)" "\<not> (t = t2 \<and> i = i2)" by blast
    then show "t1 = t2 \<and> i1 = i2"
    proof cases
      case 2
      then show ?thesis using assms(6) [of t2 i2] h pt [OF h(1)] pt [OF h(2)] by simp
    next
      case 3
      then show ?thesis using assms(6) [of t1 i1] h pt [OF h(1)] pt [OF h(2)] by simp
    next
      case 4
      then have "points (mem s) t1 i1 c" "points (mem s) t2 i2 c" using h(3,4) pt [OF h(1)] pt [OF h(2)] by metis+
      then show ?thesis using unsharedD [OF d(11) h(1,2)] h(5) by blast
    qed simp
  qed
  moreover have "mem ?s a = mem s0 a" if "page_of a \<notin> pmm_free s0" "page_of a \<notin> unat ` K" for a
  proof -
    have "a \<notin> span8 (entry t i)" using page_of_span [OF ft(1) assms(3)] ft(2) that(1) by metis
    then show ?thesis using d(8) [OF that] by (simp add: wr64_outside)
  qed
  ultimately show ?thesis unfolding aspace_def eq using d(1-6,10) only_mem_update(1) [OF d(9)] by simp
qed

section \<open>Allocation\<close>

text \<open>A fresh frame becomes a table, a frame of the process or a frame of the kernel.\<close>

lemma alloc_fresh:
  assumes "aspace s0 root lv U K s" "alloc_pages 1 s = Inr (Some p, s')"
  shows "mem_ok s'" "used p s'" "lv p = None" "p \<notin> U" "p \<notin> K" "unat p \<in> pmm_free s0" "pmm_free s' \<subseteq> pmm_free s0"
    "mem s' = mem s" "used f s \<Longrightarrow> used f s'" "only_mem s0 s'"
proof -
  note d = aspaceD [OF assms(1)]
  note a = alloc_page_post [OF d(1) assms(2)]
  show "mem_ok s'" "used p s'" by (rule a)+
  show "lv p = None" using d(4) [of p] a(6) [of p] by blast
  show "p \<notin> U" "p \<notin> K" using d(5,6) [of p] a(6) [of p] by auto
  show "unat p \<in> pmm_free s0" using a(5) d(3) by blast
  have "pmm_inv s" using d(1) by (simp add: mem_ok_def)
  then show "pmm_free s' \<subseteq> pmm_free s0" using pmm.alloc_free_subset [OF _ assms(2)] d(3) by blast
  show "mem s' = mem s" using a(1) by auto
  show "used f s \<Longrightarrow> used f s'" using a(6) by blast
  show "only_mem s0 s'" using a(1) only_mem_update(2) [OF d(9)] by auto
qed

lemma aspace_frame:
  assumes "aspace s0 root lv U K s" "alloc_pages 1 s = Inr (Some p, s')"
  shows "aspace s0 root lv (insert p U) K s'" "aspace s0 root lv U (insert p K) s'"
proof -
  note d = aspaceD [OF assms(1)] and a = alloc_fresh [OF assms]
  have t: "tables_ok root lv U' K' (mem s')" if "U \<subseteq> U'" "K \<subseteq> K'" for U' K'
    unfolding tables_ok_def a(8) using tables_okD [OF d(7)] entry_ok_mono [OF _ map_le_refl that] by metis
  show "aspace s0 root lv (insert p U) K s'" "aspace s0 root lv U (insert p K) s'"
    unfolding aspace_def using t [of "insert p U" K] t [of U "insert p K"] d(2,4-6,8,10,11) a by (auto simp: unshared_def)
qed

lemma aspace_table:
  assumes "aspace s0 root lv U K s" "alloc_table_msg msg s = Inr (c, s')"
  shows "aspace s0 root (lv(c \<mapsto> l)) U K s'" "lv \<subseteq>\<^sub>m lv(c \<mapsto> l)" "unled root (lv(c \<mapsto> l)) c (mem s')"
    "unled root lv f (mem s) \<Longrightarrow> unled root (lv(c \<mapsto> l)) f (mem s')"
    "pslot root lv t i \<Longrightarrow> te (mem s') t i = te (mem s) t i"
proof -
  from assms(2) obtain s1 where a: "alloc_pages 1 s = Inr (Some c, s1)" and s': "s' = zero_page c s1"
    by (auto simp: alloc_table_msg_def elim!: and_then_InrE)
  note d = aspaceD [OF assms(1)] and f = alloc_fresh [OF assms(1) a]
  have eq: "mem_ok s' = mem_ok s1" "used g s' = used g s1" "pmm_free s' = pmm_free s1" for g
    unfolding s' zero_page_def by (rule mem_ok_cong; simp)+ (simp add: pmm_free_def)
  show le: "lv \<subseteq>\<^sub>m lv(c \<mapsto> l)" using f(3) by (auto simp: map_le_def)
  have m: "mem s' = zero_frame c (mem s)" by (simp add: s' zero_page_def f(8))
  have fc: "frame_ok c" using f(2) by simp
  have te: "te (mem s') t i = (if t = c then 0 else te (mem s) t i)" if "lv t \<noteq> None \<or> t = c" "i < 512" for t i
    unfolding m using te_zero_frame [OF fc _ that(2), of t "mem s"] d(4) [of t] fc that(1) by auto
  have rc: "root \<noteq> c" using d(2) f(3) by auto
  show keep: "te (mem s') t i = te (mem s) t i" if "pslot root lv t i" for t i
    using te [of t i] that f(3) by (auto simp: pslot_def)
  have new: "pslot root lv t i \<and> points (mem s) t i x" if "pslot root (lv(c \<mapsto> l)) t i" "points (mem s') t i x" for t i x
    using that te [of t i] f(3) by (auto simp: pslot_def points_def split: if_splits)
  show "unled root (lv(c \<mapsto> l)) c (mem s')"
    unfolding unled_def using new points_target [OF d(7)] f(3-5) by blast
  show "unled root lv f (mem s) \<Longrightarrow> unled root (lv(c \<mapsto> l)) f (mem s')" unfolding unled_def using new by blast
  have "unshared root (lv(c \<mapsto> l)) K (mem s')"
    unfolding unshared_def using new unsharedD [OF d(11)] by blast
  moreover have "tables_ok root (lv(c \<mapsto> l)) U K (mem s')"
    unfolding tables_ok_def
  proof (intro allI impI)
    fix t l' and i :: u64 assume h: "(lv(c \<mapsto> l)) t = Some l'" "i < 512"
    show "if t = root \<and> i = 256 then te (mem s') t i AND PTE_U = 0 else entry_ok (lv(c \<mapsto> l)) U K l' (te (mem s') t i)"
    proof (cases "t = c")
      case True
      then show ?thesis using te [of t i] h(2) rc by (simp add: entry_ok_def)
    next
      case False
      then have "lv t = Some l'" using h(1) by simp
      from tables_okD [OF d(7) this h(2)] te [of t i] False h(2) \<open>lv t = Some l'\<close> entry_ok_mono [OF _ le]
      show ?thesis by auto
    qed
  qed
  moreover have "mem s' a = mem s0 a" if "page_of a \<notin> pmm_free s0" "page_of a \<notin> unat ` K" for a
    using d(8) [OF that] page_of_zero [OF fc, of "mem s" a] f(6) that(1) unfolding m by metis
  ultimately show "aspace s0 root (lv(c \<mapsto> l)) U K s'"
    unfolding aspace_def eq using f d(2,4-6,10) rc only_mem_update(1) [OF f(10)] by (auto simp: s' zero_page_def)
qed

section \<open>Descending and mapping\<close>

lemma upgrade_entry: "(v OR PTE_U) AND ADDR_MASK = v AND ADDR_MASK" "(v OR PTE_U) AND PTE_P = v AND PTE_P"
  "(v OR PTE_U) AND PTE_PS = v AND PTE_PS"
  by (simp_all add: PTE_U_def ADDR_MASK_def PTE_P_def PTE_PS_def bit.conj_disj_distrib2)

lemma user_table_entry:
  assumes "frame_ok c" "fl = 3 \<or> fl = 7"
  shows "(c OR fl) AND ADDR_MASK = c" "(c OR fl) AND PTE_PS = 0"
proof -
  have "fl < 4096" "fl AND PTE_PS = 0" using assms(2) by (auto simp: PTE_PS_def)
  then show "(c OR fl) AND ADDR_MASK = c" "(c OR fl) AND PTE_PS = 0"
    using frame_or_flags_addr [OF assms(1)] frame_or_flags_low [OF assms(1), of PTE_PS fl] by (simp_all add: PTE_PS_def)
qed

text \<open>An entry that user mode may follow.\<close>

definition leads :: "memory \<Rightarrow> u64 \<Rightarrow> u64 \<Rightarrow> u64 \<Rightarrow> bool" where
  "leads m t i c \<longleftrightarrow> te m t i AND (PTE_P OR PTE_U) = PTE_P OR PTE_U \<and> te m t i AND ADDR_MASK = c"

lemma user_bits:
  assumes "e AND (PTE_P OR PTE_U) = PTE_P OR PTE_U"
  shows "e AND PTE_P \<noteq> 0" "e AND PTE_U \<noteq> 0"
proof -
  have "bit (e AND (PTE_P OR PTE_U)) 0" "bit (e AND (PTE_P OR PTE_U)) 2"
    unfolding assms by (simp_all add: pte_flags bit_simps bit_iff_odd_drop_bit)
  then have "bit e 0" "bit e 2" by (simp_all only: bit_and_iff)
  moreover have "bit PTE_P 0" "bit PTE_U 2" by (simp_all add: pte_flags bit_iff_odd_drop_bit)
  ultimately have "bit (e AND PTE_P) 0" "bit (e AND PTE_U) 2" by (simp_all only: bit_and_iff)
  then show "e AND PTE_P \<noteq> 0" "e AND PTE_U \<noteq> 0" by auto
qed

lemma user_bits_iff: "e AND (PTE_P OR PTE_U) = PTE_P OR PTE_U \<longleftrightarrow> e AND PTE_P \<noteq> 0 \<and> e AND PTE_U \<noteq> 0"
proof
  assume h: "e AND PTE_P \<noteq> 0 \<and> e AND PTE_U \<noteq> 0"
  have "e AND PTE_P = (if odd e then PTE_P else 0)" by (simp add: PTE_P_def and_one_eq mod_2_eq_odd)
  moreover have "bit PTE_U n \<longleftrightarrow> n = 2" for n using bit_push_bit_iff [of 2 "1 :: u64" n] by (auto simp: PTE_U_def bit_1_iff)
  then have "e AND PTE_U = (if bit e 2 then PTE_U else 0)" by (intro bit_eqI) (auto simp: bit_and_iff)
  ultimately show "e AND (PTE_P OR PTE_U) = PTE_P OR PTE_U" using h by (simp add: bit.conj_disj_distrib split: if_splits)
qed (use user_bits in blast)

lemma leads_points: "leads m t i c \<Longrightarrow> points m t i c"
  using user_bits(1) by (auto simp: leads_def points_def)

lemma leads_te: "te m' t i = te m t i \<Longrightarrow> leads m' t i c = leads m t i c"
  by (simp add: leads_def)

lemma leads_upgrade: "e AND PTE_P \<noteq> 0 \<Longrightarrow> (e OR PTE_U) AND (PTE_P OR PTE_U) = PTE_P OR PTE_U"
proof -
  assume "e AND PTE_P \<noteq> 0"
  moreover have "(e OR PTE_U) AND PTE_U = PTE_U" by (rule bit_eqI) (auto simp: bit_simps)
  ultimately show ?thesis unfolding user_bits_iff by (simp add: upgrade_entry) (simp add: pte_flags)
qed

text \<open>What stays when tables are added: entries that user mode may follow, frames no entry leads to, and all
  memory but the tables.\<close>

definition grown ::
  "u64 \<Rightarrow> (u64 \<rightharpoonup> nat) \<Rightarrow> 'z pmm_state_scheme \<Rightarrow> (u64 \<rightharpoonup> nat) \<Rightarrow> 'z pmm_state_scheme \<Rightarrow> bool" where
  "grown root lv s lv' s' \<longleftrightarrow> lv \<subseteq>\<^sub>m lv'
     \<and> (\<forall>f. used f s \<and> unled root lv f (mem s) \<longrightarrow> used f s' \<and> unled root lv' f (mem s'))
     \<and> (\<forall>t i c. pslot root lv t i \<and> leads (mem s) t i c \<longrightarrow> leads (mem s') t i c)
     \<and> (\<forall>a. mem s' a \<noteq> mem s a \<longrightarrow> page_of a \<in> unat ` dom lv')"

lemma grownI:
  assumes "lv \<subseteq>\<^sub>m lv'" "\<And>f. used f s \<Longrightarrow> unled root lv f (mem s) \<Longrightarrow> used f s' \<and> unled root lv' f (mem s')"
    "\<And>t i c. pslot root lv t i \<Longrightarrow> leads (mem s) t i c \<Longrightarrow> leads (mem s') t i c"
    "\<And>a. mem s' a \<noteq> mem s a \<Longrightarrow> page_of a \<in> unat ` dom lv'"
  shows "grown root lv s lv' s'"
  using assms unfolding grown_def by blast

lemma grownD:
  assumes "grown root lv s lv' s'"
  shows "lv \<subseteq>\<^sub>m lv'" "used f s \<Longrightarrow> unled root lv f (mem s) \<Longrightarrow> used f s'"
    "used f s \<Longrightarrow> unled root lv f (mem s) \<Longrightarrow> unled root lv' f (mem s')"
    "pslot root lv t i \<Longrightarrow> leads (mem s) t i c \<Longrightarrow> leads (mem s') t i c"
    "mem s' a \<noteq> mem s a \<Longrightarrow> page_of a \<in> unat ` dom lv'"
  using assms unfolding grown_def by blast+

lemma grown_refl: "grown root lv s lv s"
  by (simp add: grown_def)

lemma pslot_mono: "pslot root lv t i \<Longrightarrow> lv \<subseteq>\<^sub>m lv' \<Longrightarrow> pslot root lv' t i"
  unfolding pslot_def map_le_def by (metis domI not_None_eq)

lemma grown_trans:
  assumes "grown root lv s lv1 s1" "grown root lv1 s1 lv2 s2"
  shows "grown root lv s lv2 s2"
proof (rule grownI)
  note a = grownD [OF assms(1)] and b = grownD [OF assms(2)]
  show "lv \<subseteq>\<^sub>m lv2" using map_le_trans [OF a(1) b(1)] .
  show "used f s2 \<and> unled root lv2 f (mem s2)" if "used f s" "unled root lv f (mem s)" for f
    using a(2,3) [OF that] b(2,3) [of f] by blast
  show "leads (mem s2) t i c" if "pslot root lv t i" "leads (mem s) t i c" for t i c
    using b(4) [OF pslot_mono [OF that(1) a(1)] a(4) [OF that]] .
  have "dom lv1 \<subseteq> dom lv2" by (rule map_le_implies_dom_le [OF b(1)])
  then show "page_of x \<in> unat ` dom lv2" if "mem s2 x \<noteq> mem s x" for x
    using a(5) [of x] b(5) [of x] that by (metis image_mono subsetD)
qed

text \<open>One step down when the table is there: its entry may be opened to user mode.\<close>

lemma aspace_open:
  fixes s :: "'z pmm_state_scheme"
  assumes "aspace s0 root lv U K s" "lv t = Some l" "1 < l" "i < 512" "\<not> (t = root \<and> i = 256)" "te (mem s) t i AND PTE_P \<noteq> 0"
    "s' = s\<lparr>mem := wr64 (mem s) (entry t i) (te (mem s) t i OR PTE_U)\<rparr>"
  shows "aspace s0 root lv U K s'" "grown root lv s lv s'" "leads (mem s') t i (te (mem s) t i AND ADDR_MASK)"
proof -
  let ?v = "te (mem s) t i"
  note d = aspaceD [OF assms(1)]
  have e: "lv (?v AND ADDR_MASK) = Some (l - 1)" "?v AND PTE_PS = 0"
    using tables_okD(1) [OF d(7) assms(2,4,5)] assms(3,6) by (auto simp: entry_ok_def)
  have ti: "pslot root lv t i" using assms(2,4,5) by (simp add: pslot_def)
  have ft: "frame_ok t" using d(4) [of t] assms(2) by auto
  have te: "te (mem s') t' j = (if t = t' \<and> i = j then ?v OR PTE_U else te (mem s) t' j)" if "pslot root lv t' j" for t' j
    using that d(4) [of t'] te_wr64 [OF ft assms(4), of t' j] by (auto simp: assms(7) pslot_def)
  have pt: "points (mem s') t' j x = points (mem s) t' j x" if "pslot root lv t' j" for t' j x
    using te [OF that] assms(6) by (auto simp: points_def upgrade_entry)
  have "entry_ok lv U K l (?v OR PTE_U)" using e assms(3) by (simp add: entry_ok_def upgrade_entry)
  moreover have "points (mem s) t i (?v AND ADDR_MASK)" using assms(6) by (simp add: points_def)
  ultimately show "aspace s0 root lv U K s'"
    unfolding assms(7)
    by (intro aspace_entry [OF assms(1,2,4)]) (use assms(5) unsharedD [OF d(11) _ ti] in \<open>auto simp: upgrade_entry\<close>)
  show "grown root lv s lv s'"
  proof (rule grownI)
    show "used f s' \<and> unled root lv f (mem s')" if "used f s" "unled root lv f (mem s)" for f
      using that pt mem_ok_cong(2) [of s' s f] by (auto simp: unled_def assms(7))
    show "leads (mem s') t' j x" if "pslot root lv t' j" "leads (mem s) t' j x" for t' j x
      using te [OF that(1)] that(2) leads_upgrade [OF assms(6)] by (auto simp: leads_def upgrade_entry)
    show "page_of a \<in> unat ` dom lv" if "mem s' a \<noteq> mem s a" for a
      using that page_of_span [OF ft assms(4), of a] wr64_outside [of a "entry t i" "mem s"] assms(2) by (auto simp: assms(7))
  qed simp
  show "leads (mem s') t i (?v AND ADDR_MASK)" using te [OF ti] leads_upgrade [OF assms(6)] by (simp add: leads_def upgrade_entry)
qed

text \<open>And when it is not: a fresh table is hung into the empty entry.\<close>

lemma aspace_hang:
  fixes s :: "'z pmm_state_scheme"
  assumes "aspace s0 root lv U K s" "lv t = Some l" "1 < l" "i < 512" "\<not> (t = root \<and> i = 256)" "te (mem s) t i AND PTE_P = 0"
    "alloc_table_msg msg s = Inr (c, s1)" "x = 3 \<or> x = 7" "s' = s1\<lparr>mem := wr64 (mem s1) (entry t i) (c OR x)\<rparr>" "lw = lv(c \<mapsto> l - 1)"
  shows "aspace s0 root lw U K s'" "grown root lv s lw s'" "x = 7 \<Longrightarrow> leads (mem s') t i c"
proof -
  note t = aspace_table(1-4) [OF assms(1,7), where l = "l - 1", folded assms(10)] and t5 = aspace_table(5) [OF assms(1,7)]
  note d = aspaceD [OF t(1)]
  have lc: "lw c = Some (l - 1)" by (simp add: assms(10))
  have lt: "lw t = Some l" using t(2) assms(2) by (metis domI map_le_def)
  have ft: "frame_ok t" "frame_ok c" using d(4) [of t] d(4) [of c] lt lc by auto
  have cx: "(c OR x) AND ADDR_MASK = c" "(c OR x) AND PTE_PS = 0" using user_table_entry [OF ft(2) assms(8)] by auto
  have te: "te (mem s') t' j = (if t = t' \<and> i = j then c OR x else te (mem s1) t' j)" if "pslot root lw t' j" for t' j
    using that d(4) [of t'] te_wr64 [OF ft(1) assms(4), of t' j] by (auto simp: assms(9) pslot_def)
  have "entry_ok lw U K l (c OR x)" using cx lc assms(3) by (auto simp: entry_ok_def)
  then show "aspace s0 root lw U K s'"
    unfolding assms(9) by (intro aspace_entry [OF t(1) lt assms(4)]) (use assms(5) t(3) in \<open>auto simp: unled_def cx\<close>)
  show "grown root lv s lw s'"
  proof (rule grownI [OF t(2)])
    show "used f s' \<and> unled root lw f (mem s')" if f: "used f s" "unled root lv f (mem s)" for f
    proof -
      have u: "used f s1" "f \<noteq> c" using alloc_table_post(5) [OF aspaceD(1) [OF assms(1)] assms(7) f(1)] by auto
      have "\<not> points (mem s') t' j f" if "pslot root lw t' j" for t' j
        using te [OF that] that t(4) [OF f(2)] u(2) cx(1) by (auto simp: points_def unled_def split: if_splits)
      then show ?thesis using u(1) mem_ok_cong(2) [of s' s1 f] by (simp add: unled_def assms(9))
    qed
    show "leads (mem s') t' j y" if "pslot root lv t' j" "leads (mem s) t' j y" for t' j y
      using te [OF pslot_mono [OF that(1) t(2)]] t5 [OF that(1)] that(2) assms(6) user_bits(1) by (auto simp: leads_def)
    have z: "mem s1 = zero_frame c (mem s)" using alloc_table_post(1) [OF aspaceD(1) [OF assms(1)] assms(7)] by auto
    show "page_of b \<in> unat ` dom lw" if "mem s' b \<noteq> mem s b" for b
      using that wr64_outside [of b "entry t i" "mem s1"] page_of_span [OF ft(1) assms(4), of b]
        page_of_zero [OF ft(2), of "mem s" b] lt lc by (fastforce simp: assms(9) z)
  qed
  show "leads (mem s') t i c" if "x = 7"
  proof -
    have "(c OR 7) AND (PTE_P OR PTE_U) = 7 AND (PTE_P OR PTE_U)" by (rule frame_or_flags_low [OF ft(2)]) (simp add: pte_flags)
    then have "(c OR x) AND (PTE_P OR PTE_U) = PTE_P OR PTE_U" using that by (simp add: pte_flags)
    moreover have "pslot root lw t i" using lt assms(4,5) by (simp add: pslot_def)
    ultimately show ?thesis using te [of t i] cx(1) by (simp add: leads_def)
  qed
qed

text \<open>One step down: the table found or made.\<close>

lemma aspace_descend:
  fixes s :: "'z pmm_state_scheme"
  assumes "aspace s0 root lv U K s" "lv t = Some l" "1 < l" "i < 512" "\<not> (t = root \<and> i = 256)"
    "get_or_alloc_table (table_entry_mut t i) fl s = Inr (c, s')"
  obtains lv' where "aspace s0 root lv' U K s'" "grown root lv s lv' s'" "lv' c = Some (l - 1)"
    "fl AND PTE_U \<noteq> 0 \<Longrightarrow> leads (mem s') t i c"
proof (cases "te (mem s) t i AND PTE_P = 0")
  case False
  let ?v = "te (mem s) t i"
  have e: "lv (?v AND ADDR_MASK) = Some (l - 1)"
    using tables_okD(1) [OF aspaceD(7) [OF assms(1)] assms(2,4,5)] False assms(3) by (auto simp: entry_ok_def)
  show thesis
  proof (cases "fl AND PTE_U \<noteq> 0 \<and> ?v AND PTE_U = 0")
    case True
    then have "c = ?v AND ADDR_MASK" and s': "s' = s\<lparr>mem := wr64 (mem s) (entry t i) (?v OR PTE_U)\<rparr>"
      using assms(6) False upgrade_entry(1) by (auto simp: get_or_alloc_table_def vread_entry vwrite_entry Let_def)
    with that aspace_open [OF assms(1-5) False s'] e show thesis by simp
  next
    case F: False
    then have "c = ?v AND ADDR_MASK" "s' = s"
      using assms(6) False by (auto simp: get_or_alloc_table_def vread_entry Let_def split: if_splits)
    with e assms(1) F False show thesis by (intro that [of lv]) (auto simp: leads_def user_bits_iff grown_refl)
  qed
next
  case True
  define x where "x = (if fl AND PTE_U \<noteq> 0 then (7 :: u64) else 3)"
  from True obtain s1 where a: "alloc_table_msg ''user: alloc_pages failed'' s = Inr (c, s1)"
    and s': "s' = s1\<lparr>mem := wr64 (mem s1) (entry t i) (c OR x)\<rparr>"
    using assms(6)
    by (auto simp: get_or_alloc_table_def vread_entry vwrite_entry Let_def user_alloc_table_def x_def
        PTE_P_def PTE_RW_def PTE_U_def or.assoc elim!: and_then_InrE)
  have "x = 3 \<or> x = 7" by (simp add: x_def)
  note h = aspace_hang [OF assms(1-5) True a this s' refl]
  show thesis by (rule that [OF h(1,2)]) (use h(3) in \<open>simp_all add: x_def\<close>)
qed

text \<open>A page is mapped: to a frame of the process, or to a kernel frame without user access.\<close>

lemma low_index: "unat v < 2 ^ 47 \<Longrightarrow> pt_index 39 v \<noteq> 256"
proof -
  assume "unat v < 2 ^ 47"
  then have "unat (pt_index 39 v) < 256" by (simp add: unat_pt_index)
  then show ?thesis by auto
qed

lemma align_down_le: "unat (align_down v PAGE_SIZE) \<le> unat v"
  unfolding unat_align_down_page by (rule div_times_less_eq_dividend)

definition user_flags :: "u64 set" where
  "user_flags = {PTE_RW, PTE_U, PTE_U OR PTE_RW}"

lemma leaf_entry:
  assumes "frame_ok p" "fl \<in> user_flags"
  shows "(p OR (PTE_P OR fl)) AND ADDR_MASK = p" "(p OR (PTE_P OR fl)) AND PTE_U = fl AND PTE_U"
    "(p OR (PTE_P OR fl)) AND PTE_P \<noteq> 0"
proof -
  have fl: "PTE_P OR fl < 4096" "(PTE_P OR fl) AND PTE_U = fl AND PTE_U"
    using assms(2) by (auto simp: user_flags_def pte_flags)
  have "(PTE_P OR fl) AND PTE_P = PTE_P" using assms(2) by (auto simp: user_flags_def pte_flags)
  then show "(p OR (PTE_P OR fl)) AND PTE_P \<noteq> 0"
    using frame_or_flags_low [OF assms(1), of PTE_P "PTE_P OR fl"] by (simp add: PTE_P_def)
  show "(p OR (PTE_P OR fl)) AND ADDR_MASK = p" by (rule frame_or_flags_addr [OF assms(1) fl(1)])
  show "(p OR (PTE_P OR fl)) AND PTE_U = fl AND PTE_U"
    using frame_or_flags_low [OF assms(1), of PTE_U "PTE_P OR fl"] fl(2) by (simp add: PTE_U_def)
qed

text \<open>The path of a page through entries that user mode may follow.\<close>

definition upath :: "memory \<Rightarrow> u64 \<Rightarrow> u64 \<Rightarrow> u64 \<Rightarrow> u64 \<Rightarrow> u64 \<Rightarrow> u64 \<Rightarrow> bool" where
  "upath m root v t3 t2 t1 f \<longleftrightarrow> leads m root (pt_index 39 v) t3 \<and> leads m t3 (pt_index 30 v) t2
     \<and> leads m t2 (pt_index 21 v) t1 \<and> leads m t1 (pt_index 12 v) f"

definition upage :: "memory \<Rightarrow> u64 \<Rightarrow> u64 \<Rightarrow> u64 \<Rightarrow> bool" where
  "upage m root v f \<longleftrightarrow> (\<exists>t3 t2 t1. upath m root v t3 t2 t1 f)"

lemma leads_next:
  assumes "tables_ok root lv U K m" "lv t = Some l" "1 < l" "i < 512" "\<not> (t = root \<and> i = 256)" "leads m t i c"
  shows "lv c = Some (l - 1)"
proof -
  from assms(6) have "te m t i AND PTE_P \<noteq> 0" "te m t i AND ADDR_MASK = c" using user_bits(1) by (auto simp: leads_def)
  then show ?thesis using tables_okD(1) [OF assms(1,2,4,5)] assms(3) by (auto simp: entry_ok_def)
qed

lemma upath_levels:
  assumes "tables_ok root lv U K m" "lv root = Some 4" "unat v < 2 ^ 47" "upath m root v t3 t2 t1 f"
  shows "lv t3 = Some 3" "lv t2 = Some 2" "lv t1 = Some 1" "pslot root lv root (pt_index 39 v)"
    "pslot root lv t3 (pt_index 30 v)" "pslot root lv t2 (pt_index 21 v)" "pslot root lv t1 (pt_index 12 v)"
proof -
  note p = assms(4) [unfolded upath_def]
  show 3: "lv t3 = Some 3" using leads_next [OF assms(1,2), of "pt_index 39 v" t3] low_index [OF assms(3)] p by simp
  then have n3: "t3 \<noteq> root" using assms(2) by auto
  show 2: "lv t2 = Some 2" using leads_next [OF assms(1) 3, of "pt_index 30 v" t2] n3 p by simp
  then have n2: "t2 \<noteq> root" using assms(2) by auto
  show 1: "lv t1 = Some 1" using leads_next [OF assms(1) 2, of "pt_index 21 v" t1] n2 p by simp
  then have n1: "t1 \<noteq> root" using assms(2) by auto
  show "pslot root lv root (pt_index 39 v)" "pslot root lv t3 (pt_index 30 v)" "pslot root lv t2 (pt_index 21 v)"
    "pslot root lv t1 (pt_index 12 v)" using 1 2 3 n1 n2 n3 assms(2) low_index [OF assms(3)] by (simp_all add: pslot_def)
qed

lemma upath_grown:
  assumes "aspace s0 root lv U K s" "grown root lv s lv' s'" "unat v < 2 ^ 47" "upath (mem s) root v t3 t2 t1 f"
  shows "upath (mem s') root v t3 t2 t1 f"
  using upath_levels(4-7) [OF aspaceD(7,2) [OF assms(1)] assms(3,4)] assms(4) grownD(4) [OF assms(2)] unfolding upath_def by blast

lemma pt_index_align:
  assumes "12 \<le> n"
  shows "pt_index n (align_down v PAGE_SIZE) = pt_index n v"
proof -
  obtain k where n: "n = 12 + k" using assms le_Suc_ex by blast
  have "(2 :: nat) ^ n = 4096 * 2 ^ k" by (simp add: n power_add)
  then have "unat v div 4096 * 4096 div 2 ^ n = unat v div 2 ^ n" by (simp add: div_mult2_eq)
  then show ?thesis by (simp add: word_unat_eq_iff unat_pt_index unat_align_down_page)
qed

lemma upath_align: "upath m root (align_down v PAGE_SIZE) t3 t2 t1 f = upath m root v t3 t2 t1 f"
  by (simp add: upath_def pt_index_align)

lemma digits_eq: "a div 512 = b div 512 \<Longrightarrow> a mod 512 = b mod 512 \<Longrightarrow> a = (b :: nat)"
  by (metis div_mult_mod_eq)

lemma same_page:
  assumes "unat v < 2 ^ 47" "unat w < 2 ^ 47" "pt_index 39 v = pt_index 39 w" "pt_index 30 v = pt_index 30 w"
    "pt_index 21 v = pt_index 21 w" "pt_index 12 v = pt_index 12 w"
  shows "page_of v = page_of w"
proof -
  have i: "unat v div 2 ^ n mod 512 = unat w div 2 ^ n mod 512" if "pt_index n v = pt_index n w" for n
    using that by (simp add: word_unat_eq_iff unat_pt_index)
  have d: "x div 2 ^ (n + 9) = x div 2 ^ n div 512" for x n :: nat by (simp add: div_mult2_eq power_add)
  have s: "unat v div 2 ^ n = unat w div 2 ^ n" if "pt_index n v = pt_index n w" "unat v div 2 ^ (n + 9) = unat w div 2 ^ (n + 9)" for n
    using digits_eq [OF _ i [OF that(1)]] that(2) unfolding d by blast
  have "unat v div 2 ^ 48 = unat w div 2 ^ 48" using assms(1,2) by simp
  then have "unat v div 2 ^ 39 = unat w div 2 ^ 39" using s [OF assms(3)] by simp
  then have "unat v div 2 ^ 30 = unat w div 2 ^ 30" using s [OF assms(4)] by simp
  then have "unat v div 2 ^ 21 = unat w div 2 ^ 21" using s [OF assms(5)] by simp
  then have "unat v div 2 ^ 12 = unat w div 2 ^ 12" using s [OF assms(6)] by simp
  then show ?thesis by (simp add: page_of_def)
qed

text \<open>Two pages whose paths end at the same entry are the same.\<close>

lemma upath_inj:
  assumes "aspace s0 root lv U K s" "unat v < 2 ^ 47" "unat w < 2 ^ 47" "upath (mem s) root v t3 t2 t1 f"
    "upath (mem s) root w u3 u2 u1 g" "t1 = u1" "pt_index 12 v = pt_index 12 w"
  shows "page_of v = page_of w"
proof -
  note d = aspaceD [OF assms(1)]
  note a = upath_levels [OF d(7,2) assms(2,4)] and b = upath_levels [OF d(7,2) assms(3,5)]
  note p = assms(4,5) [unfolded upath_def]
  have nk: "c \<notin> K" if "lv c = Some l" for c l using d(6) [of c] that by auto
  note u = unsharedD [OF d(11) _ _ leads_points leads_points]
  have 2: "t2 = u2" "pt_index 21 v = pt_index 21 w" using u [OF a(6) b(6), of t1] p assms(6) nk [OF a(3)] by auto
  have 3: "t3 = u3" "pt_index 30 v = pt_index 30 w" using u [OF a(5) b(5), of t2] p 2 nk [OF a(2)] by auto
  have "pt_index 39 v = pt_index 39 w" using u(2) [OF a(4) b(4), of t3] p 3 nk [OF a(1)] by auto
  then show ?thesis using same_page assms(2,3,7) 2 3 by blast
qed

text \<open>The three tables above a page, found or made.\<close>

definition utables :: "memory \<Rightarrow> u64 \<Rightarrow> (u64 \<rightharpoonup> nat) \<Rightarrow> u64 \<Rightarrow> u64 \<Rightarrow> u64 \<Rightarrow> u64 \<Rightarrow> bool" where
  "utables m root lv v t3 t2 t1 \<longleftrightarrow> lv t3 = Some 3 \<and> lv t2 = Some 2 \<and> leads m root (pt_index 39 v) t3
     \<and> leads m t3 (pt_index 30 v) t2 \<and> leads m t2 (pt_index 21 v) t1"

lemma aspace_descend3:
  fixes s :: "'z pmm_state_scheme"
  assumes "aspace s0 root lv U K s" "unat v < 2 ^ 47" "get_or_alloc_table (table_entry_mut root (pt_index 39 v)) fl s = Inr (t3, s1)"
    "get_or_alloc_table (table_entry_mut t3 (pt_index 30 v)) fl s1 = Inr (t2, s2)"
    "get_or_alloc_table (table_entry_mut t2 (pt_index 21 v)) fl s2 = Inr (t1, s3)"
  obtains lv' where "aspace s0 root lv' U K s3" "grown root lv s lv' s3" "lv' t1 = Some 1"
    "fl AND PTE_U \<noteq> 0 \<Longrightarrow> utables (mem s3) root lv' v t3 t2 t1"
proof -
  have ix: "pt_index 39 v \<noteq> 256" by (rule low_index [OF assms(2)])
  note r = aspaceD(2)
  obtain lv1 where a: "aspace s0 root lv1 U K s1" "lv1 t3 = Some 3" "grown root lv s lv1 s1"
    "fl AND PTE_U \<noteq> 0 \<Longrightarrow> leads (mem s1) root (pt_index 39 v) t3"
    by (rule aspace_descend [OF assms(1) r [OF assms(1)] _ pt_index_bound _ assms(3)]) (use ix in simp_all)
  have n3: "t3 \<noteq> root" using a(2) r [OF a(1)] by auto
  obtain lv2 where b: "aspace s0 root lv2 U K s2" "lv2 t2 = Some 2" "grown root lv1 s1 lv2 s2"
    "fl AND PTE_U \<noteq> 0 \<Longrightarrow> leads (mem s2) t3 (pt_index 30 v) t2"
    by (rule aspace_descend [OF a(1,2) _ pt_index_bound _ assms(4)]) (use n3 in simp_all)
  have n2: "t2 \<noteq> root" using b(2) r [OF b(1)] by auto
  obtain lv3 where c: "aspace s0 root lv3 U K s3" "lv3 t1 = Some 1" "grown root lv2 s2 lv3 s3"
    "fl AND PTE_U \<noteq> 0 \<Longrightarrow> leads (mem s3) t2 (pt_index 21 v) t1"
    by (rule aspace_descend [OF b(1,2) _ pt_index_bound _ assms(5)]) (use n2 in simp_all)
  have l2: "lv2 t3 = Some 3" using grownD(1) [OF b(3)] a(2) by (metis domI map_le_def)
  have l3: "lv3 t3 = Some 3" "lv3 t2 = Some 2" using grownD(1) [OF c(3)] l2 b(2) by (metis domI map_le_def)+
  have "utables (mem s3) root lv3 v t3 t2 t1" if u: "fl AND PTE_U \<noteq> 0"
  proof -
    have "leads (mem s3) root (pt_index 39 v) t3"
      using grownD(4) [OF grown_trans [OF b(3) c(3)]] a(4) [OF u] r [OF a(1)] ix by (auto simp: pslot_def)
    moreover have "leads (mem s3) t3 (pt_index 30 v) t2" using grownD(4) [OF c(3)] b(4) [OF u] l2 n3 by (auto simp: pslot_def)
    ultimately show ?thesis using l3 c(4) [OF u] by (simp add: utables_def)
  qed
  with that c(1,2) grown_trans [OF grown_trans [OF a(3) b(3)] c(3)] show thesis by blast
qed

text \<open>The entry of the page is written: the page leads to \<open>p\<close>, and no other page is affected.\<close>

lemma aspace_leaf_set:
  fixes s :: "'z pmm_state_scheme"
  assumes "aspace s0 root lv U K s" "lv t1 = Some 1" "unat v < 2 ^ 47" "frame_ok p" "fl \<in> user_flags"
    "p \<in> U \<and> unled root lv p (mem s) \<or> fl = PTE_RW \<and> p \<in> K"
    "s' = s\<lparr>mem := wr64 (mem s) (entry t1 (pt_index 12 v)) (p OR (PTE_P OR fl))\<rparr>"
  shows "aspace s0 root lv U K s'" "mem s' a \<noteq> mem s a \<Longrightarrow> page_of a = unat t1"
    "fl AND PTE_U \<noteq> 0 \<Longrightarrow> utables (mem s) root lv v t3 t2 t1 \<Longrightarrow> upage (mem s') root v p"
    "utables (mem s) root lv v t3 t2 t1 \<Longrightarrow> unat w < 2 ^ 47 \<Longrightarrow> page_of w \<noteq> page_of v \<Longrightarrow> upage (mem s) root w f \<Longrightarrow> upage (mem s') root w f"
proof -
  note d = aspaceD [OF assms(1)] and le = leaf_entry [OF assms(4,5)]
  have n1: "t1 \<noteq> root" using assms(2) d(2) by auto
  have ft: "frame_ok t1" using d(4) [of t1] assms(2) by auto
  have "PTE_RW AND PTE_U = 0" by (simp add: pte_flags)
  then have "entry_ok lv U K 1 (p OR (PTE_P OR fl))" using le assms(6) by (auto simp: entry_ok_def)
  then show "aspace s0 root lv U K s'"
    unfolding assms(7) by (intro aspace_entry [OF assms(1,2) pt_index_bound]) (use n1 assms(6) le in \<open>auto simp: unled_def\<close>)
  show "page_of a = unat t1" if "mem s' a \<noteq> mem s a"
    using that wr64_outside [of a _ "mem s"] page_of_span [OF ft pt_index_bound, of a] by (auto simp: assms(7))
  have te: "te (mem s') t j = (if t1 = t \<and> pt_index 12 v = j then p OR (PTE_P OR fl) else te (mem s) t j)" if "pslot root lv t j" for t j
    using that d(4) [of t] te_wr64 [OF ft pt_index_bound, of t j] by (auto simp: assms(7) pslot_def)
  have keep: "leads (mem s') t j x" if "pslot root lv t j" "leads (mem s) t j x" "\<not> (t = t1 \<and> j = pt_index 12 v)" for t j x
    using te [OF that(1)] that(2,3) leads_te by metis
  show "upage (mem s') root v p" if "fl AND PTE_U \<noteq> 0" "utables (mem s) root lv v t3 t2 t1"
  proof -
    note u = that(2) [unfolded utables_def]
    have n: "t3 \<noteq> root" "t2 \<noteq> root" "t3 \<noteq> t1" "t2 \<noteq> t1" using u assms(2) d(2) by auto
    have ps: "pslot root lv root (pt_index 39 v)" "pslot root lv t3 (pt_index 30 v)" "pslot root lv t2 (pt_index 21 v)"
      using u d(2) n low_index [OF assms(3)] by (simp_all add: pslot_def)
    have "leads (mem s') root (pt_index 39 v) t3" "leads (mem s') t3 (pt_index 30 v) t2" "leads (mem s') t2 (pt_index 21 v) t1"
      using keep [OF ps(1)] keep [OF ps(2)] keep [OF ps(3)] u n n1 by auto
    moreover have "leads (mem s') t1 (pt_index 12 v) p" using te [of t1 "pt_index 12 v"] assms(2) n1 le that(1)
      by (auto simp: leads_def pslot_def user_bits_iff)
    ultimately show ?thesis unfolding upage_def upath_def by blast
  qed
  show "upage (mem s') root w f"
    if u: "utables (mem s) root lv v t3 t2 t1" and w: "unat w < 2 ^ 47" "page_of w \<noteq> page_of v" "upage (mem s) root w f"
  proof -
    from w(3) obtain u3 u2 u1 where q: "upath (mem s) root w u3 u2 u1 f" unfolding upage_def by blast
    note l = upath_levels [OF d(7,2) w(1) q]
    have "upath (mem s) root v t3 t2 t1 f" if "u1 = t1" "pt_index 12 w = pt_index 12 v"
      using u q that unfolding upath_def utables_def by metis
    then have "\<not> (u1 = t1 \<and> pt_index 12 w = pt_index 12 v)" using upath_inj [OF assms(1) w(1) assms(3) q] w(2) by blast
    moreover have "u3 \<noteq> t1" "u2 \<noteq> t1" using l assms(2) by auto
    ultimately have "upath (mem s') root w u3 u2 u1 f"
      using keep [OF l(4)] keep [OF l(5)] keep [OF l(6)] keep [OF l(7)] q n1 unfolding upath_def by auto
    then show ?thesis unfolding upage_def by blast
  qed
qed

lemma aspace_map:
  fixes s :: "'z pmm_state_scheme"
  assumes "aspace s0 root lv U K s" "map_4k root v p fl s = Inr s'" "unat v < 2 ^ 47" "frame_ok p" "fl \<in> user_flags"
    "p \<in> U \<and> used p s \<and> unled root lv p (mem s) \<or> fl = PTE_RW \<and> p \<in> K"
  obtains lv' where "aspace s0 root lv' U K s'" "fl AND PTE_U \<noteq> 0 \<Longrightarrow> upage (mem s') root v p"
    "\<And>w f. fl AND PTE_U \<noteq> 0 \<Longrightarrow> unat w < 2 ^ 47 \<Longrightarrow> page_of w \<noteq> page_of v \<Longrightarrow> upage (mem s) root w f \<Longrightarrow> upage (mem s') root w f"
    "\<And>a. mem s' a \<noteq> mem s a \<Longrightarrow> page_of a \<in> unat ` dom lv'"
proof -
  have ad: "align_down p PAGE_SIZE = p"
    using assms(4) unfolding word_unat_eq_iff unat_align_down_page by (auto simp: frame_ok_def)
  from assms(2) obtain t3 s1 t2 s2 t1 s3 where
    g: "get_or_alloc_table (table_entry_mut root (pt_index 39 v)) fl s = Inr (t3, s1)"
      "get_or_alloc_table (table_entry_mut t3 (pt_index 30 v)) fl s1 = Inr (t2, s2)"
      "get_or_alloc_table (table_entry_mut t2 (pt_index 21 v)) fl s2 = Inr (t1, s3)" and
    s': "s' = s3\<lparr>mem := wr64 (mem s3) (entry t1 (pt_index 12 v)) (p OR (PTE_P OR fl))\<rparr>"
    by (auto simp: map_4k_def Let_def ad vwrite_entry pt_index_align elim!: and_then_InrE)
  obtain lv' where a: "aspace s0 root lv' U K s3" "grown root lv s lv' s3" "lv' t1 = Some 1"
    "fl AND PTE_U \<noteq> 0 \<Longrightarrow> utables (mem s3) root lv' v t3 t2 t1"
    by (rule aspace_descend3 [OF assms(1,3) g]) blast
  have "p \<in> U \<and> unled root lv' p (mem s3) \<or> fl = PTE_RW \<and> p \<in> K" using assms(6) grownD(3) [OF a(2)] by blast
  note l = aspace_leaf_set [OF a(1,3) assms(3-5) this s']
  show thesis
  proof (rule that [OF l(1)])
    show "upage (mem s') root v p" if "fl AND PTE_U \<noteq> 0" by (rule l(3) [OF that a(4) [OF that]])
    show "upage (mem s') root w f" if u: "fl AND PTE_U \<noteq> 0" and w: "unat w < 2 ^ 47" "page_of w \<noteq> page_of v" "upage (mem s) root w f" for w f
    proof (rule l(4) [OF a(4) [OF u] w(1,2)])
      show "upage (mem s3) root w f" using w(3) upath_grown [OF assms(1) a(2) w(1)] unfolding upage_def by blast
    qed
    show "page_of x \<in> unat ` dom lv'" if "mem s' x \<noteq> mem s x" for x
      using that l(2) [of x] grownD(5) [OF a(2), of x] a(3) by force
  qed
qed

section \<open>The parts of the construction\<close>

lemma aspace_identity:
  fixes s :: "'z pmm_state_scheme"
  assumes "aspace s0 root lv U K s" "map_identity root p e s = Inr s'" "4096 dvd unat p" "unat e \<le> 2 ^ 47"
    "\<And>q. p \<le> q \<Longrightarrow> q < e \<Longrightarrow> 4096 dvd unat q \<Longrightarrow> q \<in> K"
  shows "\<exists>lv'. aspace s0 root lv' U K s'"
  using assms
proof (induction root p e s arbitrary: lv rule: map_identity.induct)
  case (1 root p e s)
  show ?case
  proof (cases "p < e")
    case True
    with 1(3) obtain s1 p' where
      m: "map_4k root p p PTE_RW s = Inr s1" "add_chk p PAGE_SIZE = Inr p'" "map_identity root p' e s1 = Inr s'"
      by (subst (asm) map_identity.simps) (auto elim!: and_then_InrE)
    have p': "unat p' = unat p + 4096" using m(2) by (auto simp: add_chk_nat unat_add_no_wrap split: if_splits)
    have lt: "unat p < 2 ^ 47" using True 1(5) by (simp add: word_less_nat_alt)
    then have "frame_ok p" using 1(4) by (simp add: frame_ok_def)
    moreover have "p \<in> K" using 1(6) True 1(4) by simp
    ultimately obtain lv1 where a: "aspace s0 root lv1 U K s1"
      using aspace_map [OF 1(2) m(1) lt, of thesis] by (auto simp: user_flags_def)
    show ?thesis
    proof (rule 1(1) [OF True m(1,2) a m(3) _ 1(5)])
      show "4096 dvd unat p'" using 1(4) p' by simp
      show "q \<in> K" if "p' \<le> q" "q < e" "4096 dvd unat q" for q
        using 1(6) [of q] that p' by (simp add: word_le_nat_alt)
    qed
  next
    case False
    then show ?thesis using 1(2,3) by (subst (asm) map_identity.simps) auto
  qed
qed

text \<open>What the pages outside \<open>L\<close> lead to, and the bytes of the frames \<open>U\<close>, stay.\<close>

definition extends :: "u64 \<Rightarrow> u64 set \<Rightarrow> nat set \<Rightarrow> 'z machine_scheme \<Rightarrow> 'z machine_scheme \<Rightarrow> bool" where
  "extends root U L s s' \<longleftrightarrow>
     (\<forall>w f. unat w < 2 ^ 47 \<longrightarrow> page_of w \<notin> L \<longrightarrow> upage (mem s) root w f \<longrightarrow> upage (mem s') root w f)
     \<and> (\<forall>a. page_of a \<in> unat ` U \<longrightarrow> mem s' a = mem s a)"

lemma extendsD:
  assumes "extends root U L s s'"
  shows "unat w < 2 ^ 47 \<Longrightarrow> page_of w \<notin> L \<Longrightarrow> upage (mem s) root w f \<Longrightarrow> upage (mem s') root w f"
    "page_of a \<in> unat ` U \<Longrightarrow> mem s' a = mem s a"
  using assms unfolding extends_def by blast+

lemma extends_refl: "extends root U L s s"
  by (simp add: extends_def)

lemma extends_trans:
  assumes "extends root U L s s1" "extends root U' L s1 s2" "U \<subseteq> U'"
  shows "extends root U L s s2"
  unfolding extends_def using extendsD [OF assms(1)] extendsD [OF assms(2)] image_mono [OF assms(3), of unat] by (metis subsetD)

lemma extends_mono: "extends root U L s s' \<Longrightarrow> L \<subseteq> L' \<Longrightarrow> extends root U L' s s'"
  unfolding extends_def by blast

lemma aspace_user_page:
  fixes s :: "'z pmm_state_scheme"
  assumes "aspace s0 root lv U K s" "alloc_frame s = Inr (Some p, s1)" "map_4k root v p fl s1 = Inr s2"
    "unat v < 2 ^ 47" "fl \<in> user_flags" "fl AND PTE_U \<noteq> 0"
  shows "\<exists>lv'. aspace s0 root lv' (insert p U) K s2" "upage (mem s2) root v p" "extends root U {page_of v} s s2"
proof -
  note a = assms(2) [unfolded alloc_frame_def]
  note f = aspace_frame(1) [OF assms(1) a] and g = alloc_fresh [OF assms(1) a]
  have p: "frame_ok p" using aspaceD(5) [OF f, of p] by auto
  have "unled root lv p (mem s1)"
    unfolding unled_def g(8) using points_target [OF aspaceD(7) [OF assms(1)]] g(3-5) by blast
  then have q: "p \<in> insert p U \<and> used p s1 \<and> unled root lv p (mem s1) \<or> fl = PTE_RW \<and> p \<in> K" using g(2) by simp
  obtain lv' where h: "aspace s0 root lv' (insert p U) K s2" "fl AND PTE_U \<noteq> 0 \<Longrightarrow> upage (mem s2) root v p"
    "\<And>w f. fl AND PTE_U \<noteq> 0 \<Longrightarrow> unat w < 2 ^ 47 \<Longrightarrow> page_of w \<noteq> page_of v \<Longrightarrow> upage (mem s1) root w f \<Longrightarrow> upage (mem s2) root w f"
    "\<And>a. mem s2 a \<noteq> mem s1 a \<Longrightarrow> page_of a \<in> unat ` dom lv'"
    by (rule aspace_map [OF f assms(3,4) p assms(5) q]) blast
  show "\<exists>lv'. aspace s0 root lv' (insert p U) K s2" "upage (mem s2) root v p" using h(1,2) assms(6) by blast+
  have "mem s2 b = mem s b" if "page_of b \<in> unat ` U" for b
  proof (rule ccontr)
    assume "mem s2 b \<noteq> mem s b"
    then obtain t where t: "page_of b = unat t" "lv' t \<noteq> None" using h(4) [of b] g(8) by auto
    then have "t \<in> U" using that by (metis imageE word_unat_eq_iff)
    then show False using aspaceD(5) [OF h(1), of t] t(2) by simp
  qed
  then show "extends root U {page_of v} s s2" unfolding extends_def using h(3) [OF assms(6)] g(8) by auto
qed

lemma aspace_stack:
  fixes s :: "'z pmm_state_scheme"
  assumes "aspace s0 root lv U K s" "map_stack root is s = Inr s'" "\<forall>i \<in> set is. i < 4"
  shows "\<exists>lv' U'. aspace s0 root lv' U' K s'"
  using assms
proof (induction "is" arbitrary: lv U s)
  case (Cons i "is")
  let ?v = "USER_STACK_TOP - 4 * PAGE_SIZE + of_nat i * PAGE_SIZE"
  from Cons(3) obtain p s1 s2 where
    m: "alloc_frame s = Inr (Some p, s1)" "map_4k root ?v p (PTE_U OR PTE_RW) s1 = Inr s2" "map_stack root is s2 = Inr s'"
    by (auto elim!: and_then_InrE)
  have "i \<in> {0, 1, 2, 3}" using Cons(4) by auto
  then have "unat ?v < 2 ^ 47" by (auto simp: USER_STACK_TOP_def)
  moreover have "(PTE_U OR PTE_RW) AND PTE_U \<noteq> 0" by (simp add: pte_flags)
  ultimately obtain lv1 where "aspace s0 root lv1 (insert p U) K s2"
    using aspace_user_page(1) [OF Cons(2) m(1,2)] by (auto simp: user_flags_def)
  from Cons(1) [OF this m(3)] Cons(4) show ?case by simp
qed auto

text \<open>The direct map: its tables are kernel frames, reached only through entry 256.\<close>

lemma aspace_kwrite:
  assumes "aspace s0 root lv U K s" "f \<in> U \<union> K" "i < 512"
  shows "aspace s0 root lv U K (s\<lparr>mem := wr64 (mem s) (entry f i) v\<rparr>)"
proof (rule aspace_mem [OF assms(1)])
  fix a assume "wr64 (mem s) (entry f i) v a \<noteq> mem s a"
  then have "a \<in> span8 (entry f i)" using wr64_outside by metis
  moreover have "frame_ok f" using aspaceD(5,6) [OF assms(1), of f] assms(2) by auto
  ultimately have "page_of a = unat f" using page_of_span assms(3) by blast
  then show "page_of a \<in> unat ` (U \<union> K)" using assms(2) by simp
qed

lemma aspace_ktable:
  assumes "aspace s0 root lv U K s" "user_alloc_table s = Inr (c, s')"
  shows "aspace s0 root lv U (insert c K) s'" "unat c \<in> pmm_free s0"
proof -
  from assms(2) obtain s1 where a: "alloc_pages 1 s = Inr (Some c, s1)" and s': "s' = s1\<lparr>mem := zero_frame c (mem s1)\<rparr>"
    by (auto simp: user_alloc_table_def alloc_table_msg_def zero_page_def elim!: and_then_InrE)
  note f = aspace_frame(2) [OF assms(1) a] and g = alloc_fresh [OF assms(1) a]
  show "unat c \<in> pmm_free s0" by (rule g)
  show "aspace s0 root lv U (insert c K) s'"
    unfolding s' by (rule aspace_mem [OF f]) (use page_of_zero g(2) in \<open>auto dest!: used_frame\<close>)
qed

lemma aspace_fill:
  assumes "aspace s0 root lv U K s" "f \<in> K"
  shows "aspace s0 root lv U K (hhdm_fill_pd f base s)"
proof -
  have "aspace s0 root lv U K (fold (\<lambda>j s. vwrite64 (table_entry_mut f (of_nat j)) (g j) s) js s)"
    if "\<forall>j \<in> set js. j < 512" for js g
    using assms that
  proof (induction js arbitrary: s)
    case (Cons j js)
    then show ?case using aspace_kwrite [OF Cons(2), of f "of_nat j" "g j"] of_nat_512(1) [of j] by (simp add: vwrite_entry)
  qed simp
  then show ?thesis unfolding hhdm_fill_pd_def by simp
qed

definition kernel_grows :: "'z pmm_state_scheme \<Rightarrow> u64 set \<Rightarrow> u64 set \<Rightarrow> bool" where
  "kernel_grows s0 K K' \<longleftrightarrow> K \<subseteq> K' \<and> unat ` K' \<subseteq> unat ` K \<union> pmm_free s0"

lemma kernel_grows_insert: "kernel_grows s0 (insert p K) K' \<Longrightarrow> unat p \<in> pmm_free s0 \<Longrightarrow> kernel_grows s0 K K'"
  by (auto simp: kernel_grows_def)

lemma aspace_chunks:
  fixes s :: "'z pmm_state_scheme"
  assumes "aspace s0 root lv U K s" "hhdm_chunks pdpt is s = Inr s'" "pdpt \<in> K" "\<forall>i \<in> set is. i < 512"
  shows "\<exists>K'. aspace s0 root lv U K' s' \<and> kernel_grows s0 K K'"
  using assms
proof (induction "is" arbitrary: K s)
  case Nil
  then show ?case by (auto simp: kernel_grows_def)
next
  case (Cons i "is")
  from Cons(3) obtain pd s1 where a: "user_alloc_table s = Inr (pd, s1)"
    and r: "hhdm_chunks pdpt is (hhdm_fill_pd pd (of_nat i * (1024 * 1024 * 1024))
      (vwrite64 (table_entry_mut pdpt (of_nat i)) (pd OR (PTE_P OR PTE_RW)) s1)) = Inr s'"
    by (auto simp: Let_def elim!: and_then_InrE)
  note t = aspace_ktable [OF Cons(2) a]
  have "(of_nat i :: u64) < 512" using Cons(5) of_nat_512(1) by simp
  then have "aspace s0 root lv U (insert pd K) (vwrite64 (table_entry_mut pdpt (of_nat i)) (pd OR (PTE_P OR PTE_RW)) s1)"
    unfolding vwrite_entry using aspace_kwrite [OF t(1), of pdpt] Cons(4) by simp
  from Cons(1) [OF aspace_fill [OF this, of pd] r] Cons(4,5) obtain K' where
    "aspace s0 root lv U K' s'" "kernel_grows s0 (insert pd K) K'" by auto
  then show ?case using kernel_grows_insert [OF _ t(2)] by blast
qed

lemma aspace_hhdm:
  fixes s :: "'z pmm_state_scheme"
  assumes "aspace s0 root lv U K s" "map_hhdm_huge root m s = Inr s'"
  shows "\<exists>K'. aspace s0 root lv U K' s' \<and> kernel_grows s0 K K'"
proof -
  from assms(2) obtain e n pdpt s1 where n: "pdpt_entries_for m = Inr (e, n)" and a: "user_alloc_table s = Inr (pdpt, s1)"
    and c: "hhdm_chunks pdpt [0..<n] (vwrite64 (table_entry_mut root 256) (pdpt OR (PTE_P OR PTE_RW)) s1) = Inr s'"
    by (auto simp: map_hhdm_huge_def Let_def elim!: and_then_InrE)
  have n512: "n \<le> 512" using n by (auto simp: pdpt_entries_for_def min_def word_le_nat_alt elim!: and_then_InrE)
  note t = aspace_ktable [OF assms(1) a]
  have f: "frame_ok pdpt" using aspaceD(6) [OF t(1), of pdpt] by auto
  have "(pdpt OR (PTE_P OR PTE_RW)) AND PTE_U = 0"
    using frame_or_flags_low [OF f, of PTE_U "PTE_P OR PTE_RW"] by (simp add: pte_flags)
  then have "aspace s0 root lv U (insert pdpt K) (vwrite64 (table_entry_mut root 256) (pdpt OR (PTE_P OR PTE_RW)) s1)"
    unfolding vwrite_entry by (intro aspace_entry [OF t(1) aspaceD(2) [OF t(1)]]) (auto simp: pslot_def)
  from aspace_chunks [OF this c] n512 obtain K' where "aspace s0 root lv U K' s'" "kernel_grows s0 (insert pdpt K) K'"
    by auto
  then show ?thesis using kernel_grows_insert [OF _ t(2)] by blast
qed

end
