(* ===== verification/User_Load.thy ===== *)
theory User_Load
  imports Addr_Space
begin

text \<open>
  Loading a program into an address space: the loader of \<^verbatim>\<open>user.rs\<close> keeps the invariant of the construction, and
  what it stores is what user mode finds there. Both loops of the loader are instances of \<open>store_user\<close>; that it acts as
  an update of the memory user mode sees rests on no two pages of a process sharing a frame.
\<close>

section \<open>Loading the program\<close>

lemma page_of_offset:
  assumes "frame_ok f"
  shows "page_of (f + (v AND 0xfff)) = unat f"
proof -
  have "v AND 0xfff = take_bit 12 v" by (simp add: take_bit_eq_mask mask_eq_exp_minus_1)
  then have o: "unat (v AND 0xfff) < 4096" by (simp add: unat_take_bit_word)
  obtain k where k: "unat f = 4096 * k" using assms by (rule frame_okE)
  have "unat (f + (v AND 0xfff)) = unat f + unat (v AND 0xfff)"
    using frame_ok_room [OF assms] o by (intro unat_add_no_wrap) simp
  then show ?thesis using o k by (simp add: page_of_def)
qed

text \<open>A level of a translation: the entry is present and not the direct map, so it leads where it may.\<close>

lemma aspace_next:
  assumes "tables_ok root lv U K m" "lv t = Some l" "1 < l" "i < 512" "\<not> (t = root \<and> i = 256)" "te m t i AND PTE_P \<noteq> 0"
  shows "lv (te m t i AND ADDR_MASK) = Some (l - 1)" "te m t i AND PTE_PS = 0"
  using tables_okD(1) [OF assms(1,2,4,5)] assms(3,6) by (auto simp: entry_ok_def)

lemma aspace_leaf:
  assumes "tables_ok root lv U K m" "lv t = Some 1" "lv root = Some 4" "i < 512" "te m t i AND PTE_P \<noteq> 0"
  shows "te m t i AND ADDR_MASK \<in> U \<or> te m t i AND PTE_U = 0 \<and> te m t i AND ADDR_MASK \<in> K"
proof -
  have "t \<noteq> root" using assms(2,3) by auto
  then show ?thesis using tables_okD(1) [OF assms(1,2,4)] assms(5) by (auto simp: entry_ok_def)
qed

lemma aspace_translate:
  assumes "aspace s0 root lv U K s" "unat v < 2 ^ 47" "translate_4k root v s = Some pa"
  shows "page_of pa \<in> unat ` (U \<union> K)"
proof -
  note d = aspaceD [OF assms(1)]
  let ?e4 = "te (mem s) root (pt_index 39 v)"
  let ?e3 = "te (mem s) (?e4 AND ADDR_MASK) (pt_index 30 v)"
  let ?e2 = "te (mem s) (?e3 AND ADDR_MASK) (pt_index 21 v)"
  let ?e1 = "te (mem s) (?e2 AND ADDR_MASK) (pt_index 12 v)"
  have p: "?e4 AND PTE_P \<noteq> 0" "?e3 AND PTE_P \<noteq> 0" "?e2 AND PTE_P \<noteq> 0" "?e1 AND PTE_P \<noteq> 0"
    and pa: "pa = (?e1 AND ADDR_MASK) + (v AND 0xfff)"
    using assms(3) by (auto simp: translate_4k_def vread_entry Let_def split: if_splits)
  have l3: "lv (?e4 AND ADDR_MASK) = Some 3"
    using aspace_next(1) [OF d(7,2) _ pt_index_bound _ p(1)] low_index [OF assms(2)] by simp
  then have "?e4 AND ADDR_MASK \<noteq> root" using d(2) by auto
  then have l2: "lv (?e3 AND ADDR_MASK) = Some 2" using aspace_next(1) [OF d(7) l3 _ pt_index_bound _ p(2)] by simp
  then have "?e3 AND ADDR_MASK \<noteq> root" using d(2) by auto
  then have l1: "lv (?e2 AND ADDR_MASK) = Some 1" using aspace_next(1) [OF d(7) l2 _ pt_index_bound _ p(3)] by simp
  have f: "?e1 AND ADDR_MASK \<in> U \<union> K" using aspace_leaf [OF d(7) l1 d(2) pt_index_bound p(4)] by blast
  then have "frame_ok (?e1 AND ADDR_MASK)" using d(5,6) by (auto dest: used_frame)
  from page_of_offset [OF this] show ?thesis unfolding pa using f by (metis imageI)
qed

lemma aspace_byte:
  assumes "aspace s0 root lv U K s" "page_of pa \<in> unat ` (U \<union> K)"
  shows "aspace s0 root lv U K (vwrite8 (phys_to_virt pa) b s)"
proof -
  have "phys_to_virt pa - HHDM_BASE = pa" by (simp add: phys_to_virt_def)
  then show ?thesis
    unfolding vwrite8_def using aspace_mem [OF assms(1), of "(mem s)(pa := b)"] assms(2) by (auto split: if_splits)
qed

section \<open>Storing into user memory\<close>

text \<open>The loops that copy file bytes and clear the rest both store \<open>g k\<close> at the virtual address \<open>b + k\<close>, for \<open>n\<close>
  values of \<open>k\<close> from \<open>off\<close>.\<close>

fun store_user ::
  "u64 \<Rightarrow> u64 \<Rightarrow> (nat \<Rightarrow> u8) \<Rightarrow> nat \<Rightarrow> nat \<Rightarrow> 'z machine_scheme \<Rightarrow> (unit option \<times> 'z machine_scheme) outcome" where
  "store_user root b g off 0 s = Inr (Some (), s)"
| "store_user root b g off (Suc n) s =
     and_then (add_chk b (of_nat off)) (\<lambda>va. case translate_4k root va s of
       None \<Rightarrow> Inr (None, s)
     | Some pa \<Rightarrow> store_user root b g (Suc off) n (vwrite8 (phys_to_virt pa) (g off) s))"

lemma copy_store:
  "copy_file root va elf foff off n s = Inr x \<Longrightarrow> store_user root va (\<lambda>k. elf ! (foff + k)) off n s = Inr x"
  "foff + (off + n) \<le> length elf \<Longrightarrow> copy_file root va elf foff off n s = store_user root va (\<lambda>k. elf ! (foff + k)) off n s"
  by (induction n arbitrary: off s) (auto simp: aget_def split: option.splits if_splits elim!: and_then_InrE cong: option.case_cong)

lemma bss_store:
  "zero_bss root va fsz off n s = Inr x \<Longrightarrow> n = 0 \<or> (\<exists>b. add_chk va fsz = Inr b)"
  "add_chk va fsz = Inr b \<Longrightarrow> zero_bss root va fsz off n s = store_user root b (\<lambda>_. 0) off n s"
  by (cases n, auto elim!: and_then_InrE) (induction n arbitrary: off s; simp cong: option.case_cong)

lemma add_chk_low:
  fixes b :: u64
  assumes "add_chk b (of_nat k) = Inr w" "unat b + k < 2 ^ 64"
  shows "w = b + of_nat k" "unat w = unat b + k"
proof -
  have "unat (of_nat k :: u64) = k" using assms(2) by (simp add: unat_of_nat)
  then show "w = b + of_nat k" "unat w = unat b + k" using assms by (auto simp: add_chk_nat unat_add_no_wrap split: if_splits)
qed

lemma aspace_store:
  fixes s :: "'z pmm_state_scheme"
  assumes "aspace s0 root lv U K s" "store_user root b g off n s = Inr (r, s')" "unat b + (off + n) \<le> 2 ^ 47"
  shows "aspace s0 root lv U K s'"
  using assms
proof (induction n arbitrary: off s)
  case (Suc n)
  from Suc(3) obtain w where w: "add_chk b (of_nat off) = Inr w" and k: "(case translate_4k root w s of None \<Rightarrow> Inr (None, s)
       | Some pa \<Rightarrow> store_user root b g (Suc off) n (vwrite8 (phys_to_virt pa) (g off) s)) = Inr (r, s')"
    by (auto elim!: and_then_InrE)
  have lo: "unat w < 2 ^ 47" using add_chk_low(2) [OF w] Suc(4) by simp
  show ?case
  proof (cases "translate_4k root w s")
    case None
    then show ?thesis using k Suc(2) by simp
  next
    case (Some pa)
    with k have "store_user root b g (Suc off) n (vwrite8 (phys_to_virt pa) (g off) s) = Inr (r, s')" by simp
    from Suc(1) [OF aspace_byte [OF Suc(2) aspace_translate [OF Suc(2) lo Some]] this] Suc(4) show ?thesis by simp
  qed
qed simp

text \<open>A page that is mapped for user mode: where kernel and processor find it, that pages do not overlap, and that
  writes to memory outside the tables do not move it.\<close>

lemma upage_facts:
  assumes "aspace s0 root lv U K s" "unat v < 2 ^ 47" "upage (mem s) root v f"
  shows "f \<in> U" "frame_ok f" "translate_4k root v s = Some (f + (v AND 0xfff))"
    "mmu_user_walk (mem s) root v = Some (f + (v AND 0xfff))"
proof -
  note d = aspaceD [OF assms(1)]
  from assms(3) obtain t3 t2 t1 where p: "upath (mem s) root v t3 t2 t1 f" unfolding upage_def by blast
  note l = upath_levels [OF d(7,2) assms(2) p]
  have q: "te (mem s) root (pt_index 39 v) AND ADDR_MASK = t3" "te (mem s) t3 (pt_index 30 v) AND ADDR_MASK = t2"
    "te (mem s) t2 (pt_index 21 v) AND ADDR_MASK = t1" "te (mem s) t1 (pt_index 12 v) AND ADDR_MASK = f"
    "te (mem s) root (pt_index 39 v) AND (PTE_P OR PTE_U) = PTE_P OR PTE_U" "te (mem s) t3 (pt_index 30 v) AND (PTE_P OR PTE_U) = PTE_P OR PTE_U"
    "te (mem s) t2 (pt_index 21 v) AND (PTE_P OR PTE_U) = PTE_P OR PTE_U" "te (mem s) t1 (pt_index 12 v) AND (PTE_P OR PTE_U) = PTE_P OR PTE_U"
    using p by (simp_all add: upath_def leads_def)
  note b = user_bits(1) [OF q(5)] user_bits(1) [OF q(6)] user_bits(1) [OF q(7)] user_bits(1) [OF q(8)]
  have n: "t3 \<noteq> root" "t2 \<noteq> root" using l(1,2) d(2) by auto
  show f: "f \<in> U"
    using aspace_leaf [OF d(7) l(3) d(2) pt_index_bound b(4)] user_bits(2) [OF q(8)] q(4) by blast
  then show "frame_ok f" using d(5) [of f] by auto
  show "translate_4k root v s = Some (f + (v AND 0xfff))"
    by (simp add: translate_4k_def vread_entry Let_def q(1-4) b)
  have "te (mem s) t3 (pt_index 30 v) AND PTE_PS = 0" "te (mem s) t2 (pt_index 21 v) AND PTE_PS = 0"
    using aspace_next(2) [OF d(7) l(1) _ pt_index_bound _ b(2)] aspace_next(2) [OF d(7) l(2) _ pt_index_bound _ b(3)] n by simp_all
  moreover have "frame_ok root" using d(4) [of root] d(2) by auto
  moreover have "canonical v" using assms(2) by (simp add: canonical_def word_less_nat_alt)
  ultimately show "mmu_user_walk (mem s) root v = Some (f + (v AND 0xfff))"
    by (simp add: mmu_user_walk_def mmu_walk_req_def Let_def q)
qed

lemma upage_same_page: "page_of v = page_of w \<Longrightarrow> upage m root v f = upage m root w f"
proof -
  assume "page_of v = page_of w"
  then have "align_down v PAGE_SIZE = align_down w PAGE_SIZE" by (simp add: word_unat_eq_iff unat_align_down_page page_of_def)
  then show ?thesis unfolding upage_def using upath_align by metis
qed

lemma low_bits_page: "unat v = page_of v + unat (v AND 0xfff)"
proof -
  have "v AND 0xfff = take_bit 12 v" by (simp add: take_bit_eq_mask mask_eq_exp_minus_1)
  then show ?thesis by (simp add: page_of_def unat_take_bit_word)
qed

lemma upage_inj:
  assumes "aspace s0 root lv U K s" "unat v < 2 ^ 47" "unat w < 2 ^ 47" "upage (mem s) root v f" "upage (mem s) root w g"
    "f + (v AND 0xfff) = g + (w AND 0xfff)"
  shows "v = w"
proof -
  note d = aspaceD [OF assms(1)]
  note a = upage_facts [OF assms(1,2,4)] and b = upage_facts [OF assms(1,3,5)]
  have fg: "f = g" using page_of_offset [OF a(2), of v] page_of_offset [OF b(2), of w] assms(6) by (simp add: word_unat_eq_iff)
  from assms(4,5) obtain t3 t2 t1 u3 u2 u1 where p: "upath (mem s) root v t3 t2 t1 f" "upath (mem s) root w u3 u2 u1 g"
    unfolding upage_def by blast
  have "g \<notin> K" using b(1) d(10) by blast
  moreover have "points (mem s) t1 (pt_index 12 v) g" "points (mem s) u1 (pt_index 12 w) g"
    using p fg by (auto simp: upath_def dest: leads_points)
  ultimately have "t1 = u1" "pt_index 12 v = pt_index 12 w"
    using unsharedD [OF d(11) upath_levels(7) [OF d(7,2) assms(2) p(1)] upath_levels(7) [OF d(7,2) assms(3) p(2)]] by blast+
  from upath_inj [OF assms(1-3) p this] have "page_of v = page_of w" .
  moreover have "v AND 0xfff = w AND 0xfff" using assms(6) fg by simp
  ultimately show ?thesis using low_bits_page [of v] low_bits_page [of w] by (simp add: word_unat_eq_iff)
qed

lemma upage_mem:
  assumes "aspace s0 root lv U K s" "\<And>a. m a \<noteq> mem s a \<Longrightarrow> page_of a \<in> unat ` (U \<union> K)" "unat v < 2 ^ 47" "upage (mem s) root v f"
  shows "upage m root v f"
proof -
  note d = aspaceD [OF assms(1)]
  from assms(4) obtain t3 t2 t1 where p: "upath (mem s) root v t3 t2 t1 f" unfolding upage_def by blast
  note l = upath_levels [OF d(7,2) assms(3) p]
  have "te m t i = te (mem s) t i" if "pslot root lv t i" for t i
    by (rule te_outside [OF assms(1)]) (use assms(2) that in \<open>auto simp only: pslot_def\<close>)
  then have "leads m t i x = leads (mem s) t i x" if "pslot root lv t i" for t i x using that leads_te by metis
  then have "upath m root v t3 t2 t1 f" using p l unfolding upath_def by simp
  then show ?thesis unfolding upage_def by blast
qed

text \<open>What the pages outside \<open>L\<close> hold, for user mode, stays.\<close>

definition intact :: "u64 \<Rightarrow> nat set \<Rightarrow> 'z machine_scheme \<Rightarrow> 'z machine_scheme \<Rightarrow> bool" where
  "intact root L s s' \<longleftrightarrow> (\<forall>w f. unat w < 2 ^ 47 \<longrightarrow> page_of w \<notin> L \<longrightarrow> upage (mem s) root w f
     \<longrightarrow> upage (mem s') root w f \<and> mem s' (f + (w AND 0xfff)) = mem s (f + (w AND 0xfff)))"

lemma intactD:
  assumes "intact root L s s'" "unat w < 2 ^ 47" "page_of w \<notin> L" "upage (mem s) root w f"
  shows "upage (mem s') root w f" "mem s' (f + (w AND 0xfff)) = mem s (f + (w AND 0xfff))"
  using assms unfolding intact_def by blast+

lemma intact_trans: "intact root L s s1 \<Longrightarrow> intact root L' s1 s2 \<Longrightarrow> intact root (L \<union> L') s s2"
  unfolding intact_def by (metis UnCI)

lemma extends_intact:
  assumes "extends root U L s s'" "aspace s0 root lv U K s"
  shows "intact root L s s'"
  unfolding intact_def
proof (intro allI impI conjI)
  fix w f assume w: "unat w < 2 ^ 47" "page_of w \<notin> L" "upage (mem s) root w f"
  note a = upage_facts [OF assms(2) w(1,3)]
  show "upage (mem s') root w f" by (rule extendsD(1) [OF assms(1) w])
  show "mem s' (f + (w AND 0xfff)) = mem s (f + (w AND 0xfff))"
    by (rule extendsD(2) [OF assms(1)]) (use page_of_offset [OF a(2), of w] a(1) in simp)
qed

text \<open>Storing changes what user mode finds at the addresses stored to, and nothing else.\<close>

lemma store_user_effect:
  fixes s :: "'z pmm_state_scheme"
  assumes "aspace s0 root lv U K s" "unat b + (off + n) \<le> 2 ^ 47"
    "\<And>w. unat b + off \<le> unat w \<Longrightarrow> unat w < unat b + (off + n) \<Longrightarrow> \<exists>f. upage (mem s) root w f"
  shows "\<exists>m. store_user root b g off n s = Inr (Some (), s\<lparr>mem := m\<rparr>) \<and> (\<forall>w f. unat w < 2 ^ 47 \<longrightarrow> upage (mem s) root w f \<longrightarrow> upage m root w f \<and>
    m (f + (w AND 0xfff)) = (if unat b + off \<le> unat w \<and> unat w < unat b + (off + n) then g (unat w - unat b)
      else mem s (f + (w AND 0xfff))))"
  using assms
proof (induction n arbitrary: off s)
  case (Suc n)
  define v where "v = b + of_nat off"
  have "unat (of_nat off :: u64) = off" using Suc(3) by (simp add: unat_of_nat)
  then have v: "add_chk b (of_nat off) = Inr v" using Suc(3) by (simp add: add_chk_nat v_def)
  have uv: "unat v = unat b + off" using add_chk_low(2) [OF v] Suc(3) by simp
  then have lo: "unat v < 2 ^ 47" using Suc(3) by simp
  from Suc(4) [of v] uv obtain f where f: "upage (mem s) root v f" by auto
  note a = upage_facts [OF Suc(2) lo f]
  let ?pa = "f + (v AND 0xfff)" and ?s = "vwrite8 (phys_to_virt (f + (v AND 0xfff))) (g off) s"
  have m: "mem ?s = (mem s)(?pa := g off)" by (simp add: vwrite8_def phys_to_virt_def)
  have pg: "page_of ?pa \<in> unat ` (U \<union> K)" using page_of_offset [OF a(2), of v] a(1) by simp
  have s1: "aspace s0 root lv U K ?s" by (rule aspace_byte [OF Suc(2) pg])
  have keep: "upage (mem ?s) root w h" if "unat w < 2 ^ 47" "upage (mem s) root w h" for w h
    by (rule upage_mem [OF Suc(2) _ that]) (use pg m in \<open>auto split: if_splits\<close>)
  have ex: "\<exists>f. upage (mem ?s) root w f" if "unat b + Suc off \<le> unat w" "unat w < unat b + (Suc off + n)" for w
  proof -
    from Suc(4) [of w] that obtain h where "upage (mem s) root w h" by auto
    then show ?thesis using keep [of w h] that Suc(3) by auto
  qed
  have "unat b + (Suc off + n) \<le> 2 ^ 47" using Suc(3) by simp
  from Suc(1) [OF s1 this ex] obtain m' where
    r: "store_user root b g (Suc off) n ?s = Inr (Some (), ?s\<lparr>mem := m'\<rparr>)" and
    IH: "\<And>w h. unat w < 2 ^ 47 \<Longrightarrow> upage (mem ?s) root w h \<Longrightarrow>
      upage m' root w h \<and> m' (h + (w AND 0xfff)) = (if unat b + Suc off \<le> unat w \<and> unat w < unat b + (Suc off + n)
        then g (unat w - unat b) else mem ?s (h + (w AND 0xfff)))" by blast
  show ?case
  proof (intro exI [of _ m'] conjI allI impI)
    show "store_user root b g off (Suc n) s = Inr (Some (), s\<lparr>mem := m'\<rparr>)" using v a(3) r by (simp add: vwrite8_def)
    fix w h assume w: "unat w < 2 ^ 47" "upage (mem s) root w h"
    note i = IH [OF w(1) keep [OF w]]
    from i show "upage m' root w h" by simp
    have "mem ?s (h + (w AND 0xfff)) = (if w = v then g off else mem s (h + (w AND 0xfff)))"
    proof (cases "w = v")
      case True
      then show ?thesis using upage_facts(4) [OF Suc(2) w] a(4) m by simp
    next
      case False
      then show ?thesis using upage_inj [OF Suc(2) w(1) lo w(2) f] m by auto
    qed
    moreover have "w = v \<longleftrightarrow> unat w = unat b + off" using uv by (simp add: word_unat_eq_iff)
    ultimately show "m' (h + (w AND 0xfff)) = (if unat b + off \<le> unat w \<and> unat w < unat b + (off + Suc n)
        then g (unat w - unat b) else mem s (h + (w AND 0xfff)))" using i uv by auto
  qed
next
  case 0
  then show ?case by (intro exI [of _ "mem s"]) auto
qed

section \<open>Segments\<close>

lemma page_of_le: "page_of v \<le> unat v" "unat v < page_of v + 4096"
  using dividend_less_div_times [of 4096 "unat v"] by (simp_all add: page_of_def add.commute)

lemma page_of_eqI: "4096 dvd unat v \<Longrightarrow> unat v \<le> unat w \<Longrightarrow> unat w < unat v + 4096 \<Longrightarrow> page_of w = unat v"
  by (elim dvdE) (simp add: page_of_def div_nat_eqI)

text \<open>The pages of a segment are mapped, one fresh frame each.\<close>

lemma aspace_seg:
  fixes s :: "'z pmm_state_scheme"
  assumes "aspace s0 root lv U K s" "map_seg root fl v e s = Inr s'" "unat e \<le> 2 ^ 47" "fl \<in> user_flags" "fl AND PTE_U \<noteq> 0"
    "4096 dvd unat v"
  shows "\<exists>lv' U'. aspace s0 root lv' U' K s' \<and> extends root U {unat v..<unat e} s s'
    \<and> (\<forall>w. v \<le> w \<longrightarrow> w < e \<longrightarrow> (\<exists>f. upage (mem s') root w f))"
  using assms
proof (induction root fl v e s arbitrary: lv U rule: map_seg.induct)
  case (1 root fl v e s)
  show ?case
  proof (cases "v < e")
    case True
    with 1(3) obtain p s1 s2 v' where m: "alloc_frame s = Inr (Some p, s1)" "map_4k root v p fl s1 = Inr s2"
      "add_chk v PAGE_SIZE = Inr v'" "map_seg root fl v' e s2 = Inr s'"
      by (subst (asm) map_seg.simps) (auto elim!: and_then_InrE)
    have v': "unat v' = unat v + 4096" using m(3) by (auto simp: add_chk_nat unat_add_no_wrap split: if_splits)
    have lo: "unat v < 2 ^ 47" using True 1(4) by (simp add: word_less_nat_alt)
    note p = aspace_user_page [OF 1(2) m(1,2) lo 1(5,6)]
    from p(1) obtain lv1 where a: "aspace s0 root lv1 (insert p U) K s2" by blast
    have "4096 dvd unat v'" using v' 1(7) by simp
    from 1(1) [OF True m(1) _ _ m(2,3) a m(4) 1(4-6) this] obtain lv2 U2 where
      b: "aspace s0 root lv2 U2 K s'" "extends root (insert p U) {unat v'..<unat e} s2 s'"
        "\<And>w. v' \<le> w \<Longrightarrow> w < e \<Longrightarrow> \<exists>f. upage (mem s') root w f" by auto
    have pv: "page_of v = unat v" by (rule page_of_eqI [OF 1(7)]) simp_all
    have "extends root U {unat v..<unat e} s s2" by (rule extends_mono [OF p(3)]) (use pv True in \<open>simp add: word_less_nat_alt\<close>)
    moreover have "extends root (insert p U) {unat v..<unat e} s2 s'" by (rule extends_mono [OF b(2)]) (use v' in auto)
    ultimately have x: "extends root U {unat v..<unat e} s s'" by (rule extends_trans) blast
    have "\<exists>f. upage (mem s') root w f" if w: "v \<le> w" "w < e" for w
    proof (cases "v' \<le> w")
      case True
      then show ?thesis using b(3) w(2) by blast
    next
      case False
      then have pw: "page_of w = unat v"
        by (intro page_of_eqI [OF 1(7)]) (use w(1) v' in \<open>simp_all add: word_le_nat_alt\<close>)
      then have "upage (mem s2) root w p" using p(2) upage_same_page [of w v] pv by simp
      moreover have "unat w < 2 ^ 47" using w(2) 1(4) by (simp add: word_less_nat_alt)
      moreover have "page_of w \<notin> {unat v'..<unat e}" using pw v' by simp
      ultimately show ?thesis using extendsD(1) [OF b(2)] by blast
    qed
    with b(1) x show ?thesis by blast
  next
    case False
    then show ?thesis using 1(2,3) extends_refl by (subst (asm) map_seg.simps) auto
  qed
qed

text \<open>The segments lie in the lower half of the address space.\<close>

definition seg_low :: "Elf64Phdr \<Rightarrow> bool" where
  "seg_low ph \<longleftrightarrow> p_type ph = PT_LOAD \<longrightarrow> unat (p_vaddr ph) + max (unat (p_filesz ph)) (unat (p_memsz ph)) \<le> 2 ^ 47"

definition elf_low :: "u8 list \<Rightarrow> bool" where
  "elf_low elf \<longleftrightarrow> (let eh = parse_ehdr elf in
     \<forall>i < unat (e_phnum eh). seg_low (parse_phdr (drop (unat (e_phoff eh) + i * 56) elf)))"

lemma seg_end_low:
  assumes "align_up (saturating_add a b) PAGE_SIZE = Inr e" "unat a + unat b \<le> 2 ^ 47"
  shows "unat e = (unat a + unat b + 4095) div 4096 * 4096" "unat e \<le> 2 ^ 47" "unat a + unat b \<le> unat e"
proof -
  have "unat (saturating_add a b) = unat a + unat b" using assms(2) by (simp add: word_nat)
  then show e: "unat e = (unat a + unat b + 4095) div 4096 * 4096" using align_up_page_Inr(1) [OF assms(1)] by simp
  have "(unat a + unat b + 4095) div 4096 \<le> (2 ^ 47 + 4095) div 4096" using assms(2) by (intro div_le_mono) simp
  then show "unat e \<le> 2 ^ 47" using e by simp
  show "unat a + unat b \<le> unat e" unfolding e using dividend_less_div_times [of 4096 "unat a + unat b + 4095"] by simp
qed

text \<open>The three phases of loading one segment.\<close>

lemma load_segment_phases:
  assumes "load_segment root elf ph s = Inr (r, s')" "p_type ph = PT_LOAD" "p_memsz ph \<noteq> 0"
  obtains fl e s1 r1 s2 where "fl \<in> user_flags" "fl AND PTE_U \<noteq> 0"
    "align_up (saturating_add (p_vaddr ph) (p_memsz ph)) PAGE_SIZE = Inr e"
    "map_seg root fl (align_down (p_vaddr ph) PAGE_SIZE) e s = Inr s1"
    "r1 = None \<and> s2 = s1 \<and> p_filesz ph \<noteq> 0 \<and> past_end (p_offset ph) (p_filesz ph) elf
     \<or> store_user root (p_vaddr ph) (\<lambda>k. elf ! (unat (p_offset ph) + k)) 0 (unat (p_filesz ph)) s1 = Inr (r1, s2)"
    "r1 = None \<and> r = None \<and> s' = s2
     \<or> store_user root (p_vaddr ph + p_filesz ph) (\<lambda>_. 0) 0 (unat (p_memsz ph) - unat (p_filesz ph)) s2 = Inr (r, s')"
proof -
  define fl where "fl = (if p_flags ph AND PF_W \<noteq> 0 then PTE_U OR PTE_RW else PTE_U)"
  from assms obtain e s1 r1 s2 where
    e: "align_up (saturating_add (p_vaddr ph) (p_memsz ph)) PAGE_SIZE = Inr e" and
    1: "map_seg root fl (align_down (p_vaddr ph) PAGE_SIZE) e s = Inr s1" and
    2: "(if p_filesz ph = 0 then Inr (Some (), s1) else if past_end (p_offset ph) (p_filesz ph) elf then Inr (None, s1)
         else copy_file root (p_vaddr ph) elf (unat (p_offset ph)) 0 (unat (p_filesz ph)) s1) = Inr (r1, s2)" and
    3: "(case r1 of None \<Rightarrow> Inr (None, s2) | Some _ \<Rightarrow>
         if p_filesz ph < p_memsz ph
         then zero_bss root (p_vaddr ph) (p_filesz ph) 0 (unat (p_memsz ph - p_filesz ph)) s2
         else Inr (Some (), s2)) = Inr (r, s')"
    by (auto simp: load_segment_def fl_def Let_def elim!: and_then_InrE)
  show thesis
  proof (rule that [OF _ _ e 1])
    show "fl \<in> user_flags" "fl AND PTE_U \<noteq> 0" by (auto simp: fl_def user_flags_def pte_flags)
    show "r1 = None \<and> s2 = s1 \<and> p_filesz ph \<noteq> 0 \<and> past_end (p_offset ph) (p_filesz ph) elf
     \<or> store_user root (p_vaddr ph) (\<lambda>k. elf ! (unat (p_offset ph) + k)) 0 (unat (p_filesz ph)) s1 = Inr (r1, s2)"
      using 2 copy_store(1) by (auto split: if_splits)
    show "r1 = None \<and> r = None \<and> s' = s2
     \<or> store_user root (p_vaddr ph + p_filesz ph) (\<lambda>_. 0) 0 (unat (p_memsz ph) - unat (p_filesz ph)) s2 = Inr (r, s')"
    proof (cases "r1 \<noteq> None \<and> p_filesz ph < p_memsz ph")
      case True
      let ?n = "unat (p_memsz ph - p_filesz ph)"
      have n: "?n = unat (p_memsz ph) - unat (p_filesz ph)" using True by (auto intro: unat_sub)
      then have "?n \<noteq> 0" using True by (simp add: word_less_nat_alt)
      moreover have z: "zero_bss root (p_vaddr ph) (p_filesz ph) 0 ?n s2 = Inr (r, s')" using 3 True by auto
      ultimately obtain b where b: "add_chk (p_vaddr ph) (p_filesz ph) = Inr b" using bss_store(1) [OF z] by auto
      then have "b = p_vaddr ph + p_filesz ph" by (auto simp: add_chk_nat split: if_splits)
      then show ?thesis using z n by (simp add: bss_store(2) [OF b])
    next
      case False
      then show ?thesis using 3 by (auto simp: word_less_nat_alt split: option.splits)
    qed
  qed
qed

lemma aspace_segment:
  fixes s :: "'z pmm_state_scheme"
  assumes "aspace s0 root lv U K s" "load_segment root elf ph s = Inr (r, s')" "seg_low ph"
  shows "\<exists>lv' U'. aspace s0 root lv' U' K s'"
proof (cases "p_type ph \<noteq> PT_LOAD \<or> p_memsz ph = 0")
  case True
  then show ?thesis using assms(1,2) by (auto simp: load_segment_def)
next
  case False
  have "unat (p_vaddr ph) + max (unat (p_filesz ph)) (unat (p_memsz ph)) \<le> 2 ^ 47"
    using assms(3) False by (simp add: seg_low_def)
  then have lows: "unat (p_vaddr ph) + unat (p_memsz ph) \<le> 2 ^ 47" "unat (p_vaddr ph) + unat (p_filesz ph) \<le> 2 ^ 47"
    by (simp_all add: max_def split: if_splits)
  obtain fl e s1 r1 s2 where p: "fl \<in> user_flags" "fl AND PTE_U \<noteq> 0"
    "align_up (saturating_add (p_vaddr ph) (p_memsz ph)) PAGE_SIZE = Inr e"
    "map_seg root fl (align_down (p_vaddr ph) PAGE_SIZE) e s = Inr s1"
    "r1 = None \<and> s2 = s1 \<and> p_filesz ph \<noteq> 0 \<and> past_end (p_offset ph) (p_filesz ph) elf
     \<or> store_user root (p_vaddr ph) (\<lambda>k. elf ! (unat (p_offset ph) + k)) 0 (unat (p_filesz ph)) s1 = Inr (r1, s2)"
    "r1 = None \<and> r = None \<and> s' = s2
     \<or> store_user root (p_vaddr ph + p_filesz ph) (\<lambda>_. 0) 0 (unat (p_memsz ph) - unat (p_filesz ph)) s2 = Inr (r, s')"
    by (rule load_segment_phases [OF assms(2)]) (use False in auto)
  from aspace_seg [OF assms(1) p(4) seg_end_low(2) [OF p(3) lows(1)] p(1,2)] obtain lv1 U1 where
    a1: "aspace s0 root lv1 U1 K s1" by (auto simp: unat_align_down_page)
  have a2: "aspace s0 root lv1 U1 K s2" using p(5) a1 aspace_store [OF a1] lows(2) by auto
  have "unat (p_vaddr ph + p_filesz ph) = unat (p_vaddr ph) + unat (p_filesz ph)"
    using lows(2) by (intro unat_add_no_wrap) simp
  then have "aspace s0 root lv1 U1 K s'" using p(6) a2 aspace_store [OF a2] lows by auto
  then show ?thesis by blast
qed

lemma aspace_segments:
  fixes s :: "'z pmm_state_scheme"
  assumes "aspace s0 root lv U K s" "load_segments root elf off is s = Inr (r, s')"
    "\<forall>i \<in> set is. seg_low (parse_phdr (drop (off + i * 56) elf))"
  shows "\<exists>lv' U'. aspace s0 root lv' U' K s'"
  using assms
proof (induction "is" arbitrary: lv U s)
  case (Cons i "is")
  from Cons(3) obtain r1 s1 where
    1: "load_segment root elf (parse_phdr (drop (off + i * 56) elf)) s = Inr (r1, s1)" and
    2: "(case r1 of None \<Rightarrow> Inr (None, s1) | Some _ \<Rightarrow> load_segments root elf off is s1) = Inr (r, s')"
    by (auto elim!: and_then_InrE)
  from aspace_segment [OF Cons(2) 1] Cons(4) obtain lv1 U1 where a: "aspace s0 root lv1 U1 K s1" by auto
  show ?case
  proof (cases r1)
    case None
    then show ?thesis using 2 a by auto
  next
    case (Some u)
    then show ?thesis using Cons(1) [OF a] 2 Cons(4) by simp
  qed
qed auto

lemma aspace_code:
  fixes s :: "'z pmm_state_scheme"
  assumes "aspace s0 root lv U K s" "load_code root elf s = Inr (r, s')" "elf_low elf"
  shows "\<exists>lv' U'. aspace s0 root lv' U' K s'"
proof (cases "elf = []")
  case False
  from False assms(2) obtain s1 where l: "load_elf_into_user root elf s = Inr (Some r, s1)" "s' = s1"
    by (auto simp: load_code_def elim!: and_then_InrE)
  let ?eh = "parse_ehdr elf"
  from l obtain r1 where "load_segments root elf (unat (e_phoff ?eh)) [0..<unat (e_phnum ?eh)] s = Inr (r1, s')"
    by (auto simp: load_elf_into_user_def Let_def split: if_splits elim!: and_then_InrE)
  from aspace_segments [OF assms(1) this] assms(3) show ?thesis by (simp add: elf_low_def Let_def)
next
  case True
  from True assms(2) obtain p s1 s2 where m: "alloc_frame s = Inr (Some p, s1)" "map_4k root USER_CODE_V p PTE_U s1 = Inr s2"
    and s': "s' = vwrite8 (phys_to_virt p + 3) 0xFE (vwrite8 (phys_to_virt p + 2) 0xEB
      (vwrite8 (phys_to_virt p + 1) 0x80 (vwrite8 (phys_to_virt p) 0xCD s2)))"
    by (auto simp: load_code_def Let_def elim!: and_then_InrE)
  have "unat USER_CODE_V < 2 ^ 47" "PTE_U \<in> user_flags" "PTE_U AND PTE_U \<noteq> 0"
    by (simp_all add: USER_CODE_V_def user_flags_def pte_flags)
  from aspace_user_page(1) [OF assms(1) m this] obtain lv1 where a: "aspace s0 root lv1 (insert p U) K s2" by blast
  have f: "frame_ok p" using aspaceD(5) [OF a, of p] by auto
  have w: "aspace s0 root lv1 (insert p U) K (vwrite8 (phys_to_virt p + k) b t)"
    if "aspace s0 root lv1 (insert p U) K t" "k AND 0xfff = k" for k b and t :: "'z pmm_state_scheme"
  proof -
    have "page_of (p + k) = unat p" using page_of_offset [OF f, of k] that(2) by simp
    then show ?thesis using aspace_byte [OF that(1), of "p + k" b] by (simp add: phys_to_virt_def add.assoc)
  qed
  have "aspace s0 root lv1 (insert p U) K s'"
    unfolding s' using w [OF w [OF w [OF w [OF a, of 0 "0xCD"]]]] by simp
  then show ?thesis by blast
qed

section \<open>The image of a program\<close>

text \<open>A segment that can be loaded, the pages it occupies and the bytes it holds.\<close>

definition seg_ok :: "u8 list \<Rightarrow> Elf64Phdr \<Rightarrow> bool" where
  "seg_ok elf ph \<longleftrightarrow> p_type ph = PT_LOAD \<longrightarrow> unat (p_vaddr ph) + unat (p_memsz ph) \<le> 2 ^ 47
     \<and> p_filesz ph \<le> p_memsz ph \<and> unat (p_offset ph) + unat (p_filesz ph) \<le> length elf"

definition seg_pages :: "Elf64Phdr \<Rightarrow> nat set" where
  "seg_pages ph = (if p_type ph = PT_LOAD \<and> p_memsz ph \<noteq> 0
     then {page_of (p_vaddr ph)..<(unat (p_vaddr ph) + unat (p_memsz ph) + 4095) div 4096 * 4096} else {})"

definition image_byte :: "u8 list \<Rightarrow> Elf64Phdr \<Rightarrow> nat \<Rightarrow> u8" where
  "image_byte elf ph k = (if k < unat (p_filesz ph) then elf ! (unat (p_offset ph) + k) else 0)"

definition seg_held :: "u64 \<Rightarrow> u8 list \<Rightarrow> Elf64Phdr \<Rightarrow> memory \<Rightarrow> bool" where
  "seg_held root elf ph m \<longleftrightarrow> (p_type ph = PT_LOAD \<longrightarrow>
     (\<forall>w. p_vaddr ph \<le> w \<longrightarrow> unat w < unat (p_vaddr ph) + unat (p_memsz ph) \<longrightarrow>
        (\<exists>f. upage m root w f \<and> m (f + (w AND 0xfff)) = image_byte elf ph (unat w - unat (p_vaddr ph)))))"

lemma seg_pages_in:
  assumes "p_type ph = PT_LOAD" "p_vaddr ph \<le> w" "unat w < unat (p_vaddr ph) + unat (p_memsz ph)"
  shows "page_of w \<in> seg_pages ph"
proof -
  have "page_of (p_vaddr ph) \<le> page_of w" using assms(2) by (simp add: page_of_def div_le_mono word_le_nat_alt)
  moreover have "page_of w < (unat (p_vaddr ph) + unat (p_memsz ph) + 4095) div 4096 * 4096"
    using page_of_le(1) [of w] assms(3) dividend_less_div_times [of 4096 "unat (p_vaddr ph) + unat (p_memsz ph) + 4095"] by simp
  moreover have "p_memsz ph \<noteq> 0" using assms(2,3) by (auto simp: word_le_nat_alt)
  ultimately show ?thesis using assms(1) by (simp add: seg_pages_def)
qed

lemma seg_held_intact:
  assumes "seg_held root elf ph (mem s)" "intact root L s s'" "seg_pages ph \<inter> L = {}" "seg_ok elf ph"
  shows "seg_held root elf ph (mem s')"
  unfolding seg_held_def
proof (intro allI impI)
  fix w assume w: "p_type ph = PT_LOAD" "p_vaddr ph \<le> w" "unat w < unat (p_vaddr ph) + unat (p_memsz ph)"
  from assms(1) w obtain f where f: "upage (mem s) root w f"
    "mem s (f + (w AND 0xfff)) = image_byte elf ph (unat w - unat (p_vaddr ph))" unfolding seg_held_def by blast
  have "unat w < 2 ^ 47" "page_of w \<notin> L" using assms(3,4) w seg_pages_in [OF w] by (auto simp: seg_ok_def)
  from intactD [OF assms(2) this f(1)] f(2)
  show "\<exists>f. upage (mem s') root w f \<and> mem s' (f + (w AND 0xfff)) = image_byte elf ph (unat w - unat (p_vaddr ph))" by auto
qed

lemma not_past_end: "unat a + unat b \<le> length bs \<Longrightarrow> length bs < 2 ^ 64 \<Longrightarrow> \<not> past_end a b bs"
  using uint_add_bound [of a b] by (simp add: past_end_def checked_add_def word_less_nat_alt unat_of_nat unat_add_no_wrap)

definition seg_fl :: "Elf64Phdr \<Rightarrow> u64" where
  "seg_fl ph = (if p_flags ph AND PF_W \<noteq> 0 then PTE_U OR PTE_RW else PTE_U)"

lemma seg_fl: "seg_fl ph \<in> user_flags" "seg_fl ph AND PTE_U \<noteq> 0"
  by (auto simp: seg_fl_def user_flags_def pte_flags)

text \<open>The two stores of a segment whose pages are mapped.\<close>

lemma segment_stored:
  fixes s :: "'z pmm_state_scheme"
  assumes "aspace s0 root lv U K s" "unat (p_vaddr ph) + unat (p_memsz ph) \<le> 2 ^ 47" "p_filesz ph \<le> p_memsz ph"
    "\<And>w. p_vaddr ph \<le> w \<Longrightarrow> unat w < unat (p_vaddr ph) + unat (p_memsz ph) \<Longrightarrow> \<exists>f. upage (mem s) root w f"
  obtains m2 m where "store_user root (p_vaddr ph) (\<lambda>k. elf ! (unat (p_offset ph) + k)) 0 (unat (p_filesz ph)) s = Inr (Some (), s\<lparr>mem := m2\<rparr>)"
    "store_user root (p_vaddr ph + p_filesz ph) (\<lambda>_. 0) 0 (unat (p_memsz ph) - unat (p_filesz ph)) (s\<lparr>mem := m2\<rparr>) = Inr (Some (), s\<lparr>mem := m\<rparr>)"
    "aspace s0 root lv U K (s\<lparr>mem := m\<rparr>)" "\<And>w f. unat w < 2 ^ 47 \<Longrightarrow> upage (mem s) root w f \<Longrightarrow> upage m root w f"
    "\<And>w f. unat w < 2 ^ 47 \<Longrightarrow> upage (mem s) root w f \<Longrightarrow> m (f + (w AND 0xfff)) =
      (if p_vaddr ph \<le> w \<and> unat w < unat (p_vaddr ph) + unat (p_memsz ph) then image_byte elf ph (unat w - unat (p_vaddr ph))
       else mem s (f + (w AND 0xfff)))"
proof -
  let ?v = "unat (p_vaddr ph)" and ?f = "unat (p_filesz ph)" and ?n = "unat (p_memsz ph)"
  let ?g = "\<lambda>k. elf ! (unat (p_offset ph) + k)" and ?W = "\<lambda>f w. f + (w AND 0xfff)"
  have fn: "?f \<le> ?n" using assms(3) by (simp add: word_le_nat_alt)
  have "?v + (0 + ?f) \<le> 2 ^ 47" using assms(2) fn by simp
  from store_user_effect [OF assms(1) this, of ?g] assms(4) fn obtain m2 where
    2: "store_user root (p_vaddr ph) ?g 0 ?f s = Inr (Some (), s\<lparr>mem := m2\<rparr>)" and
    w2: "\<And>w f. unat w < 2 ^ 47 \<Longrightarrow> upage (mem s) root w f \<Longrightarrow> upage m2 root w f"
      "\<And>w f. unat w < 2 ^ 47 \<Longrightarrow> upage (mem s) root w f \<Longrightarrow>
        m2 (?W f w) = (if ?v \<le> unat w \<and> unat w < ?v + ?f then ?g (unat w - ?v) else mem s (?W f w))"
    by (auto simp: word_le_nat_alt)
  have b: "aspace s0 root lv U K (s\<lparr>mem := m2\<rparr>)" by (rule aspace_store [OF assms(1) 2]) (use assms(2) fn in simp)
  have vf: "unat (p_vaddr ph + p_filesz ph) = ?v + ?f" using assms(2) fn by (intro unat_add_no_wrap) simp
  then have lo: "unat (p_vaddr ph + p_filesz ph) + (0 + (?n - ?f)) \<le> 2 ^ 47" using assms(2) fn by simp
  have "\<exists>f. upage (mem (s\<lparr>mem := m2\<rparr>)) root w f"
    if "unat (p_vaddr ph + p_filesz ph) + 0 \<le> unat w" "unat w < unat (p_vaddr ph + p_filesz ph) + (0 + (?n - ?f))" for w
    using assms(4) [of w] w2(1) [of w] that assms(2) fn by (auto simp: vf word_le_nat_alt)
  from store_user_effect [OF b lo this, of "\<lambda>_. 0"] obtain m where
    3: "store_user root (p_vaddr ph + p_filesz ph) (\<lambda>_. 0) 0 (?n - ?f) (s\<lparr>mem := m2\<rparr>) = Inr (Some (), s\<lparr>mem := m\<rparr>)" and
    w3: "\<And>w f. unat w < 2 ^ 47 \<Longrightarrow> upage m2 root w f \<Longrightarrow> upage m root w f"
      "\<And>w f. unat w < 2 ^ 47 \<Longrightarrow> upage m2 root w f \<Longrightarrow>
        m (?W f w) = (if ?v + ?f \<le> unat w \<and> unat w < ?v + ?n then 0 else m2 (?W f w))"
    using fn by (auto simp: vf)
  have c: "aspace s0 root lv U K (s\<lparr>mem := m\<rparr>)" using aspace_store [OF b 3] assms(2) fn vf by simp
  show thesis
  proof (rule that [OF 2 3 c])
    fix w f assume w: "unat w < 2 ^ 47" "upage (mem s) root w f"
    note x = w3 [OF w(1) w2(1) [OF w]]
    show "upage m root w f" by (rule x(1))
    show "m (?W f w) = (if p_vaddr ph \<le> w \<and> unat w < ?v + ?n then image_byte elf ph (unat w - ?v) else mem s (?W f w))"
      using x(2) w2(2) [OF w] fn by (auto simp: image_byte_def word_le_nat_alt)
  qed
qed

lemma load_segment_eq:
  assumes "p_type ph = PT_LOAD" "p_memsz ph \<noteq> 0" "align_up (saturating_add (p_vaddr ph) (p_memsz ph)) PAGE_SIZE = Inr e"
    "map_seg root (seg_fl ph) (align_down (p_vaddr ph) PAGE_SIZE) e s = Inr s1" "p_filesz ph \<le> p_memsz ph"
    "unat (p_vaddr ph) + unat (p_memsz ph) \<le> 2 ^ 47" "unat (p_offset ph) + unat (p_filesz ph) \<le> length elf" "length elf < 2 ^ 64"
    "store_user root (p_vaddr ph) (\<lambda>k. elf ! (unat (p_offset ph) + k)) 0 (unat (p_filesz ph)) s1 = Inr (Some (), s2)"
    "store_user root (p_vaddr ph + p_filesz ph) (\<lambda>_. 0) 0 (unat (p_memsz ph) - unat (p_filesz ph)) s2 = Inr (Some (), s3)"
  shows "load_segment root elf ph s = Inr (Some (), s3)"
proof -
  have c: "copy_file root (p_vaddr ph) elf (unat (p_offset ph)) 0 (unat (p_filesz ph)) s1 = Inr (Some (), s2)"
    using assms(7,9) by (simp add: copy_store(2))
  have z: "(if p_filesz ph < p_memsz ph then zero_bss root (p_vaddr ph) (p_filesz ph) 0 (unat (p_memsz ph - p_filesz ph)) s2
      else Inr (Some (), s2)) = Inr (Some (), s3)"
  proof (cases "p_filesz ph < p_memsz ph")
    case True
    have "add_chk (p_vaddr ph) (p_filesz ph) = Inr (p_vaddr ph + p_filesz ph)"
      using assms(5,6) by (simp add: add_chk_nat word_le_nat_alt)
    moreover have "unat (p_memsz ph - p_filesz ph) = unat (p_memsz ph) - unat (p_filesz ph)" using True by (auto intro: unat_sub)
    ultimately show ?thesis using True assms(10) by (simp add: bss_store(2))
  next
    case False
    then show ?thesis using assms(5,10) by (simp add: word_less_nat_alt)
  qed
  have "\<not> past_end (p_offset ph) (p_filesz ph) elf" by (rule not_past_end [OF assms(7,8)])
  then show ?thesis
    using c z assms(1-4) by (cases "p_filesz ph = 0") (auto simp: load_segment_def Let_def seg_fl_def [symmetric])
qed

text \<open>When its pages can be mapped, a segment is loaded.\<close>

lemma segment_loaded:
  fixes s :: "'z pmm_state_scheme"
  assumes "aspace s0 root lv U K s" "seg_ok elf ph" "length elf < 2 ^ 64" "p_type ph = PT_LOAD" "p_memsz ph \<noteq> 0"
    "align_up (saturating_add (p_vaddr ph) (p_memsz ph)) PAGE_SIZE = Inr e"
    "map_seg root (seg_fl ph) (align_down (p_vaddr ph) PAGE_SIZE) e s = Inr s1"
  shows "\<exists>m lv' U'. load_segment root elf ph s = Inr (Some (), s1\<lparr>mem := m\<rparr>) \<and> aspace s0 root lv' U' K (s1\<lparr>mem := m\<rparr>)
    \<and> intact root (seg_pages ph) s (s1\<lparr>mem := m\<rparr>) \<and> seg_held root elf ph m"
proof -
  let ?v = "unat (p_vaddr ph)" and ?n = "unat (p_memsz ph)" and ?W = "\<lambda>f w. f + (w AND 0xfff)"
  have ok: "?v + ?n \<le> 2 ^ 47" "p_filesz ph \<le> p_memsz ph" "unat (p_offset ph) + unat (p_filesz ph) \<le> length elf"
    using assms(2,4) by (simp_all add: seg_ok_def)
  note e = seg_end_low [OF assms(6) ok(1)]
  have al: "unat (align_down (p_vaddr ph) PAGE_SIZE) = page_of (p_vaddr ph)" by (simp add: unat_align_down_page page_of_def)
  have pages: "{page_of (p_vaddr ph)..<unat e} = seg_pages ph" using assms(4,5) e(1) by (simp add: seg_pages_def)
  from aspace_seg [OF assms(1,7) e(2) seg_fl] obtain lv1 U1 where
    a: "aspace s0 root lv1 U1 K s1" "extends root U (seg_pages ph) s s1"
      "\<And>w. align_down (p_vaddr ph) PAGE_SIZE \<le> w \<Longrightarrow> w < e \<Longrightarrow> \<exists>f. upage (mem s1) root w f"
    unfolding al pages by (auto simp: page_of_def)
  have mapped: "\<exists>f. upage (mem s1) root w f" if "p_vaddr ph \<le> w" "unat w < ?v + ?n" for w
    using a(3) [of w] that page_of_le(1) [of "p_vaddr ph"] e(3) al by (auto simp: word_le_nat_alt word_less_nat_alt)
  obtain m2 m where st: "store_user root (p_vaddr ph) (\<lambda>k. elf ! (unat (p_offset ph) + k)) 0 (unat (p_filesz ph)) s1 = Inr (Some (), s1\<lparr>mem := m2\<rparr>)"
    "store_user root (p_vaddr ph + p_filesz ph) (\<lambda>_. 0) 0 (?n - unat (p_filesz ph)) (s1\<lparr>mem := m2\<rparr>) = Inr (Some (), s1\<lparr>mem := m\<rparr>)"
    and c: "aspace s0 root lv1 U1 K (s1\<lparr>mem := m\<rparr>)"
    and w: "\<And>w f. unat w < 2 ^ 47 \<Longrightarrow> upage (mem s1) root w f \<Longrightarrow> upage m root w f"
      "\<And>w f. unat w < 2 ^ 47 \<Longrightarrow> upage (mem s1) root w f \<Longrightarrow> m (?W f w) =
        (if p_vaddr ph \<le> w \<and> unat w < ?v + ?n then image_byte elf ph (unat w - ?v) else mem s1 (?W f w))"
    by (rule segment_stored [OF a(1) ok(1,2) mapped]) blast+
  note l = load_segment_eq [OF assms(4-7) ok(2,1,3) assms(3) st]
  have h: "seg_held root elf ph m"
    unfolding seg_held_def
  proof (intro allI impI)
    fix x assume x: "p_vaddr ph \<le> x" "unat x < ?v + ?n"
    then obtain f where f: "upage (mem s1) root x f" using mapped by blast
    have "unat x < 2 ^ 47" using x ok by simp
    from w [OF this f] x show "\<exists>f. upage m root x f \<and> m (?W f x) = image_byte elf ph (unat x - ?v)" by auto
  qed
  have i: "intact root (seg_pages ph) s (s1\<lparr>mem := m\<rparr>)"
    unfolding intact_def
  proof (intro allI impI)
    fix x f assume x: "unat x < 2 ^ 47" "page_of x \<notin> seg_pages ph" "upage (mem s) root x f"
    note k = intactD [OF extends_intact [OF a(2) assms(1)] x]
    have "\<not> (p_vaddr ph \<le> x \<and> unat x < ?v + ?n)" using seg_pages_in [OF assms(4), of x] x(2) by auto
    then show "upage (mem (s1\<lparr>mem := m\<rparr>)) root x f \<and> mem (s1\<lparr>mem := m\<rparr>) (?W f x) = mem s (?W f x)"
      using w [OF x(1) k(1)] k(2) by auto
  qed
  from l c i h show ?thesis by blast
qed

text \<open>A list of program headers is loaded in order; no later segment may touch the pages of an earlier one.\<close>

definition phdr :: "u8 list \<Rightarrow> nat \<Rightarrow> nat \<Rightarrow> Elf64Phdr" where
  "phdr elf phoff i = parse_phdr (drop (phoff + i * 56) elf)"

definition segs_ok :: "u8 list \<Rightarrow> nat \<Rightarrow> nat list \<Rightarrow> bool" where
  "segs_ok elf phoff is \<longleftrightarrow> (\<forall>i \<in> set is. seg_ok elf (phdr elf phoff i))
     \<and> (\<forall>i \<in> set is. \<forall>j \<in> set is. i \<noteq> j \<longrightarrow> seg_pages (phdr elf phoff i) \<inter> seg_pages (phdr elf phoff j) = {})"

lemma segs_ok_Cons:
  "segs_ok elf phoff (i # is) \<Longrightarrow> seg_ok elf (phdr elf phoff i) \<and> segs_ok elf phoff is
    \<and> (\<forall>j \<in> set is. i \<noteq> j \<longrightarrow> seg_pages (phdr elf phoff i) \<inter> seg_pages (phdr elf phoff j) = {})"
  by (auto simp: segs_ok_def)

lemma segment_image:
  fixes s :: "'z pmm_state_scheme"
  assumes "aspace s0 root lv U K s" "seg_ok elf ph" "length elf < 2 ^ 64" "load_segment root elf ph s = Inr (r, s')"
  shows "r = Some () \<and> (\<exists>lv' U'. aspace s0 root lv' U' K s') \<and> intact root (seg_pages ph) s s' \<and> seg_held root elf ph (mem s')"
proof (cases "p_type ph = PT_LOAD \<and> p_memsz ph \<noteq> 0")
  case True
  from True assms(4) obtain e s1 where
    "align_up (saturating_add (p_vaddr ph) (p_memsz ph)) PAGE_SIZE = Inr e"
    "map_seg root (seg_fl ph) (align_down (p_vaddr ph) PAGE_SIZE) e s = Inr s1"
    by (auto simp: load_segment_def seg_fl_def Let_def elim!: and_then_InrE)
  from segment_loaded [OF assms(1-3) _ _ this] True assms(4) show ?thesis by auto
next
  case False
  then have "r = Some ()" "s' = s" using assms(4) by (auto simp: load_segment_def)
  then show ?thesis using False assms(1) by (auto simp: seg_held_def intact_def word_le_nat_alt)
qed

lemma segments_image:
  fixes s :: "'z pmm_state_scheme"
  assumes "aspace s0 root lv U K s" "segs_ok elf phoff is" "distinct is" "length elf < 2 ^ 64"
    "load_segments root elf phoff is s = Inr (r, s')"
  shows "r = Some () \<and> (\<exists>lv' U'. aspace s0 root lv' U' K s') \<and> intact root (\<Union>i \<in> set is. seg_pages (phdr elf phoff i)) s s'
    \<and> (\<forall>i \<in> set is. seg_held root elf (phdr elf phoff i) (mem s'))"
  using assms
proof (induction "is" arbitrary: lv U s)
  case Nil
  then show ?case by (auto simp: intact_def)
next
  case (Cons i "is")
  note ok = segs_ok_Cons [OF Cons(3)]
  from Cons(6) obtain r1 s1 where
    1: "load_segment root elf (phdr elf phoff i) s = Inr (r1, s1)" and
    2: "(case r1 of None \<Rightarrow> Inr (None, s1) | Some _ \<Rightarrow> load_segments root elf phoff is s1) = Inr (r, s')"
    by (auto simp: phdr_def elim!: and_then_InrE)
  from segment_image [OF Cons(2) _ Cons(5) 1] ok obtain lv1 U1 where
    a: "r1 = Some ()" "aspace s0 root lv1 U1 K s1" "intact root (seg_pages (phdr elf phoff i)) s s1"
      "seg_held root elf (phdr elf phoff i) (mem s1)" by blast
  from 2 a(1) have "load_segments root elf phoff is s1 = Inr (r, s')" by simp
  from Cons(1) [OF a(2) _ _ Cons(5) this] ok Cons(4) have b: "r = Some ()" "\<exists>lv' U'. aspace s0 root lv' U' K s'"
    "intact root (\<Union>i \<in> set is. seg_pages (phdr elf phoff i)) s1 s'" "\<forall>i \<in> set is. seg_held root elf (phdr elf phoff i) (mem s')"
    by simp_all
  have "seg_pages (phdr elf phoff i) \<inter> (\<Union>i \<in> set is. seg_pages (phdr elf phoff i)) = {}"
    using ok Cons(4) by fastforce
  with seg_held_intact [OF a(4) b(3)] ok have "seg_held root elf (phdr elf phoff i) (mem s')" by blast
  moreover have "intact root (\<Union>i \<in> set (i # is). seg_pages (phdr elf phoff i)) s s'"
    using intact_trans [OF a(3) b(3)] by simp
  ultimately show ?case using b by simp
qed

text \<open>A well-formed program: a header the loader accepts, and segments that lie in the file and in the lower half and share
  no page.\<close>

definition elf_ok :: "u8 list \<Rightarrow> bool" where
  "elf_ok elf \<longleftrightarrow> (let eh = parse_ehdr elf in 64 \<le> length elf \<and> length elf < 2 ^ 64 \<and> elf_header_ok eh
     \<and> unat (e_phoff eh) + unat (e_phnum eh) * 56 \<le> length elf
     \<and> segs_ok elf (unat (e_phoff eh)) [0..<unat (e_phnum eh)])"

definition elf_held :: "u64 \<Rightarrow> u8 list \<Rightarrow> memory \<Rightarrow> bool" where
  "elf_held root elf m \<longleftrightarrow> (let eh = parse_ehdr elf in
     \<forall>i < unat (e_phnum eh). seg_held root elf (phdr elf (unat (e_phoff eh)) i) m)"

lemma elf_image:
  fixes s :: "'z pmm_state_scheme"
  assumes "aspace s0 root lv U K s" "elf_ok elf" "load_code root elf s = Inr (ev, s')"
  shows "ev = e_entry (parse_ehdr elf) \<and> (\<exists>lv' U'. aspace s0 root lv' U' K s') \<and> elf_held root elf (mem s')"
proof -
  let ?eh = "parse_ehdr elf"
  have ne: "elf \<noteq> []" using assms(2) by (auto simp: elf_ok_def Let_def)
  from ne assms(3) obtain s1 where l: "load_elf_into_user root elf s = Inr (Some ev, s1)" "s' = s1"
    by (auto simp: load_code_def elim!: and_then_InrE)
  from l obtain r1 where r: "load_segments root elf (unat (e_phoff ?eh)) [0..<unat (e_phnum ?eh)] s = Inr (r1, s')" "ev = e_entry ?eh"
    by (auto simp: load_elf_into_user_def Let_def split: if_splits option.splits elim!: and_then_InrE)
  have "segs_ok elf (unat (e_phoff ?eh)) [0..<unat (e_phnum ?eh)]" "length elf < 2 ^ 64"
    using assms(2) by (simp_all add: elf_ok_def Let_def)
  from segments_image [OF assms(1) this(1) _ this(2) r(1)] r(2) show ?thesis by (simp add: elf_held_def Let_def)
qed

text \<open>Loading a well-formed program does not fail while enough frames are left.\<close>

definition seg_frames :: "Elf64Phdr \<Rightarrow> nat" where
  "seg_frames ph = (if p_type ph = PT_LOAD \<and> p_memsz ph \<noteq> 0
     then 4 * ((unat (p_vaddr ph) + unat (p_memsz ph) + 4095) div 4096 - unat (p_vaddr ph) div 4096) else 0)"

definition elf_frames :: "u8 list \<Rightarrow> nat" where
  "elf_frames elf = (let eh = parse_ehdr elf in
     sum_list (map (\<lambda>i. seg_frames (phdr elf (unat (e_phoff eh)) i)) [0..<unat (e_phnum eh)]))"

lemma segment_total:
  fixes s :: "'z heap_state_scheme"
  assumes "aspace s0 root lv U K s" "seg_ok elf ph" "length elf < 2 ^ 64" "seg_frames ph \<le> frames s"
  shows "\<exists>s'. load_segment root elf ph s = Inr (Some (), s') \<and> keeps s s' (seg_frames ph)"
proof (cases "p_type ph = PT_LOAD \<and> p_memsz ph \<noteq> 0")
  case True
  have inv: "pmm_inv s" using aspaceD(1) [OF assms(1)] by (simp add: mem_ok_def)
  have lo: "unat (p_vaddr ph) + unat (p_memsz ph) \<le> 2 ^ 47" using True assms(2) by (simp add: seg_ok_def)
  then have "unat (saturating_add (p_vaddr ph) (p_memsz ph)) = unat (p_vaddr ph) + unat (p_memsz ph)" by (simp add: word_nat)
  then obtain e where e: "align_up (saturating_add (p_vaddr ph) (p_memsz ph)) PAGE_SIZE = Inr e"
    using align_up_pow2_eq [of 12 "saturating_add (p_vaddr ph) (p_memsz ph)"] lo by fastforce
  have a: "unat (align_down (p_vaddr ph) PAGE_SIZE) = 4096 * (unat (p_vaddr ph) div 4096)"
    "unat e = 4096 * ((unat (p_vaddr ph) + unat (p_memsz ph) + 4095) div 4096)"
    using seg_end_low(1) [OF e lo] by (simp_all add: unat_align_down_page)
  from map_seg_keeps [OF inv a, of root "seg_fl ph"] assms(4) True obtain s1 where
    m: "map_seg root (seg_fl ph) (align_down (p_vaddr ph) PAGE_SIZE) e s = Inr s1" "keeps s s1 (seg_frames ph)"
    by (auto simp: seg_frames_def)
  from segment_loaded [OF assms(1-3) _ _ e m(1)] True m(2) show ?thesis by (auto simp: keeps_mem)
next
  case False
  moreover have "pmm_inv s" using aspaceD(1) [OF assms(1)] by (simp add: mem_ok_def)
  ultimately show ?thesis by (auto simp: load_segment_def keeps_refl)
qed

lemma segments_total:
  fixes s :: "'z heap_state_scheme"
  assumes "aspace s0 root lv U K s" "segs_ok elf phoff is" "length elf < 2 ^ 64"
    "sum_list (map (\<lambda>i. seg_frames (phdr elf phoff i)) is) \<le> frames s"
  shows "\<exists>s'. load_segments root elf phoff is s = Inr (Some (), s')
    \<and> keeps s s' (sum_list (map (\<lambda>i. seg_frames (phdr elf phoff i)) is))"
  using assms
proof (induction "is" arbitrary: lv U s)
  case Nil
  then have "pmm_inv s" using aspaceD(1) [OF Nil(1)] by (simp add: mem_ok_def)
  then show ?case by (simp add: keeps_refl)
next
  case (Cons i "is")
  note ok = segs_ok_Cons [OF Cons(3)]
  let ?n = "\<lambda>i. seg_frames (phdr elf phoff i)"
  from segment_total [OF Cons(2) _ Cons(4), of "phdr elf phoff i"] ok Cons(5) obtain s1 where
    1: "load_segment root elf (phdr elf phoff i) s = Inr (Some (), s1)" "keeps s s1 (?n i)" by auto
  from segment_image [OF Cons(2) _ Cons(4) 1(1)] ok obtain lv1 U1 where a: "aspace s0 root lv1 U1 K s1" by blast
  have "sum_list (map ?n is) \<le> frames s1" using keepsD(2) [OF 1(2)] Cons(5) by (simp add: add.commute)
  from Cons(1) [OF a _ Cons(4) this] ok obtain s' where
    2: "load_segments root elf phoff is s1 = Inr (Some (), s')" "keeps s1 s' (sum_list (map ?n is))" by blast
  with 1 keeps_trans [OF 1(2) 2(2)] show ?case by (simp add: phdr_def)
qed

lemma elf_total:
  fixes s :: "'z heap_state_scheme"
  assumes "aspace s0 root lv U K s" "elf_ok elf" "elf_frames elf \<le> frames s"
  shows "\<exists>s'. load_code root elf s = Inr (e_entry (parse_ehdr elf), s') \<and> keeps s s' (elf_frames elf)"
proof -
  let ?eh = "parse_ehdr elf"
  have ok: "64 \<le> length elf" "length elf < 2 ^ 64" "elf_header_ok ?eh" "unat (e_phoff ?eh) + unat (e_phnum ?eh) * 56 \<le> length elf"
    "segs_ok elf (unat (e_phoff ?eh)) [0..<unat (e_phnum ?eh)]" using assms(2) by (simp_all add: elf_ok_def Let_def)
  from segments_total [OF assms(1) ok(5,2)] assms(3) obtain s' where
    l: "load_segments root elf (unat (e_phoff ?eh)) [0..<unat (e_phnum ?eh)] s = Inr (Some (), s')" "keeps s s' (elf_frames elf)"
    by (auto simp: elf_frames_def Let_def)
  have "unat (e_phnum ?eh) < 2 ^ 16" using unsigned_less [of "e_phnum ?eh"] by simp
  then have n: "unat (ucast (e_phnum ?eh) * 56 :: u64) = unat (e_phnum ?eh) * 56"
    by (subst unat_mul_no_wrap) (simp_all add: unsigned_ucast_eq take_bit_eq_mod)
  have "\<not> past_end (e_phoff ?eh) (ucast (e_phnum ?eh) * 56) elf" by (rule not_past_end [OF _ ok(2)]) (use n ok(4) in simp)
  then have "load_elf_into_user root elf s = Inr (Some (e_entry ?eh), s')"
    using ok l(1) by (simp add: load_elf_into_user_def Let_def)
  moreover have "elf \<noteq> []" using ok(1) by auto
  ultimately show ?thesis using l(2) by (simp add: load_code_def)
qed

section \<open>What a process can reach\<close>

lemma user_walk_own:
  assumes "tables_ok root lv U K m" "lv root = Some 4" "frame_ok root" "\<And>f. f \<in> U \<Longrightarrow> frame_ok f"
    "mmu_user_walk m root v = Some pa"
  shows "page_of pa \<in> unat ` U"
proof -
  let ?e4 = "te m root (pt_index 39 v)"
  let ?e3 = "te m (?e4 AND ADDR_MASK) (pt_index 30 v)"
  let ?e2 = "te m (?e3 AND ADDR_MASK) (pt_index 21 v)"
  let ?e1 = "te m (?e2 AND ADDR_MASK) (pt_index 12 v)"
  let ?R = "PTE_P OR PTE_U"
  note w = assms(5) [unfolded mmu_user_walk_def mmu_walk_req_def Let_def frame_and_mask [OF assms(3)]]
  have e4: "?e4 AND ?R = ?R" using w by (simp split: if_splits)
  then have "pt_index 39 v \<noteq> 256" using tables_okD(2) [OF assms(1,2) pt_index_bound, of 39 v] user_bits(2) by auto
  then have l3: "lv (?e4 AND ADDR_MASK) = Some 3" using aspace_next(1) [OF assms(1,2) _ pt_index_bound _ user_bits(1) [OF e4]] by simp
  have e3: "?e3 AND ?R = ?R" using w e4 by (simp split: if_splits)
  have n3: "?e4 AND ADDR_MASK \<noteq> root" using l3 assms(2) by auto
  have l2: "lv (?e3 AND ADDR_MASK) = Some 2" "?e3 AND PTE_PS = 0"
    using aspace_next [OF assms(1) l3 _ pt_index_bound _ user_bits(1) [OF e3]] n3 by simp_all
  have e2: "?e2 AND ?R = ?R" using w e4 e3 l2(2) by (simp split: if_splits)
  have n2: "?e3 AND ADDR_MASK \<noteq> root" using l2 assms(2) by auto
  have l1: "lv (?e2 AND ADDR_MASK) = Some 1" "?e2 AND PTE_PS = 0"
    using aspace_next [OF assms(1) l2(1) _ pt_index_bound _ user_bits(1) [OF e2]] n2 by simp_all
  have e1: "?e1 AND ?R = ?R" and pa: "pa = (?e1 AND ADDR_MASK) + (v AND 0xfff)"
    using w e4 e3 e2 l2(2) l1(2) by (simp_all split: if_splits)
  have "?e1 AND ADDR_MASK \<in> U"
    using aspace_leaf [OF assms(1) l1(1) assms(2) pt_index_bound user_bits(1) [OF e1]] user_bits(2) [OF e1] by blast
  with page_of_offset [OF assms(4)] show ?thesis unfolding pa by (metis imageI)
qed

text \<open>The translations of a process depend on its tables only.\<close>

lemma aspace_stable:
  assumes "aspace s0 root lv U K s" "\<And>a. page_of a \<in> unat ` dom lv \<Longrightarrow> m a = mem s a" "mmu_user_walk m root v = Some pa"
  shows "page_of pa \<in> unat ` U"
proof -
  note d = aspaceD [OF assms(1)]
  have "te m t i = te (mem s) t i" if "lv t = Some l" "i < 512" for t l i
  proof (rule te_page [OF _ that(2)])
    show "frame_ok t" using d(4) [of t] that(1) by auto
    show "page_of a = unat t \<Longrightarrow> m a = mem s a" for a using assms(2) that(1) by blast
  qed
  then have "tables_ok root lv U K m" unfolding tables_ok_def using tables_okD [OF d(7)] by metis
  then show ?thesis
    by (rule user_walk_own) (use d(2) d(4) [of root] d(5) assms(3) in \<open>auto dest: used_frame\<close>)
qed

end
