(* ===== verification/First_Frame.thy ===== *)
theory First_Frame
  imports Kernel_Reach
begin

text \<open>
  The trap frame a process is first resumed from: \<open>build_initial_tf\<close> lays out twenty words on the new kernel
  stack, and the return path of the interrupt stubs reads from them the registers \<open>start_regs\<close>.
\<close>

lemma trap_return_cong: "mem s' = mem s \<Longrightarrow> mantra_trap_return tf s' = mantra_trap_return tf s"
  by (rule ext) (simp add: trap_return_get tf_get_def vread64_def)

section \<open>Words that do not overlap\<close>

lemma span8_iff: "x \<in> span8 a \<longleftrightarrow> unat (x - a) < 8"
proof
  assume "unat (x - a) < 8"
  then have "x - a \<in> {0, 1, 2, 3, 4, 5, 6, 7}" by (auto simp: word_unat_eq_iff)
  then show "x \<in> span8 a" by (auto simp: span8_def algebra_simps)
qed (auto simp: span8_def)

lemma span8_apart:
  assumes "8 \<le> unat d" "unat d + 8 \<le> 2 ^ 64"
  shows "span8 a \<inter> span8 (a + d) = {}"
proof -
  have False if "unat (x - a) < 8" "unat (x - (a + d)) < 8" for x
  proof -
    have "x - a = d + (x - (a + d))" by simp
    moreover have "unat (d + (x - (a + d))) = unat d + unat (x - (a + d))" using that(2) assms(2) by (intro unat_add_no_wrap) simp
    ultimately show False using that(1) assms(1) by simp
  qed
  then show ?thesis by (auto simp: span8_iff)
qed

lemma tf_index_less: "tf_index f < 20"
  by (cases f) simp_all

lemma tf_words_apart:
  assumes "f \<noteq> g"
  shows "span8 (tf_addr tf f - HHDM_BASE) \<inter> span8 (tf_addr tf g - HHDM_BASE) = {}"
proof -
  note lt = tf_index_less
  have *: "span8 (tf_addr tf f - HHDM_BASE) \<inter> span8 (tf_addr tf g - HHDM_BASE) = {}" if "tf_index f < tf_index g" for f g
  proof -
    define d :: u64 where "d = 8 * of_nat (tf_index g - tf_index f)"
    have "unat d = 8 * (tf_index g - tf_index f)" using lt [of g] unfolding d_def by (subst unat_mul_no_wrap) (simp_all add: unat_of_nat)
    then have "8 \<le> unat d" "unat d + 8 \<le> 2 ^ 64" using that lt [of g] by simp_all
    moreover have "tf_addr tf g - HHDM_BASE = (tf_addr tf f - HHDM_BASE) + d"
      using that by (simp add: tf_addr_def d_def of_nat_diff algebra_simps)
    ultimately show ?thesis by (metis span8_apart)
  qed
  have "tf_index f \<noteq> tf_index g" using assms by (cases f; cases g) simp_all
  then show ?thesis using * [of f g] * [of g f] by (cases "tf_index f < tf_index g") (auto simp: Int_commute)
qed

lemma tf_get_set: "tf_get f tf (tf_set g v tf s) = (if f = g then v else tf_get f tf s)"
  using tf_words_apart [of g f tf] by (auto simp: tf_get_def tf_set_def vread64_def vwrite64_def rd64_wr64_disjoint)

lemma tf_get_zero: "tf_get f tf (fill_zero tf TF_SIZE s) = 0"
proof -
  have "mem (fill_zero tf TF_SIZE s) x = 0" if "x \<in> span8 (tf_addr tf f - HHDM_BASE)" for x
  proof -
    let ?j = "8 * of_nat (tf_index f) :: u64"
    have j: "unat ?j = 8 * tf_index f" "tf_index f < 20"
      using tf_index_less [of f] by (simp_all add: unat_mul_no_wrap unat_of_nat)
    have x: "unat (x - (tf_addr tf f - HHDM_BASE)) < 8" using that by (simp add: span8_iff)
    have "x - (tf - HHDM_BASE) = ?j + (x - (tf_addr tf f - HHDM_BASE))" by (simp add: tf_addr_def)
    moreover have "unat (?j + (x - (tf_addr tf f - HHDM_BASE))) = 8 * tf_index f + unat (x - (tf_addr tf f - HHDM_BASE))"
      unfolding j(1) [symmetric] by (rule unat_add_no_wrap) (use j x in simp)
    ultimately have "unat (x - (tf - HHDM_BASE)) = 8 * tf_index f + unat (x - (tf_addr tf f - HHDM_BASE))" by (simp only:)
    then have "unat (x - (tf - HHDM_BASE)) < 160" using j(2) x by simp
    then show ?thesis by (simp add: fill_zero_def TF_SIZE_def word_less_nat_alt)
  qed
  then have "rd64 (mem (fill_zero tf TF_SIZE s)) (tf_addr tf f - HHDM_BASE) = rd64 (\<lambda>_. 0) (tf_addr tf f - HHDM_BASE)"
    by (intro rd64_cong) simp
  then show ?thesis by (simp add: tf_get_def vread64_def rd64_def)
qed

text \<open>The registers a process starts with.\<close>

definition start_regs :: "u64 \<Rightarrow> u64 \<Rightarrow> u64 \<Rightarrow> tf_field \<Rightarrow> u64" where
  "start_regs entry_v role init_ep_cap f = (case f of RIP \<Rightarrow> entry_v | RDI \<Rightarrow> role | RSI \<Rightarrow> init_ep_cap | CS \<Rightarrow> 0x33 | SS \<Rightarrow> 0x2b
     | RFLAGS \<Rightarrow> 0x202 | RSP \<Rightarrow> 0x1ffffff8 | _ \<Rightarrow> 0)"

lemma initial_tf_regs:
  assumes "build_initial_tf kst ev (USER_STACK_TOP - 8) role c s = Inr (tf, s')"
  shows "mantra_trap_return tf s' = start_regs ev role c"
proof
  fix f
  show "mantra_trap_return tf s' f = start_regs ev role c f"
    using assms by (cases f) (auto simp: build_initial_tf_def Let_def trap_return_get tf_get_set tf_get_zero start_regs_def
      UCODE_SEL_def UDATA_SEL_def USER_STACK_TOP_def elim!: and_then_InrE)
qed

end
