(* ===== verification/User_Space.thy ===== *)
theory User_Space
  imports User_Load First_Frame
begin

text \<open>
  A whole process: its address space is built, its program loaded, its kernel stack and first trap frame laid out.
\<close>

section \<open>The kernel stack\<close>

text \<open>Only the bytes of the virtual addresses from \<open>lo\<close> to \<open>hi\<close> change.\<close>

definition within :: "nat \<Rightarrow> nat \<Rightarrow> 'z machine_scheme \<Rightarrow> 'z machine_scheme \<Rightarrow> bool" where
  "within lo hi s s' \<longleftrightarrow> (\<forall>a. mem s' a \<noteq> mem s a \<longrightarrow> lo \<le> unat (a + HHDM_BASE) \<and> unat (a + HHDM_BASE) < hi)"

lemma within_trans: "within lo hi s s1 \<Longrightarrow> within lo hi s1 s2 \<Longrightarrow> within lo hi s s2"
  unfolding within_def by metis

lemma within_mono: "within lo hi s s' \<Longrightarrow> lo' \<le> lo \<Longrightarrow> hi \<le> hi' \<Longrightarrow> within lo' hi' s s'"
  unfolding within_def by fastforce

lemma offset_range:
  fixes x va n :: u64
  assumes "x - va < n" "unat va + unat n < 2 ^ 64"
  shows "unat va \<le> unat x" "unat x < unat va + unat n"
proof -
  have "x = va + (x - va)" by simp
  moreover have "unat (va + (x - va)) = unat va + unat (x - va)"
    using assms by (intro unat_add_no_wrap) (simp add: word_less_nat_alt)
  ultimately show "unat va \<le> unat x" "unat x < unat va + unat n"
    using assms(1) by (auto simp: word_less_nat_alt)
qed

lemma fill_zero_within:
  assumes "unat va + unat n < 2 ^ 64"
  shows "within (unat va) (unat va + unat n) s (fill_zero va n s)"
  unfolding within_def
proof (intro allI impI)
  fix a assume "mem (fill_zero va n s) a \<noteq> mem s a"
  then have "(a + HHDM_BASE) - va < n" by (auto simp: fill_zero_def algebra_simps split: if_splits)
  from offset_range [OF this assms] show "unat va \<le> unat (a + HHDM_BASE) \<and> unat (a + HHDM_BASE) < unat va + unat n" by simp
qed

lemma vwrite64_within:
  assumes "unat va + 8 < 2 ^ 64"
  shows "within (unat va) (unat va + 8) s (vwrite64 va v s)"
  unfolding within_def
proof (intro allI impI)
  fix a assume "mem (vwrite64 va v s) a \<noteq> mem s a"
  then have "a \<in> span8 (va - HHDM_BASE)" using wr64_outside by (fastforce simp: vwrite64_def)
  then have "(a + HHDM_BASE) - va < 8" by (auto simp: span8_def)
  from offset_range [OF this] assms show "unat va \<le> unat (a + HHDM_BASE) \<and> unat (a + HHDM_BASE) < unat va + 8" by simp
qed

lemma tf_set_within:
  assumes "unat tf + 160 < 2 ^ 64"
  shows "within (unat tf) (unat tf + 160) s (tf_set f v tf s)"
proof -
  have i: "tf_index f < 20" by (cases f) simp_all
  then have "unat (8 * of_nat (tf_index f) :: u64) = 8 * tf_index f"
    by (subst unat_mul_no_wrap) (simp_all add: unat_of_nat)
  then have "unat (tf_addr tf f) = unat tf + 8 * tf_index f"
    unfolding tf_addr_def using assms i by (subst unat_add_no_wrap) simp_all
  with vwrite64_within [of "tf_addr tf f" s v] assms i show ?thesis
    unfolding tf_set_def by (intro within_mono [OF vwrite64_within]) simp_all
qed

lemma initial_tf_within:
  assumes "build_initial_tf kst ev rsp role c s = Inr (tf, s')" "unat kst + 8 < 2 ^ 64"
  shows "within (unat kst - 160) (unat kst) s s'" "160 \<le> unat kst" "PMM s' = PMM s"
proof -
  have tf: "160 \<le> unat kst" "unat tf = unat kst - 160"
    using assms(1) by (auto simp: build_initial_tf_def TF_SIZE_def sub_chk_eq_Inr unat_sub word_le_nat_alt Let_def
        elim!: and_then_InrE)
  show "160 \<le> unat kst" by (rule tf)
  have b: "unat tf + 160 < 2 ^ 64" "unat tf + unat TF_SIZE < 2 ^ 64" using tf assms(2) by (simp_all add: TF_SIZE_def)
  have z: "within (unat tf) (unat tf + 160) s (fill_zero tf TF_SIZE s)"
    using fill_zero_within [OF b(2), of s] by (simp add: TF_SIZE_def)
  note w = within_trans [OF _ tf_set_within [OF b(1)]]
  have "within (unat tf) (unat tf + 160) s s'"
    using assms(1) w [OF w [OF w [OF w [OF w [OF w [OF w [OF z]]]]]]]
    by (auto simp: build_initial_tf_def Let_def elim!: and_then_InrE)
  then show "within (unat kst - 160) (unat kst) s s'" using tf by simp
  show "PMM s' = PMM s"
    using assms(1) by (auto simp: build_initial_tf_def Let_def tf_set_def vwrite64_def fill_zero_def elim!: and_then_InrE)
qed

lemma kstack_within:
  assumes "kstack_alloc_top s = Inr (kst, s')" "heap_inv s"
  shows "within (unat kst - 16384) (unat kst) s s'" "unat (h_next (HEAP s)) + 16384 \<le> unat kst"
    "unat kst \<le> unat (h_end (HEAP s))" "unat kst + 8 < 2 ^ 64" "PMM s' = PMM s"
proof -
  have l: "layout_ok (KSTACK_SIZE, 1)" by (auto simp: layout_ok_def intro: exI [of _ 0])
  have sz: "unat KSTACK_SIZE = 16384" by (simp add: KSTACK_SIZE_def)
  from assms(1) obtain b s1 where k: "kalloc (KSTACK_SIZE, 1) s = Inr (Some b, s1)" "add_chk b KSTACK_SIZE = Inr kst"
    "s' = fill_zero b KSTACK_SIZE s1"
    by (auto simp: kstack_alloc_top_def split: option.splits elim!: and_then_InrE)
  have kst: "unat kst = unat b + 16384" "unat b + 16384 < 2 ^ 64"
    using k(2) sz by (auto simp: add_chk_nat unat_add_no_wrap split: if_splits)
  have h: "h_ready (HEAP s)" "unat (h_next (HEAP s)) \<le> unat b" "unat b + 16384 \<le> unat (h_end (HEAP s))"
    "mem s1 = mem s" "PMM s1 = PMM s"
    using assms(2) l k(1) sz by (cases rule: kalloc_cases; auto)+
  show "within (unat kst - 16384) (unat kst) s s'"
    using fill_zero_within [of b KSTACK_SIZE s1] kst sz h(4) by (simp add: k(3) within_def)
  show "unat (h_next (HEAP s)) + 16384 \<le> unat kst" "unat kst \<le> unat (h_end (HEAP s))" using kst h(2,3) by simp_all
  then show "unat kst + 8 < 2 ^ 64" using assms(2) h(1) by (simp add: heap_inv_def)
  show "PMM s' = PMM s" by (simp add: k(3) fill_zero_def h(5))
qed

section \<open>A whole process\<close>

text \<open>The kernel image and the free part of the heap, page by page.\<close>

definition kernel_pages :: "'z user_state_scheme \<Rightarrow> nat set" where
  "kernel_pages s = {page_of a | a. BOOT_KB s \<le> a \<and> a < BOOT_KE s}
     \<union> {page_of (va - HHDM_BASE) | va. h_next (HEAP s) \<le> va \<and> va < h_end (HEAP s)}"

definition kernel_frames :: "'z user_state_scheme \<Rightarrow> u64 set" where
  "kernel_frames s = {f. frame_ok f \<and> unat f \<in> kernel_pages s}"

lemma aspace_start:
  fixes s :: "'z pmm_state_scheme"
  assumes "mem_ok s" "\<And>f. f \<in> K \<Longrightarrow> used f s" "user_alloc_table s = Inr (root, s1)"
  shows "aspace s root [root \<mapsto> 4] {} K s1"
proof -
  note a = assms(3) [unfolded user_alloc_table_def]
  note p = alloc_table_post [OF assms(1) a] and z = te_alloc [OF assms(1) a]
  obtain pm where s1: "s1 = s\<lparr>PMM := Some pm, mem := zero_frame root (mem s)\<rparr>" using p(1) by blast
  from a obtain t where t: "alloc_pages 1 s = Inr (Some root, t)" "s1 = zero_page root t"
    by (auto simp: alloc_table_msg_def elim!: and_then_InrE)
  have "pmm_free s1 = pmm_free t" by (simp add: t(2) zero_page_def pmm_free_def)
  then have "pmm_free s1 \<subseteq> pmm_free s" using pmm.alloc_free_subset [OF _ t(1)] assms(1) by (simp add: mem_ok_def)
  moreover have "tables_ok root [root \<mapsto> 4] {} K (mem s1)"
    using z(1) by (auto simp: tables_ok_def entry_ok_def)
  moreover have "unshared root [root \<mapsto> 4] K (mem s1)" using z(1) by (auto simp: unshared_def points_def pslot_def split: if_splits)
  moreover have "mem s1 b = mem s b" if "page_of b \<notin> pmm_free s" for b
  proof -
    have "zero_frame root (mem s) b = mem s b"
      using page_of_zero [OF used_frame [OF p(3)], of "mem s" b] p(4) that by metis
    then show ?thesis by (simp add: s1)
  qed
  ultimately show ?thesis
    unfolding aspace_def using p(2-5) assms(2) by (auto simp: only_mem_def s1)
qed

lemma kernel_frame:
  assumes "n \<in> kernel_pages s" "unat (BOOT_KE s) \<le> 2 ^ 47" "HHDM_BASE \<le> h_next (HEAP s)"
  shows "n \<in> unat ` kernel_frames s"
proof -
  from assms(1) consider (image) a where "n = page_of a" "a < BOOT_KE s"
    | (heap) va where "n = page_of (va - HHDM_BASE)" "h_next (HEAP s) \<le> va"
    unfolding kernel_pages_def by blast
  then obtain a where a: "n = page_of a" "unat a < 2 ^ 47"
  proof cases
    case image
    then show thesis using that assms(2) by (simp add: word_less_nat_alt)
  next
    case heap
    have "HHDM_BASE \<le> va" using assms(3) heap(2) by simp
    then have "unat (va - HHDM_BASE) = unat va - unat HHDM_BASE" by (rule unat_sub)
    then have "unat (va - HHDM_BASE) < 2 ^ 47" using unat_u64_lt [of va] by (simp add: HHDM_BASE_def)
    then show thesis using that heap(1) by blast
  qed
  let ?f = "align_down a PAGE_SIZE"
  have "unat ?f = n" by (simp add: a(1) page_of_def unat_align_down_page)
  moreover have "frame_ok ?f" using a(2) align_down_le [of a] by (simp add: frame_ok_def unat_align_down_page)
  ultimately show ?thesis using assms(1) unfolding kernel_frames_def by force
qed

lemma kernel_image_page:
  assumes "BOOT_KB s < BOOT_KE s" "align_up (BOOT_KE s) PAGE_SIZE = Inr ke" "align_down (BOOT_KB s) PAGE_SIZE \<le> q" "q < ke"
    "4096 dvd unat q"
  shows "unat q \<in> kernel_pages s"
proof -
  obtain k where k: "unat q = 4096 * k" using assms(5) by (elim dvdE)
  have q: "unat (BOOT_KB s) div 4096 \<le> k" "k < (unat (BOOT_KE s) + 4095) div 4096"
    using assms(3,4) align_up_page_Inr(1) [OF assms(2)] k by (simp_all add: word_le_nat_alt word_less_nat_alt unat_align_down_page)
  have "Suc k * 4096 \<le> unat (BOOT_KE s) + 4095" using q(2) by (simp only: Suc_le_eq [symmetric] less_eq_div_iff_mult_less_eq)
  then have ke: "unat q < unat (BOOT_KE s)" using k by simp
  show ?thesis
  proof (cases "BOOT_KB s \<le> q")
    case True
    then show ?thesis using ke k unfolding kernel_pages_def
      by (intro UnI1 CollectI exI [of _ q]) (simp add: page_of_def word_less_nat_alt)
  next
    case False
    then have "k * 4096 \<le> unat (BOOT_KB s)" using k by (simp add: word_le_nat_alt)
    then have "unat (BOOT_KB s) div 4096 = k" using q(1) by (simp add: less_eq_div_iff_mult_less_eq order_antisym)
    then show ?thesis using assms(1) k unfolding kernel_pages_def
      by (intro UnI1 CollectI exI [of _ "BOOT_KB s"]) (simp add: page_of_def)
  qed
qed

lemma aspace_prefix:
  fixes s :: "'z user_state_scheme"
  assumes "mem_ok s" "BOOT_KB s < BOOT_KE s" "unat (BOOT_KE s) \<le> 2 ^ 47" "kernel_pages s \<inter> pmm_free s = {}"
    "user_alloc_table s = Inr (root, s1)" "align_up (BOOT_KE s) PAGE_SIZE = Inr ke"
    "map_identity root (align_down (BOOT_KB s) PAGE_SIZE) ke s1 = Inr s2" "map_hhdm_huge root (BOOT_MAX s) s2 = Inr s3"
    "map_stack root [0..<4] s3 = Inr s4"
  obtains lv U K where "aspace s root lv U K s4" "kernel_grows s (kernel_frames s) K"
proof -
  let ?K = "kernel_frames s"
  have "used f s" if "f \<in> ?K" for f using that assms(4) by (auto simp: kernel_frames_def used_def)
  from aspace_start [OF assms(1) this assms(5)] have a1: "aspace s root [root \<mapsto> 4] {} ?K s1" by blast
  have "(unat (BOOT_KE s) + 4095) div 4096 \<le> (2 ^ 47 + 4095) div 4096" using assms(3) by (intro div_le_mono) simp
  then have ke47: "unat ke \<le> 2 ^ 47" using align_up_page_Inr(1) [OF assms(6)] by simp
  have "\<exists>lv. aspace s root lv {} ?K s2"
  proof (rule aspace_identity [OF a1 assms(7) _ ke47])
    show "4096 dvd unat (align_down (BOOT_KB s) PAGE_SIZE)" by (simp add: unat_align_down_page)
    fix q assume q: "align_down (BOOT_KB s) PAGE_SIZE \<le> q" "q < ke" "4096 dvd unat q"
    then have "frame_ok q" using ke47 by (simp add: frame_ok_def word_less_nat_alt)
    then show "q \<in> ?K" using kernel_image_page [OF assms(2,6) q] by (simp add: kernel_frames_def)
  qed
  then obtain lv2 where a2: "aspace s root lv2 {} ?K s2" by blast
  from aspace_hhdm [OF a2 assms(8)] obtain K where a3: "aspace s root lv2 {} K s3" and g: "kernel_grows s ?K K" by blast
  from aspace_stack [OF a3 assms(9)] obtain lv4 U4 where a4: "aspace s root lv4 U4 K s4" by auto
  from that [OF a4 g] show thesis .
qed

lemma aspace_process:
  fixes s :: "'z user_state_scheme"
  assumes "mem_ok s" "BOOT_KB s < BOOT_KE s" "unat (BOOT_KE s) \<le> 2 ^ 47" "kernel_pages s \<inter> pmm_free s = {}"
    "build_proc_from_init elf role c s = Inr ((tf, kst, root, ev), s')"
  obtains lv U K s4 s5 s6 where "aspace s root lv U K s4" "kernel_grows s (kernel_frames s) K" "load_code root elf s4 = Inr (ev, s5)"
    "kstack_alloc_top s5 = Inr (kst, s6)" "build_initial_tf kst ev (USER_STACK_TOP - 8) role c s6 = Inr (tf, s')"
proof -
  from assms(5) obtain s1 ke s2 s3 s4 s5 s6 where
    p: "user_alloc_table s = Inr (root, s1)" "align_up (BOOT_KE s) PAGE_SIZE = Inr ke"
      "map_identity root (align_down (BOOT_KB s) PAGE_SIZE) ke s1 = Inr s2" "map_hhdm_huge root (BOOT_MAX s) s2 = Inr s3"
      "map_stack root [0..<4] s3 = Inr s4" and
    q: "load_code root elf s4 = Inr (ev, s5)" "kstack_alloc_top s5 = Inr (kst, s6)"
      "build_initial_tf kst ev (USER_STACK_TOP - 8) role c s6 = Inr (tf, s')"
    by (auto simp: build_proc_from_init_def Let_def split: if_splits elim!: and_then_InrE)
  from aspace_prefix [OF assms(1-4) p] obtain lv U K where "aspace s root lv U K s4" "kernel_grows s (kernel_frames s) K" .
  from that [OF this q] show thesis .
qed

text \<open>Kernel stack and trap frame lie in the heap, that is in kernel frames.\<close>

lemma process_final:
  fixes s :: "'z user_state_scheme"
  assumes "aspace s root lv U K s5" "kernel_grows s (kernel_frames s) K" "heap_inv s" "unat (BOOT_KE s) \<le> 2 ^ 47" "HHDM_BASE \<le> h_next (HEAP s)"
    "kstack_alloc_top s5 = Inr (kst, s6)" "build_initial_tf kst ev (USER_STACK_TOP - 8) role c s6 = Inr (tf, s')"
  shows "aspace s root lv U K (s5\<lparr>mem := mem s'\<rparr>)" "pmm_free s' = pmm_free s5" "mem s' b \<noteq> mem s5 b \<Longrightarrow> page_of b \<in> unat ` K"
proof -
  have h: "HEAP s5 = HEAP s" using aspaceD(9) [OF assms(1)] by (auto simp: only_mem_def)
  then have "heap_inv s5" using assms(3) by (simp add: heap_inv_def)
  note kw = kstack_within [OF assms(6) this] and tw = initial_tf_within [OF assms(7)]
  have "within (unat kst - 16384) (unat kst) s5 s'"
    using within_trans [OF kw(1) within_mono [OF tw(1) [OF kw(4)]]] by simp
  then have ch: "h_next (HEAP s) \<le> b + HHDM_BASE \<and> b + HHDM_BASE < h_end (HEAP s)" if "mem s' b \<noteq> mem s5 b" for b
    using that kw(2,3) h by (auto simp: within_def word_le_nat_alt word_less_nat_alt)
  have hp: "page_of b \<in> kernel_pages s" if "mem s' b \<noteq> mem s5 b" for b
    unfolding kernel_pages_def using ch [OF that] by (intro UnI2 CollectI exI [of _ "b + HHDM_BASE"]) simp
  show k: "page_of b \<in> unat ` K" if "mem s' b \<noteq> mem s5 b" for b
    using kernel_frame [OF hp [OF that] assms(4,5)] assms(2) by (auto simp: kernel_grows_def)
  show "aspace s root lv U K (s5\<lparr>mem := mem s'\<rparr>)" by (rule aspace_mem [OF assms(1)]) (use k in blast)
  show "pmm_free s' = pmm_free s5" using kw(5) tw(3) [OF kw(4)] by (simp add: pmm_free_def)
qed


section \<open>The program of a process\<close>

text \<open>The byte that user mode reads at a virtual address.\<close>

definition user_byte :: "memory \<Rightarrow> u64 \<Rightarrow> u64 \<Rightarrow> u8 option" where
  "user_byte m root v = map_option m (mmu_user_walk m root v)"

lemma seg_held_bytes:
  assumes "aspace s0 root lv U K s" "seg_ok elf ph" "seg_held root elf ph (mem s)" "p_type ph = PT_LOAD" "k < unat (p_memsz ph)"
  shows "user_byte (mem s) root (p_vaddr ph + of_nat k) = Some (image_byte elf ph k)"
proof -
  let ?w = "p_vaddr ph + of_nat k"
  have lo: "unat (p_vaddr ph) + unat (p_memsz ph) \<le> 2 ^ 47" using assms(2,4) by (simp add: seg_ok_def)
  have "unat (of_nat k :: u64) = k" using assms(5) lo by (simp add: unat_of_nat)
  then have w: "unat ?w = unat (p_vaddr ph) + k" using assms(5) lo by (subst unat_add_no_wrap) simp_all
  then have "p_vaddr ph \<le> ?w" "unat ?w < unat (p_vaddr ph) + unat (p_memsz ph)" "unat ?w - unat (p_vaddr ph) = k"
    using assms(5) by (simp_all add: word_le_nat_alt)
  then obtain f where f: "upage (mem s) root ?w f" "mem s (f + (?w AND 0xfff)) = image_byte elf ph k"
    using assms(3,4) unfolding seg_held_def by metis
  have "unat ?w < 2 ^ 47" using w assms(5) lo by simp
  from upage_facts(4) [OF assms(1) this f(1)] f(2) show ?thesis by (simp add: user_byte_def)
qed

lemma seg_held_kernel:
  assumes "aspace s0 root lv U K s" "seg_ok elf ph" "seg_held root elf ph (mem s)" "\<And>a. m a \<noteq> mem s a \<Longrightarrow> page_of a \<in> unat ` K"
  shows "seg_held root elf ph m"
proof -
  have "intact root {} s (s\<lparr>mem := m\<rparr>)"
    unfolding intact_def
  proof (intro allI impI conjI)
    fix w f assume w: "unat w < 2 ^ 47" "upage (mem s) root w f"
    note u = upage_facts [OF assms(1) w]
    show "upage (mem (s\<lparr>mem := m\<rparr>)) root w f"
      using upage_mem [OF assms(1) _ w, of m] assms(4) by (auto simp: image_Un)
    have "f \<notin> K" using u(1) aspaceD(10) [OF assms(1)] by blast
    then have "page_of (f + (w AND 0xfff)) \<notin> unat ` K"
      unfolding page_of_offset [OF u(2)] by (auto simp: word_unat_eq_iff [symmetric])
    then show "mem (s\<lparr>mem := m\<rparr>) (f + (w AND 0xfff)) = mem s (f + (w AND 0xfff))" using assms(4) by auto
  qed
  from seg_held_intact [OF assms(3) this _ assms(2)] show ?thesis by simp
qed

text \<open>The program as user mode sees it.\<close>

definition program_in :: "u8 list \<Rightarrow> memory \<Rightarrow> u64 \<Rightarrow> bool" where
  "program_in elf m root \<longleftrightarrow> (\<forall>i < unat (e_phnum (parse_ehdr elf)).
     let ph = phdr elf (unat (e_phoff (parse_ehdr elf))) i in p_type ph = PT_LOAD \<longrightarrow>
       (\<forall>k < unat (p_memsz ph). user_byte m root (p_vaddr ph + of_nat k) = Some (image_byte elf ph k)))"

lemma process_program:
  fixes s :: "'z user_state_scheme"
  assumes "mem_ok s" "BOOT_KB s < BOOT_KE s" "unat (BOOT_KE s) \<le> 2 ^ 47" "kernel_pages s \<inter> pmm_free s = {}" "heap_inv s"
    "HHDM_BASE \<le> h_next (HEAP s)" "elf_ok elf" "build_proc_from_init elf role c s = Inr ((tf, kst, root, ev), s')"
  shows "program_in elf (mem s') root \<and> mantra_trap_return tf s' = start_regs (e_entry (parse_ehdr elf)) role c"
proof -
  from aspace_process [OF assms(1-4,8)] obtain lv4 U4 K s4 s5 s6 where
    a4: "aspace s root lv4 U4 K s4" and g: "kernel_grows s (kernel_frames s) K" and l: "load_code root elf s4 = Inr (ev, s5)" and
    k: "kstack_alloc_top s5 = Inr (kst, s6)" "build_initial_tf kst ev (USER_STACK_TOP - 8) role c s6 = Inr (tf, s')" .
  from elf_image [OF a4 assms(7) l] obtain lv U where
    a: "ev = e_entry (parse_ehdr elf)" "aspace s root lv U K s5" "elf_held root elf (mem s5)" by blast
  note p = process_final [OF a(2) g assms(5,3,6) k]
  have "user_byte (mem s') root (p_vaddr ph + of_nat k) = Some (image_byte elf ph k)"
    if i: "i < unat (e_phnum (parse_ehdr elf))" "ph = phdr elf (unat (e_phoff (parse_ehdr elf))) i" "p_type ph = PT_LOAD"
      "k < unat (p_memsz ph)" for i ph k
  proof -
    have so: "seg_ok elf ph" using assms(7) i(1,2) by (auto simp: elf_ok_def segs_ok_def Let_def)
    have "seg_held root elf ph (mem s5)" using a(3) i(1,2) by (auto simp: elf_held_def Let_def)
    from seg_held_kernel [OF a(2) so this p(3)] have "seg_held root elf ph (mem s')" .
    then show ?thesis using seg_held_bytes [OF p(1) so _ i(3,4)] by simp
  qed
  then have "program_in elf (mem s') root" by (simp add: program_in_def Let_def)
  then show ?thesis using initial_tf_regs [OF k(2)] a(1) by simp
qed

text \<open>C6: a process runs the program it was built from. When a process has been built from a well-formed ELF file, with
  segments that lie in the file and the lower half of the address space and share no page, user mode reads at every address
  of every loadable segment the byte of the file, or zero behind the file's part, through the page tables of the process; and
  the frame it is first resumed from starts it at the entry point of the file, in user mode with interrupts enabled, with its
  role and first capability in \<open>rdi\<close> and \<open>rsi\<close>, its stack pointer at the top of its stack, and all other registers zero.\<close>

theorem program_loaded:
  fixes s :: "'z user_state_scheme"
  assumes "pmm_inv s" "pmm_free s \<subseteq> {..<2 ^ 52}" "BOOT_KB s < BOOT_KE s" "unat (BOOT_KE s) \<le> 2 ^ 47"
    "kernel_pages s \<inter> pmm_free s = {}" "heap_inv s" "HHDM_BASE \<le> h_next (HEAP s)" "elf_ok elf"
    "build_proc_from_init elf role c s = Inr ((tf, kst, root, ev), s')"
  shows "program_in elf (mem s') root \<and> mantra_trap_return tf s' = start_regs (e_entry (parse_ehdr elf)) role c"
  by (rule process_program [OF _ assms(3-9)]) (use assms(1,2) in \<open>simp add: mem_ok_def\<close>)

lemma demo_start_boot: "BOOT_KB demo_start = 0x100000" "BOOT_KE demo_start = 0x101000" "BOOT_MAX demo_start = 0x1000000"
  "pmm_free demo_start \<subseteq> {..<2 ^ 52}" "HHDM_BASE \<le> h_next (HEAP demo_start)"
  by (auto simp: demo_start_def demo_kernel_def pmm_free_def free_addrs_def live_def span_def HHDM_BASE_def)

lemma demo_start_pages: "kernel_pages demo_start \<inter> pmm_free demo_start = {}"
proof -
  have "n < 0x1000000" if "n \<in> kernel_pages demo_start" for n
  proof -
    from that consider (image) a where "n = page_of a" "a < 0x101000"
      | (heap) va :: u64 where "n = page_of (va - HHDM_BASE)" "0xffff800000600000 \<le> va" "va < 0xffff800000610000"
      by (auto simp: kernel_pages_def demo_start_def demo_kernel_def)
    then show ?thesis
    proof cases
      case image
      have "page_of a \<le> unat a" unfolding page_of_def by (rule div_times_less_eq_dividend)
      then show ?thesis using image by (simp add: word_less_nat_alt)
    next
      case heap
      have "HHDM_BASE \<le> va" using heap(2) by (simp add: HHDM_BASE_def word_le_nat_alt)
      then have "unat (va - HHDM_BASE) = unat va - unat HHDM_BASE" by (rule unat_sub)
      moreover have "page_of (va - HHDM_BASE) \<le> unat (va - HHDM_BASE)" unfolding page_of_def by (rule div_times_less_eq_dividend)
      ultimately show ?thesis using heap(1,3) by (simp add: HHDM_BASE_def word_less_nat_alt)
    qed
  qed
  moreover have "0x1000000 \<le> n" if "n \<in> pmm_free demo_start" for n
    using that by (auto simp: demo_start_def pmm_free_def free_addrs_def live_def span_def)
  ultimately show ?thesis by (meson disjoint_iff not_less)
qed

text \<open>A process can be built from a well-formed program, or without one, while enough memory is left.\<close>

lemma build_proc_elf_total:
  fixes s :: "'z user_state_scheme"
  assumes "BOOT_KB s \<noteq> 0" "BOOT_MAX s \<noteq> 0" "unat (BOOT_MAX s) + 2 ^ 32 \<le> 2 ^ 64" "mem_ok s" "heap_inv s" "h_ready (HEAP s)"
    "unat (h_next (HEAP s)) + 16384 \<le> unat (h_end (HEAP s))" "BOOT_KB s < BOOT_KE s" "unat (BOOT_KE s) \<le> 2 ^ 47"
    "kernel_pages s \<inter> pmm_free s = {}" "elf = [] \<or> elf_ok elf"
    "proc_frames (BOOT_KB s) (BOOT_KE s) (BOOT_MAX s) + elf_frames elf \<le> frames s"
  shows "\<exists>r s'. build_proc_from_init elf role c s = Inr (r, s')"
proof -
  have inv: "pmm_inv s" using assms(4) by (simp add: mem_ok_def)
  have ke: "BOOT_KE s \<noteq> 0" "unat (BOOT_KE s) + 4096 \<le> 2 ^ 64" using assms(8,9) by auto
  show ?thesis
  proof (cases "elf = []")
    case True
    have "proc_frames (BOOT_KB s) (BOOT_KE s) (BOOT_MAX s) \<le> frames s" using assms(12) by simp
    from build_proc_total [OF assms(1) ke(1) assms(2) ke(2) assms(3) inv assms(5-7) this] True show ?thesis by simp
  next
    case False
    obtain pml4 s1 ke s2 s3 s4 where p: "user_alloc_table s = Inr (pml4, s1)" "align_up (BOOT_KE s) PAGE_SIZE = Inr ke"
      "map_identity pml4 (align_down (BOOT_KB s) PAGE_SIZE) ke s1 = Inr s2" "map_hhdm_huge pml4 (BOOT_MAX s) s2 = Inr s3"
      "map_stack pml4 [0..<4] s3 = Inr s4" and f: "4 + elf_frames elf \<le> frames s4" "HEAP s4 = HEAP s"
      by (rule build_proc_prefix [OF ke(2) assms(3) inv assms(12)]) blast
    from aspace_prefix [OF assms(4,8-10) p] obtain lv U K where a: "aspace s pml4 lv U K s4" by blast
    have "elf_frames elf \<le> frames s4" using f(1) by simp
    from elf_total [OF a _ this] False assms(11) obtain s5 where
      5: "load_code pml4 elf s4 = Inr (e_entry (parse_ehdr elf), s5)" "keeps s4 s5 (elf_frames elf)" by blast
    have "HEAP s5 = HEAP s" using 5(2) f(2) by (simp add: keeps_def)
    from build_proc_rest [OF assms(1) ke(1) assms(2) p 5(1) this assms(5-7)] show ?thesis .
  qed
qed


text \<open>A program of two segments: two bytes of code, and one byte of data followed by two that are not in the file.\<close>

definition demo_phdr :: "u8 \<Rightarrow> u8 \<Rightarrow> u8 \<Rightarrow> u8 \<Rightarrow> u8 \<Rightarrow> u8 list" where
  "demo_phdr flags off page filesz memsz = [1, 0, 0, 0, flags, 0, 0, 0, off, 0, 0, 0, 0, 0, 0, 0, 0, page, 0x40, 0, 0, 0, 0, 0]
     @ replicate 8 0 @ [filesz, 0, 0, 0, 0, 0, 0, 0, memsz, 0, 0, 0, 0, 0, 0, 0, 0, 0x10, 0, 0, 0, 0, 0, 0]"

definition demo_program :: "u8 list" where
  "demo_program = [0x7f, 0x45, 0x4c, 0x46, 2, 1, 1, 0] @ replicate 8 0 @ [2, 0, 0x3e, 0, 1, 0, 0, 0]
     @ [0, 0, 0x40, 0, 0, 0, 0, 0] @ [64, 0, 0, 0, 0, 0, 0, 0] @ replicate 12 0 @ [64, 0, 56, 0, 2, 0, 0, 0, 0, 0, 0, 0]
     @ demo_phdr 5 176 0 2 2 @ demo_phdr 6 178 0x10 1 3 @ [0xeb, 0xfe, 0x2a]"

lemma demo_program_header: "length demo_program = 179" "elf_header_ok (parse_ehdr demo_program)" "e_phoff (parse_ehdr demo_program) = 64"
  "e_phnum (parse_ehdr demo_program) = 2" "e_entry (parse_ehdr demo_program) = 0x400000"
  by code_simp+

lemma demo_program_phdrs:
  "phdr demo_program 64 0 = \<lparr>p_type = 1, p_flags = 5, p_offset = 176, p_vaddr = 0x400000, p_paddr = 0, p_filesz = 2, p_memsz = 2, p_align = 0x1000\<rparr>"
  "phdr demo_program 64 (Suc 0) = \<lparr>p_type = 1, p_flags = 6, p_offset = 178, p_vaddr = 0x401000, p_paddr = 0, p_filesz = 1, p_memsz = 3, p_align = 0x1000\<rparr>"
  by code_simp+

lemma demo_image_bytes: "image_byte demo_program (phdr demo_program 64 0) (Suc 0) = 0xfe"
  "image_byte demo_program (phdr demo_program 64 (Suc 0)) 0 = 0x2a" "image_byte demo_program (phdr demo_program 64 (Suc 0)) 2 = 0"
  by code_simp+

lemma demo_program_ok: "elf_ok demo_program" "elf_frames demo_program = 8"
proof -
  have two: "[0..<2] = [0, 1 :: nat]" "{0..<2 :: nat} = {0, 1}" by (auto simp: upt_rec)
  show "elf_ok demo_program"
    by (simp add: elf_ok_def Let_def demo_program_header two segs_ok_def demo_program_phdrs seg_ok_def PT_LOAD_def seg_pages_def page_of_def)
  show "elf_frames demo_program = 8"
    by (simp add: elf_frames_def Let_def demo_program_header two demo_program_phdrs seg_frames_def PT_LOAD_def)
qed

theorem program_loaded_witness:
  "\<exists>tf kst root ev s'. build_proc_from_init demo_program 0 0 demo_start = Inr ((tf, kst, root, ev), s')
    \<and> mantra_trap_return tf s' RIP = 0x400000 \<and> user_byte (mem s') root 0x400001 = Some 0xfe \<and> user_byte (mem s') root 0x401000 = Some 0x2a
    \<and> user_byte (mem s') root 0x401002 = Some 0"
proof -
  note d = demo_start_boot
  have k: "BOOT_KB demo_start < BOOT_KE demo_start" "unat (BOOT_KE demo_start) \<le> 2 ^ 47" unfolding d by simp_all
  have ok: "mem_ok demo_start" using demo_start_ok(2) d(4) by (simp add: mem_ok_def)
  have "\<exists>r s'. build_proc_from_init demo_program 0 0 demo_start = Inr (r, s')"
    by (rule build_proc_elf_total [OF _ _ _ ok demo_start_ok(4-6) k demo_start_pages])
      (simp_all add: d demo_start_ok(3) demo_program_ok proc_frames_def gib_chunks_def)
  then obtain tf kst root ev s' where b: "build_proc_from_init demo_program 0 0 demo_start = Inr ((tf, kst, root, ev), s')" by auto
  note p = program_loaded [OF demo_start_ok(2) d(4) k demo_start_pages demo_start_ok(4) d(5) demo_program_ok(1) b]
  have q: "user_byte (mem s') root (p_vaddr (phdr demo_program 64 i) + of_nat j) = Some (image_byte demo_program (phdr demo_program 64 i) j)"
    if "i < 2" "p_type (phdr demo_program 64 i) = PT_LOAD" "j < unat (p_memsz (phdr demo_program 64 i))" for i j
    using p that unfolding program_in_def Let_def demo_program_header by simp
  have "user_byte (mem s') root 0x400001 = Some 0xfe" "user_byte (mem s') root 0x401000 = Some 0x2a" "user_byte (mem s') root 0x401002 = Some 0"
    using q [of 0 "Suc 0"] q [of "Suc 0" 0] q [of "Suc 0" 2] unfolding demo_image_bytes by (simp_all add: demo_program_phdrs PT_LOAD_def)
  moreover have "mantra_trap_return tf s' RIP = 0x400000" using p by (simp add: demo_program_header start_regs_def)
  ultimately show ?thesis using b by blast
qed

end
