(* ===== verification/Kmain_Boot.thy ===== *)
theory Kmain_Boot
  imports Boot_Heap User_Space
begin

text \<open>
  The whole start of the kernel returns: given boot information it accepts, a console it can draw on and
  a first free range with room for what the start-up code allocates, \<open>kernel_start\<close> ends by entering the
  first user process.
\<close>

section \<open>Drawing stays in the framebuffer\<close>

definition fb_area :: "FrameBuffer \<Rightarrow> nat set" where
  "fb_area fb = {unat (f_base fb)..<unat (f_base fb) + unat (f_size fb)}"

lemma for_each_total:
  assumes "\<And>x s. x \<in> set xs \<Longrightarrow> P s \<Longrightarrow> \<exists>s'. f x s = Inr s' \<and> P s'" "P s"
  shows "\<exists>s'. for_each f xs s = Inr s' \<and> P s'"
  using assms
proof (induction xs arbitrary: s)
  case (Cons x xs)
  from Cons.prems(1) [of x s] Cons.prems(2) obtain s1 where "f x s = Inr s1" "P s1" by auto
  with Cons.IH [of s1] Cons.prems(1) show ?case by simp
qed simp

lemma for_each_keeps:
  assumes "\<And>x s s'. P s \<Longrightarrow> f x s = Inr s' \<Longrightarrow> P s'" "P s" "for_each f xs s = Inr s'"
  shows "P s'"
  using assms(2,3) by (induction xs arbitrary: s) (auto elim!: and_then_InrE dest: assms(1))

text \<open>Memory outside of the framebuffer is what it was in \<open>m0\<close>.\<close>

definition drawn :: "memory \<Rightarrow> FrameBuffer \<Rightarrow> memory \<Rightarrow> bool" where
  "drawn m0 fb m \<longleftrightarrow> (\<forall>a. unat a \<notin> fb_area fb \<longrightarrow> m a = m0 a)"

lemma drawn_trans: "drawn m0 fb m1 \<Longrightarrow> drawn m1 fb m2 \<Longrightarrow> drawn m0 fb m2"
  by (simp add: drawn_def)

lemma put_pixel_drawn:
  assumes "fb_ok fb" "drawn m0 fb m" "put_pixel fb x y c m = Inr m'"
  shows "drawn m0 fb m'"
proof -
  have "unat (f_base fb) + unat (f_size fb) \<le> 2 ^ 64" using assms(1) by (simp add: fb_ok_def)
  from put_pixel_inside [OF assms(3) this] have "m' a = m a" if "unat a \<notin> fb_area fb" for a
    using that by (auto simp: fb_area_def)
  with assms(2) show ?thesis by (simp add: drawn_def)
qed

lemma put_pixel_total:
  assumes "fb_ok fb"
  shows "\<exists>m'. put_pixel fb x y c m = Inr m'"
proof (cases "f_width fb \<le> x \<or> f_height fb \<le> y")
  case False
  then have "inside fb (unat x) (unat y)" using assms by (simp add: inside_def word_le_nat_alt)
  from fbs.put_within [OF this] show ?thesis by blast
qed (simp add: put_pixel_def)

lemma draw_bit_drawn:
  assumes "fb_ok (con_fb con)" "drawn m0 (con_fb con) m" "draw_bit con px py row bits col m = Inr m'"
  shows "drawn m0 (con_fb con) m'"
  using assms by (auto simp: draw_bit_def Let_def elim!: and_then_InrE intro: put_pixel_drawn)

lemma draw_glyph_drawn:
  assumes "fb_ok (con_fb con)" "drawn m0 (con_fb con) m" "draw_glyph con g m = Inr m'"
  shows "drawn m0 (con_fb con) m'"
proof -
  from assms(3) obtain px py where
    "for_each (\<lambda>(row, bits). for_each (\<lambda>col. draw_bit con px py row bits col) [0..<8]) (enumerate 0 g) m = Inr m'"
    by (auto simp: draw_glyph_def elim!: and_then_InrE)
  then show ?thesis
    by (rule for_each_keeps [of "drawn m0 (con_fb con)", rotated 2])
      (use assms(2) in \<open>auto intro: for_each_keeps [of "drawn m0 (con_fb con)"] draw_bit_drawn [OF assms(1)]\<close>)
qed

lemma put_char_drawn:
  assumes "con_ok con"
  shows "\<exists>con' m'. put_char ch (con, m) = Inr (con', m') \<and> con_ok con' \<and> con_fb con' = con_fb con \<and> drawn m (con_fb con) m'"
proof -
  from put_char_ok [OF assms, of ch m] obtain con' m' where
    p: "put_char ch (con, m) = Inr (con', m')" "con_ok con'" "con_fb con' = con_fb con" by blast
  have nl: "con_fb con1 = con_fb con" if "newline con = Inr con1" for con1
    using that newline_eq [OF assms] by auto
  have "drawn m (con_fb con) m'"
    using p(1) con_okD(1) [OF assms] draw_glyph_drawn [of _ m m _ m']
    by (auto simp: put_char_def drawn_def split: if_splits elim!: and_then_InrE) (metis nl)+
  with p show ?thesis by blast
qed

section \<open>The console part\<close>

lemma writeln_total:
  assumes "con_ok con"
  obtains con' m' where "con_writeln bs (con, s) = Inr (con', s\<lparr>mem := m'\<rparr>)" "con_ok con'" "con_fb con' = con_fb con"
    "drawn (mem s) (con_fb con) m'"
proof -
  let ?P = "\<lambda>(c, m). con_ok c \<and> con_fb c = con_fb con \<and> drawn (mem s) (con_fb con) m"
  have "\<exists>st'. put_char ch st = Inr st' \<and> ?P st'" if "?P st" for ch st
    using that put_char_drawn drawn_trans by (cases st) fastforce
  from for_each_total [of "bs @ [0x0a]" ?P put_char "(con, mem s)", OF this] assms that show thesis
    by (auto simp: con_writeln_def console_write_str_def drawn_def)
qed

lemma banner_total:
  assumes "con_ok con"
  obtains con' m' where "banner p n fmt (con, s) = Inr (con', s\<lparr>mem := m'\<rparr>)" "con_ok con'" "con_fb con' = con_fb con"
    "drawn (mem s) (con_fb con) m'"
proof -
  let ?ok = "\<lambda>k con s. \<exists>con' m'. k = Inr (con', s\<lparr>mem := m'\<rparr>) \<and> con_ok con' \<and> con_fb con' = con_fb con \<and> drawn (mem s) (con_fb con) m'"
  have step: "?ok (and_then (con_writeln bs (con, s)) k) con s"
    if "con_ok con" "\<And>con1 m1. con_ok con1 \<Longrightarrow> ?ok (k (con1, s\<lparr>mem := m1\<rparr>)) con1 (s\<lparr>mem := m1\<rparr>)" for bs k con s
  proof -
    from writeln_total [OF that(1), of bs s] obtain con1 m1 where
      1: "con_writeln bs (con, s) = Inr (con1, s\<lparr>mem := m1\<rparr>)" "con_ok con1" "con_fb con1 = con_fb con" "drawn (mem s) (con_fb con) m1" .
    from that(2) [OF 1(2), of m1] 1 show ?thesis by (auto dest: drawn_trans)
  qed
  have last: "?ok (con_writeln bs (con, s)) con s" if "con_ok con" for bs con s
    using writeln_total [OF that, of bs s] by metis
  have "?ok (banner p n fmt (con, s)) con s"
    unfolding banner_def by (intro step assms; clarify)+ (rule last)
  then show thesis using that by blast
qed

lemma console_up_total:
  assumes "con_ok (console_new (kernel_fb (read_bootinfo p (mem s))))"
  obtains con m o' where "console_up p s = Inr (con, s\<lparr>mem := m, serial_out := o'\<rparr>)" "con_ok con"
    "con_fb con = kernel_fb (read_bootinfo p (mem s))" "drawn (mem s) (kernel_fb (read_bootinfo p (mem s))) m"
proof -
  let ?fb = "kernel_fb (read_bootinfo p (mem s))"
  have fb: "fb_ok ?fb" "con_fb (console_new ?fb) = ?fb" using con_okD(1) [OF assms] by (simp_all add: console_new_def)
  have "\<exists>m'. fb_clear ?fb BG (mem s) = Inr m' \<and> drawn (mem s) ?fb m'"
    unfolding fb_clear_def
    by (rule for_each_total, rule for_each_total)
      (use put_pixel_total [OF fb(1)] put_pixel_drawn [OF fb(1)] in \<open>metis, auto simp: drawn_def\<close>)
  then obtain m1 where m1: "fb_clear ?fb BG (mem s) = Inr m1" "drawn (mem s) ?fb m1" by blast
  let ?con = "set_colors FG BG ((console_new ?fb)\<lparr>con_bg := BG, cx := 0, cy := 0\<rparr>)"
  have c: "con_ok ?con" "con_fb ?con = ?fb" using assms by (simp_all add: set_colors_def con_ok_def console_new_def)
  from m1 have "console_clear BG (console_new ?fb, mem s) = Inr ((console_new ?fb)\<lparr>con_bg := BG, cx := 0, cy := 0\<rparr>, m1)"
    by (simp add: console_clear_def fb(2))
  then have "\<exists>n s1. console_up p s = and_then (banner p n (format_of (fb_format (read_bootinfo p (mem s)))) (?con, s1\<lparr>mem := m1\<rparr>))
      (\<lambda>(con, s). Inr (con, write_str (''mantracore: framebuffer initialized'' @ nl) s)) \<and> (\<exists>o'. s1 = s\<lparr>serial_out := o'\<rparr>)"
    unfolding console_up_def Let_def by (auto simp: serial_eqs)
  then obtain n o1 where u: "console_up p s = and_then (banner p n (format_of (fb_format (read_bootinfo p (mem s))))
      (?con, s\<lparr>serial_out := o1, mem := m1\<rparr>)) (\<lambda>(con, s). Inr (con, write_str (''mantracore: framebuffer initialized'' @ nl) s))"
    by blast
  from banner_total [OF c(1), of p n "format_of (fb_format (read_bootinfo p (mem s)))" "s\<lparr>serial_out := o1, mem := m1\<rparr>"]
  obtain con2 m2 where b: "banner p n (format_of (fb_format (read_bootinfo p (mem s)))) (?con, s\<lparr>serial_out := o1, mem := m1\<rparr>)
      = Inr (con2, s\<lparr>serial_out := o1, mem := m1\<rparr>\<lparr>mem := m2\<rparr>)" "con_ok con2" "con_fb con2 = con_fb ?con"
    "drawn (mem (s\<lparr>serial_out := o1, mem := m1\<rparr>)) (con_fb ?con) m2" .
  show thesis
    by (rule that [where con = con2 and m = m2]) (use u b(1-3) c(2) drawn_trans [OF m1(2), of m2] b(4) in \<open>simp_all add: serial_eqs\<close>)
qed

section \<open>The memory part\<close>

lemma writeln_spends:
  assumes "boot_ok G s" "con_ok con" "fb_area (con_fb con) \<subseteq> G"
  obtains con' m' where "con_writeln bs (con, s) = Inr (con', s\<lparr>mem := m'\<rparr>)" "con_ok con'" "con_fb con' = con_fb con"
    "spends G 0 s (s\<lparr>mem := m'\<rparr>)"
proof -
  from writeln_total [OF assms(2), of bs s] obtain con' m' where
    w: "con_writeln bs (con, s) = Inr (con', s\<lparr>mem := m'\<rparr>)" "con_ok con'" "con_fb con' = con_fb con" "drawn (mem s) (con_fb con) m'" .
  have "spends G 0 s (s\<lparr>mem := m'\<rparr>)"
    by (rule spends_mem [OF spends_refl [OF assms(1)]]) (use w(4) assms(3) in \<open>auto simp: drawn_def\<close>)
  with that w show thesis by blast
qed

lemma frame_test_spends:
  assumes "boot_ok G s" "con_ok con" "fb_area (con_fb con) \<subseteq> G" "room (length ns) s"
  shows "\<exists>con' s' pm m o'. frame_test ns (con, s) = Inr (con', s') \<and> spends G (length ns) s s'
    \<and> s' = s\<lparr>PMM := pm, mem := m, serial_out := o'\<rparr>"
  using assms
proof (induction ns arbitrary: con s)
  case Nil
  have "s = s\<lparr>PMM := PMM s, mem := mem s, serial_out := serial_out s\<rparr>" by simp
  then show ?case using spends_refl [OF Nil(1)] by fastforce
next
  case (Cons n ns)
  have "room (unat (1 :: u64) + length ns) s" "(1 :: u64) \<noteq> 0" using Cons.prems(4) by simp_all
  from alloc_room [OF boot_okD(1) [OF Cons.prems(1)] this] obtain a pm where
    a: "alloc_pages 1 s = Inr (Some a, s\<lparr>PMM := Some pm\<rparr>)" by blast
  define s1 where "s1 = write_str nl (write_hex_u64 a (write_str ''mantracore: alloc_frame ok '' (s\<lparr>PMM := Some pm\<rparr>)))"
  have "spends G 1 s s1"
    by (rule spends_mem [OF page_spends(1) [OF Cons.prems(1) a]]) (simp_all add: s1_def serial_eqs)
  note sp = this and b1 = spendsD(1) [OF this]
  from writeln_spends [OF b1 Cons.prems(2,3), of "bytes_of ''Frame'' @ dec_bytes (of_nat n) @ bytes_of '' '' @ fmt_hex a"]
  obtain con2 m2 where w: "con_writeln (bytes_of ''Frame'' @ dec_bytes (of_nat n) @ bytes_of '' '' @ fmt_hex a) (con, s1)
      = Inr (con2, s1\<lparr>mem := m2\<rparr>)" "con_ok con2" "con_fb con2 = con_fb con" "spends G 0 s1 (s1\<lparr>mem := m2\<rparr>)" .
  have sp2: "spends G 1 s (s1\<lparr>mem := m2\<rparr>)" using spends_trans [OF sp w(4)] by simp
  then have "room (length ns) (s1\<lparr>mem := m2\<rparr>)" using Cons.prems(4) spendsD(2) [OF sp2] by simp
  from Cons.IH [OF spendsD(1) [OF sp2] w(2) _ this] Cons.prems(3) w(3) obtain con' s' pm' m' o' where
    r: "frame_test ns (con2, s1\<lparr>mem := m2\<rparr>) = Inr (con', s')" "spends G (length ns) (s1\<lparr>mem := m2\<rparr>) s'"
      "s' = s1\<lparr>mem := m2\<rparr>\<lparr>PMM := pm', mem := m', serial_out := o'\<rparr>" by auto
  have "frame_test (n # ns) (con, s) = Inr (con', s')" using a w(1) r(1) by (simp add: alloc_frame_def s1_def)
  moreover have "spends G (length (n # ns)) s s'" using spends_trans [OF sp2 r(2)] by simp
  moreover have "s' = s\<lparr>PMM := pm', mem := m', serial_out := o'\<rparr>" by (simp add: r(3) s1_def serial_eqs)
  ultimately show ?case by blast
qed

lemma read_bootinfo_cong:
  assumes "\<And>i. i < 72 \<Longrightarrow> m' (p + of_nat i) = m (p + of_nat i)"
  shows "read_bootinfo p m' = read_bootinfo p m"
proof -
  have "m' (p + k) = m (p + k)" if "unat k < 72" for k using assms [of "unat k"] that by simp
  from this [of 0] this show ?thesis by (simp add: read_bootinfo_def rd32_def rd64_def add.assoc)
qed

lemma bootinfo_spends:
  assumes "spends G k s s'" "\<forall>i < 72. unat (p + of_nat i) \<notin> G"
  shows "read_bootinfo p (mem s') = read_bootinfo p (mem s)"
  by (rule read_bootinfo_cong) (use assms spendsD(3) in blast)

text \<open>Page tables, heap and the two trials, one after the other.\<close>

definition heap_apart :: "'z heap_state_scheme \<Rightarrow> bool" where
  "heap_apart s \<longleftrightarrow> (\<forall>va. unat va \<in> heap_free s \<longrightarrow> HHDM_BASE \<le> va \<and> page_of (va - HHDM_BASE) \<notin> pmm_free s)"

lemma heap_apart_shrink: "heap_apart s \<Longrightarrow> heap_free s' \<subseteq> heap_free s \<Longrightarrow> pmm_free s' \<subseteq> pmm_free s \<Longrightarrow> heap_apart s'"
  unfolding heap_apart_def by blast

lemma heap_up:
  fixes s :: "'z heap_state_scheme"
  assumes "boot_ok G s" "tables_up (cr3 s) n s" "room 4096 s"
  obtains s' where "heap_init s = Inr ((), s')" "spends G 4096 s s'" "tables_up (cr3 s') n s'" "hroom 0x1000000 s'"
    "in_heap G (heap_free s')" "cr3 s' = cr3 s" "PML4_PHYS s' = PML4_PHYS s" "KMAP_NEXT s' = KMAP_NEXT s" "heap_apart s'"
proof -
  from heap_spends [OF assms(1,3)] obtain q pm o' s' where
    h: "alloc_pages 4096 s = Inr (Some q, s\<lparr>PMM := Some pm\<rparr>)" "heap_init s = Inr ((), s')" "spends G 4096 s s'"
      "s' = s\<lparr>PMM := Some pm, HEAP := \<lparr>h_start = phys_to_virt q, h_end = phys_to_virt q + 0x1000000,
        h_next = phys_to_virt q, h_ready = True\<rparr>, serial_out := o'\<rparr>" "hroom 0x1000000 s'" "in_heap G (heap_free s')" .
  have "used f s'" if "used f s" for f
    using alloc_used [OF assms(1) h(1) that] mem_ok_cong(2) [of s' "s\<lparr>PMM := Some pm\<rparr>" f] by (simp add: h(4))
  moreover have e: "mem s' = mem s" "cr3 s' = cr3 s" "PML4_PHYS s' = PML4_PHYS s" "KMAP_NEXT s' = KMAP_NEXT s"
    by (simp_all add: h(4))
  ultimately have "tables_up (cr3 s') n s'"
    using tables_up_shrink [OF assms(2) boot_okD(3) [OF spendsD(1) [OF h(3)]]] by simp
  moreover have "heap_apart s'"
    unfolding heap_apart_def
  proof (intro allI impI)
    fix va :: u64 assume va: "unat va \<in> heap_free s'"
    note g = pmm.alloc_grant [OF boot_okD(1) [OF assms(1)] h(1)]
    have "block q 4096 \<subseteq> {..<2 ^ 46}" using g assms(1) unfolding boot_ok_def by blast
    from block_top [OF this] have "unat q + 0x1000000 \<le> 2 ^ 46" by simp
    then have q: "unat (phys_to_virt q) = 0xffff800000000000 + unat q" "unat (phys_to_virt q + 0x1000000) = 0xffff800000000000 + unat q + 0x1000000"
      by (simp_all add: unat_phys_to_virt unat_add_no_wrap)
    have v: "0xffff800000000000 + unat q \<le> unat va" "unat va < 0xffff800000000000 + unat q + 0x1000000"
      using va q by (simp_all add: heap_free_def h(4))
    then have base: "HHDM_BASE \<le> va" by (simp add: HHDM_BASE_def word_le_nat_alt)
    then have u: "unat (va - HHDM_BASE) = unat va - 0xffff800000000000" by (simp add: unat_sub HHDM_BASE_def)
    obtain k where k: "unat q = 4096 * k" using g by (elim conjE dvdE)
    have "4096 * k \<le> unat (va - HHDM_BASE)" using u v k by simp
    then have "4096 * k \<le> page_of (va - HHDM_BASE)" by (simp add: page_of_def less_eq_div_iff_mult_less_eq mult.commute)
    moreover have "page_of (va - HHDM_BASE) < unat q + 0x1000000" using page_of_le(1) [of "va - HHDM_BASE"] u v by simp
    ultimately have "page_of (va - HHDM_BASE) \<in> block q 4096" using k by (simp add: block_def)
    moreover have "pmm_free s' = pmm_free (s\<lparr>PMM := Some pm\<rparr>)" by (simp add: h(4) pmm_free_def)
    ultimately show "HHDM_BASE \<le> va \<and> page_of (va - HHDM_BASE) \<notin> pmm_free s'" using base g by blast
  qed
  ultimately show thesis using that h(2,3,5,6) e(2-4) by blast
qed

lemma allocators_up:
  fixes s :: "'z heap_state_scheme"
  assumes "boot_ok G s" "0 \<notin> pmm_free s" "unat m + 2 ^ 32 \<le> 2 ^ 64" "room (2 + gib_chunks m + (4096 + (4 + u))) s"
    "KMAP_NEXT s = KMAP_BASE"
  obtains s3 s4 s5 s6 where "paging_init m s = Inr ((), s3)" "heap_init s3 = Inr ((), s4)" "kmap_smoke_test s4 = Inr ((), s5)"
    "heap_smoke s5 = Inr (True, s6)" "spends G (2 + gib_chunks m + (4096 + 4)) s s6" "hroom 16384 s6" "heap_apart s6"
proof -
  have "room (2 + gib_chunks m) s" by (rule room_mono [OF assms(4)]) simp
  from paging_up [OF assms(1-3) this] obtain s3 where
    3: "paging_init m s = Inr ((), s3)" "spends G (2 + gib_chunks m) s s3" "tables_up (cr3 s3) (gib_chunks m) s3"
      "PML4_PHYS s3 = cr3 s3" "cr3 s3 \<noteq> 0" "owned G (cr3 s3)" "KMAP_NEXT s3 = KMAP_NEXT s" .
  have r3: "room (4096 + (4 + u)) s3" by (rule spendsD(2) [OF 3(2) assms(4)])
  have "room 4096 s3" by (rule room_mono [OF r3]) simp
  from heap_up [OF spendsD(1) [OF 3(2)] 3(3) this] obtain s4 where
    4: "heap_init s3 = Inr ((), s4)" "spends G 4096 s3 s4" "tables_up (cr3 s4) (gib_chunks m) s4" "hroom 0x1000000 s4"
      "in_heap G (heap_free s4)" "cr3 s4 = cr3 s3" "PML4_PHYS s4 = PML4_PHYS s3" "KMAP_NEXT s4 = KMAP_NEXT s3"
      "heap_apart s4" .
  have k: "PML4_PHYS s4 = cr3 s4" "cr3 s4 \<noteq> 0" "owned G (cr3 s4)" "KMAP_NEXT s4 = KMAP_BASE" "room 4 s4"
    using 3(4-7) 4(6-8) assms(5) room_mono [OF spendsD(2) [OF 4(2) r3], of 4] by simp_all
  from kmap_smoke_spends [OF spendsD(1) [OF 4(2)] 4(3) k] obtain s5 where
    5: "kmap_smoke_test s4 = Inr ((), s5)" "spends G 4 s4 s5" "HEAP s5 = HEAP s4" .
  have h5: "hroom j s5 = hroom j s4" "heap_free s5 = heap_free s4" for j
    using 5(3) by (simp_all add: hroom_def heap_inv_def heap_free_def)
  have "hroom 4096 s5" "in_heap G (heap_free s5)" unfolding h5 using 4(5) hroom_mono [OF 4(4)] by simp_all
  from heap_smoke_room [OF this] obtain s6 where 6: "heap_smoke s5 = Inr (True, s6)" "hstep G 4096 s5 s6" .
  have sp6: "spends G 0 s5 s6"
    by (rule spends_mem [OF spends_refl [OF spendsD(1) [OF 5(2)]]]) (use hstepD(1,4) [OF 6(2)] in auto)
  have "spends G (2 + gib_chunks m + (4096 + 4)) s s6"
    using spends_trans [OF 3(2) spends_trans [OF 4(2) spends_trans [OF 5(2) sp6]]] by (simp only: add_0_right)
  moreover have "hroom (4096 + 16384) s5" unfolding h5 using hroom_mono [OF 4(4)] by simp
  from hstepD(3) [OF 6(2) this] have "hroom 16384 s6" .
  moreover have "heap_apart s6"
    by (rule heap_apart_shrink [OF 4(9)]) (use hstepD(2) [OF 6(2)] h5(2) spendsD(4) [OF 5(2)] spendsD(4) [OF sp6] in auto)
  ultimately show thesis using that 3(1) 4(1) 5(1) 6(1) by blast
qed

text \<open>The frames the start-up takes: three for the trial, the kernel's page tables, the heap, the trial mapping with
  its tables, and the first process.\<close>

definition boot_frames :: "BootInfo \<Rightarrow> u8 list \<Rightarrow> nat" where
  "boot_frames bi elf = 3 + (2 + gib_chunks (max_phys_of bi)) + 4096 + 4
     + proc_frames (kernel_phys_base bi) (kernel_phys_end bi) (max_phys_of bi) + elf_frames elf"

text \<open>The kernel image lies in the lower half and on pages of its own.\<close>

definition kernel_image_apart :: "BootInfo \<Rightarrow> nat set \<Rightarrow> bool" where
  "kernel_image_apart bi F \<longleftrightarrow> kernel_phys_base bi < kernel_phys_end bi \<and> unat (kernel_phys_end bi) \<le> 2 ^ 47
     \<and> (\<forall>a. kernel_phys_base bi \<le> a \<longrightarrow> a < kernel_phys_end bi \<longrightarrow> page_of a \<notin> F)"

lemma saturating_add_ge: "(a :: u64) \<le> saturating_add a b" "b \<noteq> 0 \<Longrightarrow> saturating_add a b \<noteq> 0"
  using unat_u64_lt [of a] by (auto simp: word_nat word_unat_eq_iff)

lemma max_phys_bounds:
  "unat (kernel_phys_end bi) \<le> unat (max_phys_of bi)" "max_phys_of bi \<noteq> 0"
proof -
  have "kernel_phys_end bi \<le> max_phys_of bi"
    unfolding max_phys_of_def Let_def using saturating_add_ge(1) by (auto intro: order_trans [OF less_imp_le])
  then show "unat (kernel_phys_end bi) \<le> unat (max_phys_of bi)" by (simp add: word_le_nat_alt)
  show "max_phys_of bi \<noteq> 0" unfolding max_phys_of_def Let_def by (intro saturating_add_ge(2)) simp
qed

text \<open>The program of the first process is in place under the active page tables and starts at its entry point.\<close>

definition first_runs :: "u8 list \<Rightarrow> u64 \<Rightarrow> user_state \<Rightarrow> bool" where
  "first_runs elf tf s \<longleftrightarrow> elf \<noteq> [] \<longrightarrow> program_in elf (mem s) (cr3 s) \<and> mantra_trap_return tf s = start_regs (e_entry (parse_ehdr elf)) 0 0"

lemma first_user_elf_total:
  fixes s :: user_state
  assumes "kb \<noteq> 0" "hint \<noteq> 0" "unat hint + 2 ^ 32 \<le> 2 ^ 64" "mem_ok s" "hroom 16384 s" "heap_apart s" "kb < ke" "unat ke \<le> 2 ^ 47"
    "\<forall>a. kb \<le> a \<longrightarrow> a < ke \<longrightarrow> page_of a \<notin> pmm_free s" "elf = [] \<or> elf_ok elf" "proc_frames kb ke hint + elf_frames elf \<le> frames s"
  shows "\<exists>tf s'. enter_first_user elf kb ke hint s = Inr (tf, s') \<and> first_runs elf tf s'"
proof -
  define s1 where "s1 = (write_str (''user: setting up address space'' @ nl) s)
    \<lparr>BOOT_KB := kb, BOOT_KE := ke, BOOT_MAX := hint\<rparr>"
  have e: "PMM s1 = PMM s" "HEAP s1 = HEAP s" "BOOT_KB s1 = kb" "BOOT_KE s1 = ke" "BOOT_MAX s1 = hint"
    by (simp_all add: s1_def serial_eqs)
  have f: "pmm_free s1 = pmm_free s" "frames s1 = frames s" "mem_ok s1" using e(1) assms(4) by (simp_all add: pmm_free_def frames_def mem_ok_def pmm_inv_def)
  have h: "heap_inv s1" "h_ready (HEAP s1)" "unat (h_next (HEAP s1)) + 16384 \<le> unat (h_end (HEAP s1))"
    using assms(5) e(2) by (simp_all add: hroom_def heap_inv_def)
  have "page_of (va - HHDM_BASE) \<notin> pmm_free s" if "h_next (HEAP s) \<le> va" "va < h_end (HEAP s)" for va
    using assms(6) that h(2) e(2) by (simp add: heap_apart_def heap_free_def word_le_nat_alt word_less_nat_alt)
  then have k: "kernel_pages s1 \<inter> pmm_free s1 = {}" using assms(9) by (auto simp: kernel_pages_def e f)
  have "\<exists>r s'. build_proc_from_init elf 0 0 s1 = Inr (r, s')"
    by (rule build_proc_elf_total [OF _ _ _ f(3) h _ _ k assms(10)]) (use assms e f in simp_all)
  then obtain tf kst root ev s2 where b: "build_proc_from_init elf 0 0 s1 = Inr ((tf, kst, root, ev), s2)" by auto
  then obtain s' where s': "enter_first_user elf kb ke hint s = Inr (tf, s')" "mem s' = mem s2" "cr3 s' = root"
    unfolding enter_first_user_def Let_def s1_def [symmetric]
    by (simp add: load_cr3_def set_rsp0_def install_first_def serial_eqs)
  have "unat (h_next (HEAP s)) \<in> heap_free s" using h e(2) by (simp add: heap_free_def)
  then have "HHDM_BASE \<le> h_next (HEAP s1)" using assms(6) e(2) by (simp add: heap_apart_def)
  from process_program [OF f(3) _ _ k h(1) this _ b] assms(7,8,10) e(3,4) s'(2,3) have "first_runs elf tf s'"
    by (auto simp: first_runs_def trap_return_cong [of s' s2])
  with s'(1) show ?thesis by blast
qed

lemma memory_up_total:
  fixes s :: user_state
  assumes "boot_ok G s" "con_ok con" "fb_area (con_fb con) \<subseteq> G" "bi = read_bootinfo p (mem s)"
    "\<forall>i < 72. unat (p + of_nat i) \<notin> G" "kernel_phys_base bi \<noteq> 0" "kernel_image_apart bi (pmm_free s)"
    "unat (max_phys_of bi) + 2 ^ 32 \<le> 2 ^ 64" "room (boot_frames bi elf) s" "0 \<notin> pmm_free s" "KMAP_NEXT s = KMAP_BASE"
    "elf = [] \<or> elf_ok elf"
  shows "\<exists>tf con' s'. memory_up elf p stats (con, s) = Inr (EnteredUser tf, con', s') \<and> first_runs elf tf s'"
proof -
  let ?m = "max_phys_of bi" and ?kb = "kernel_phys_base bi" and ?ke = "kernel_phys_end bi"
  let ?u = "proc_frames ?kb ?ke ?m + elf_frames elf"
  define s0 where "s0 = write_str (''mantracore: pmm initialized'' @ nl) s"
  have sp0: "spends G 0 s s0" by (rule spends_mem [OF spends_refl [OF assms(1)]]) (simp_all add: s0_def serial_eqs)
  define msg where "msg = bytes_of ''PMM usable='' @ dec_bytes (usable_bytes stats div (1024 * 1024))
         @ bytes_of ''MiB free='' @ dec_bytes (free_bytes stats div (1024 * 1024))
         @ bytes_of ''MiB ranges='' @ dec_bytes (of_nat (range_count stats))"
  from writeln_spends [OF spendsD(1) [OF sp0] assms(2,3), of msg] obtain con1 m1 where
    1: "con_writeln msg (con, s0) = Inr (con1, s0\<lparr>mem := m1\<rparr>)" "con_ok con1" "con_fb con1 = con_fb con" "spends G 0 s0 (s0\<lparr>mem := m1\<rparr>)" .
  have sp1: "spends G 0 s (s0\<lparr>mem := m1\<rparr>)" using spends_trans [OF sp0 1(4)] by simp
  have r1: "room (3 + (2 + gib_chunks ?m + (4096 + (4 + ?u)))) (s0\<lparr>mem := m1\<rparr>)"
    using spendsD(2) [OF sp1, of "boot_frames bi elf"] assms(9) by (simp add: boot_frames_def add.assoc)
  have "fb_area (con_fb con1) \<subseteq> G" "room (length [0..<3]) (s0\<lparr>mem := m1\<rparr>)"
    using assms(3) 1(3) room_mono [OF r1, of 3] by simp_all
  from frame_test_spends [OF spendsD(1) [OF sp1] 1(2) this] obtain con2 s2 pm m o' where
    2: "frame_test [0..<3] (con1, s0\<lparr>mem := m1\<rparr>) = Inr (con2, s2)" "spends G 3 (s0\<lparr>mem := m1\<rparr>) s2"
      "s2 = s0\<lparr>mem := m1\<rparr>\<lparr>PMM := pm, mem := m, serial_out := o'\<rparr>" by auto
  have sp2: "spends G 3 s s2" using spends_trans [OF sp1 2(2)] by simp
  have bi2: "read_bootinfo p (mem s2) = bi" using bootinfo_spends [OF sp2 assms(5)] assms(4) by simp
  have r2: "room (2 + gib_chunks ?m + (4096 + (4 + ?u))) s2" by (rule spendsD(2) [OF 2(2) r1])
  have "0 \<notin> pmm_free s2" "KMAP_NEXT s2 = KMAP_BASE"
    using spendsD(4) [OF sp2] assms(10,11) by (auto simp: 2(3) s0_def serial_eqs)
  from allocators_up [OF spendsD(1) [OF sp2] this(1) assms(8) r2 this(2)] obtain s3 s4 s5 s6 where
    3: "paging_init ?m s2 = Inr ((), s3)" "heap_init s3 = Inr ((), s4)" "kmap_smoke_test s4 = Inr ((), s5)"
      "heap_smoke s5 = Inr (True, s6)" "spends G (2 + gib_chunks ?m + (4096 + 4)) s2 s6" "hroom 16384 s6" "heap_apart s6" .
  have bi6: "read_bootinfo p (mem s6) = bi" using bootinfo_spends [OF 3(5) assms(5)] bi2 by simp
  have "?u \<le> frames s6" by (rule room_frames, rule spendsD(2) [OF 3(5)]) (use r2 in \<open>simp add: add.assoc\<close>)
  moreover have "pmm_free s6 \<subseteq> pmm_free s" using spendsD(4) [OF 3(5)] spendsD(4) [OF sp2] by blast
  then have "?kb < ?ke" "unat ?ke \<le> 2 ^ 47" "\<forall>a. ?kb \<le> a \<longrightarrow> a < ?ke \<longrightarrow> page_of a \<notin> pmm_free s6"
    using assms(7) by (auto simp: kernel_image_apart_def)
  ultimately obtain tf s' where 4: "enter_first_user elf ?kb ?ke ?m s6 = Inr (tf, s')" "first_runs elf tf s'"
    using first_user_elf_total [OF assms(6) max_phys_bounds(2) assms(8) boot_okD(3) [OF spendsD(1) [OF 3(5)]] 3(6,7) _ _ _ assms(12)] by blast
  show ?thesis
    unfolding memory_up_def prod.case Let_def s0_def [symmetric] msg_def [symmetric]
    by (simp add: 1(1) 2(1) bi2 3(1-4) bi6 4)
qed

section \<open>The entry point\<close>

lemma boot_regions_drawn:
  assumes "drawn m fb m'" "\<forall>i < 24 * unat (regions_len bi). unat (regions_ptr bi + of_nat i) \<notin> fb_area fb"
  shows "boot_regions bi m' = boot_regions bi m"
proof -
  have "read_region (regions_ptr bi + of_nat (24 * i)) m' = read_region (regions_ptr bi + of_nat (24 * i)) m"
    if "i < unat (regions_len bi)" for i
  proof -
    have "m' (regions_ptr bi + of_nat (24 * i) + k) = m (regions_ptr bi + of_nat (24 * i) + k)" if "unat k < 24" for k
    proof -
      have "24 * i + unat k < 24 * unat (regions_len bi)" using \<open>i < unat (regions_len bi)\<close> that by linarith
      with assms(2) have "unat (regions_ptr bi + of_nat (24 * i + unat k)) \<notin> fb_area fb" by blast
      with assms(1) show ?thesis by (simp add: drawn_def add.assoc)
    qed
    from this [of 0] this show ?thesis by (simp add: read_region_def rd32_def rd64_def add.assoc)
  qed
  then show ?thesis by (simp add: boot_regions_def read_regions_def)
qed

lemma kernel_start_total:
  fixes s :: user_state
  assumes "p \<noteq> 0" "bi = read_bootinfo p (mem s)" "bi_magic bi = BOOTINFO_MAGIC" "bi_version bi = BOOTINFO_VERSION"
    "con_ok (console_new (kernel_fb bi))" "pmm_build (boot_regions bi (mem s)) = Inr (Some (pm, st))"
    "G = free_addrs pm \<union> fb_area (kernel_fb bi)" "G \<subseteq> {..<2 ^ 46}" "\<forall>i < 72. unat (p + of_nat i) \<notin> G"
    "\<forall>i < 24 * unat (regions_len bi). unat (regions_ptr bi + of_nat i) \<notin> fb_area (kernel_fb bi)"
    "kernel_phys_base bi \<noteq> 0" "kernel_image_apart bi (free_addrs pm)" "unat (max_phys_of bi) + 2 ^ 32 \<le> 2 ^ 64"
    "r \<in> set (live pm)" "unat (r_base r) + 4096 * boot_frames bi elf \<le> unat (r_end r)" "KMAP_NEXT s = KMAP_BASE" "elf = [] \<or> elf_ok elf"
  shows "\<exists>tf c' s'. kernel_start a h fr elf p (c, s) = Inr (EnteredUser tf, c', s') \<and> first_runs elf tf s'"
proof -
  obtain c1 s1 where i: "after_arch a h (c, s) = (c1, s1)" by fastforce
  note k = after_arch_keeps [OF i]
  have bi1: "read_bootinfo p (mem s1) = bi" using assms(2) k(1) by simp
  from console_up_total [of p s1, unfolded bi1, OF assms(5)] obtain con m o' where
    u: "console_up p s1 = Inr (con, s1\<lparr>mem := m, serial_out := o'\<rparr>)" "con_ok con" "con_fb con = kernel_fb bi"
      "drawn (mem s1) (kernel_fb bi) m" .
  let ?s = "s1\<lparr>mem := m, serial_out := o'\<rparr>\<lparr>PMM := Some pm\<rparr>"
  have "boot_regions bi m = boot_regions bi (mem s)" using boot_regions_drawn [OF u(4) assms(10)] k(1) by simp
  then have pi: "pmm_init (boot_regions bi m) (s1\<lparr>mem := m, serial_out := o'\<rparr>) = Inr (Some st, ?s)"
    using assms(6) by (simp add: pmm_init_def)
  note ps = pmm_build_spec [OF assms(6)]
  have free: "pmm_free ?s = free_addrs pm" "pmm_inv ?s" using ps by (simp_all add: pmm_free_def pmm_inv_def)
  have b: "bi = read_bootinfo p (mem ?s)"
    using u(4) assms(7,9) read_bootinfo_cong [of m p "mem s1"] bi1 by (simp add: drawn_def)
  have ok: "boot_ok G ?s" using free assms(7,8) by (simp add: boot_ok_def)
  have z: "0 \<notin> pmm_free ?s" using free(1) ps by auto
  have rm: "room (boot_frames bi elf) ?s" using assms(14,15) by (auto simp: room_def mult.commute)
  have "fb_area (con_fb con) \<subseteq> G" "KMAP_NEXT ?s = KMAP_BASE" using u(3) assms(7,16) k(5) by simp_all
  from memory_up_total [OF ok u(2) this(1) b assms(9,11) assms(12) [folded free(1)] assms(13) rm z this(2) assms(17)] obtain tf con' s' where
    "memory_up elf p st (con, ?s) = Inr (EnteredUser tf, con', s')" "first_runs elf tf s'" by blast
  then show ?thesis
    unfolding kernel_start_accepted [OF i assms(1-4)] u(1) by (simp add: pi)
qed

lemma kernel_boot_total:
  assumes "p \<noteq> 0" "bi = read_bootinfo p (mem s)" "bi_magic bi = BOOTINFO_MAGIC" "bi_version bi = BOOTINFO_VERSION"
    "con_ok (console_new (kernel_fb bi))" "pmm_build (boot_regions bi (mem s)) = Inr (Some (pm, st))"
    "G = free_addrs pm \<union> fb_area (kernel_fb bi)" "G \<subseteq> {..<2 ^ 46}" "\<forall>i < 72. unat (p + of_nat i) \<notin> G"
    "\<forall>i < 24 * unat (regions_len bi). unat (regions_ptr bi + of_nat i) \<notin> fb_area (kernel_fb bi)"
    "kernel_phys_base bi \<noteq> 0" "kernel_image_apart bi (free_addrs pm)" "unat (max_phys_of bi) + 2 ^ 32 \<le> 2 ^ 64"
    "r \<in> set (live pm)" "unat (r_base r) + 4096 * boot_frames bi elf \<le> unat (r_end r)" "KMAP_NEXT s = KMAP_BASE"
    "elf = [] \<or> elf_ok elf" "boot_state s"
  shows "\<exists>tf c' s'. kernel_start a h fr elf p (c, s) = Inr (EnteredUser tf, c', s') \<and> \<not> int_enabled c'
    \<and> reach elf 0 s' \<and> sys_inv 0 s' \<and> first_runs elf tf s'"
proof -
  from kernel_start_total [OF assms(1-17)] obtain tf c' s' where
    e: "kernel_start a h fr elf p (c, s) = Inr (EnteredUser tf, c', s')" and f: "first_runs elf tf s'" by blast
  from kernel_start_entered [OF e assms(18)] have "reach elf 0 s'" "\<not> int_enabled c'" by blast+
  with e f reach_inv [of elf 0 s'] show ?thesis by auto
qed


text \<open>A machine with a screen of 64 by 16 pixels and 64 MiB of memory.\<close>

definition demo_bi :: BootInfo where
  "demo_bi = \<lparr>bi_magic = BOOTINFO_MAGIC, bi_version = BOOTINFO_VERSION, fb_base = 0x80000000, fb_size = 4096, fb_width = 64,
     fb_height = 16, fb_stride = 64, fb_format = 2, regions_ptr = 0x8000, regions_len = 1, kernel_phys_base = 0x100000,
     kernel_phys_end = 0x110000\<rparr>"

definition demo_region :: MemoryRegion where
  "demo_region = \<lparr>mr_base = 0x1000000, mr_len = 0x4000000, mr_kind = kind_as_u32 KUsable\<rparr>"

definition demo_powered :: user_state where
  "demo_powered = demo_start\<lparr>mem := store_bytes 0x7000 (bootinfo_bytes demo_bi) (store_bytes 0x8000 (region_bytes demo_region) (\<lambda>_. 0)),
     PMM := None, HEAP := LockedBump_new\<rparr>"

lemma demo_powered_info: "read_bootinfo 0x7000 (mem demo_powered) = demo_bi"
  by (rule read_bootinfo_holds) (simp add: demo_powered_def holds_store)

lemma demo_powered_regions: "boot_regions demo_bi (mem demo_powered) = [demo_region]"
proof -
  have "holds 0x8000 (region_bytes demo_region) (mem demo_powered)"
    unfolding holds_def demo_powered_def
    by (auto simp: store_bytes_def unat_of_nat unat_add_no_wrap)
  then show ?thesis by (simp add: boot_regions_def demo_bi_def read_regions_def read_region_holds)
qed

definition demo_free :: Range where
  "demo_free = \<lparr>r_base = 0x1000000, r_end = 0x5000000\<rparr>"

lemma demo_powered_pmm: "\<exists>pm st. pmm_build [demo_region] = Inr (Some (pm, st)) \<and> live pm = [demo_free]"
proof -
  have "case pmm_build [demo_region] of Inr (Some (pm, st)) \<Rightarrow> live pm = [demo_free] | _ \<Rightarrow> False" by code_simp
  then show ?thesis by (auto split: sum.splits option.splits)
qed


end
