(* ===== verification/Boot.thy ===== *)
theory Boot
  imports Boot_Layout Pmm_Alloc
begin

text \<open>
  The UEFI boot loader, \<^verbatim>\<open>boot/src/main.rs\<close>: it reads the kernel file, loads its segments, builds the
  boot information and the translated memory map, and jumps to the kernel. The firmware and the ELF
  parser are not part of the repository: their answers are the fields of two parameter records, and
  what the loader relies on are named predicates on them. Memory is the identity-mapped physical
  memory in which the loader runs.
\<close>

section \<open>Firmware and parser\<close>

datatype UefiPixelFormat = UefiRgb | UefiBgr | UefiBitmask | UefiBltOnly

record GopMode =
  gm_width :: usize
  gm_height :: usize
  gm_stride :: usize
  gm_format :: UefiPixelFormat
  gm_fb_ptr :: u64
  gm_fb_size :: usize

datatype FileType = Regular | Dir

datatype MemoryType =
    CONVENTIONAL | ACPI_RECLAIM | ACPI_NON_VOLATILE | MMIO | MMIO_PORT_SPACE | OtherMemory u32

record MemoryDescriptor =
  phys_start :: u64
  page_count :: u64
  md_ty :: MemoryType

text \<open>The answers of the firmware. \<open>None\<close> and \<open>False\<close> stand for an error result; \<open>alloc_any k\<close> answers the
  \<open>k\<close>-th request for pages anywhere.\<close>

record uefi =
  services_init :: bool
  stdout_ok :: "u8 list \<Rightarrow> bool"
  gop_handles :: "u64 list option"
  open_gop :: "u64 \<Rightarrow> GopMode option"
  fs_handles :: "u64 list option"
  open_fs :: "u64 \<Rightarrow> bool"
  open_volume :: bool
  open_kernel :: bool
  into_type :: "FileType option"
  file_info :: "u64 option"
  read_file :: "u8 list option"
  alloc_any :: "nat \<Rightarrow> usize \<Rightarrow> u64 option"
  alloc_at :: "u64 \<Rightarrow> usize \<Rightarrow> u64 option"
  exit_map :: "MemoryDescriptor list"
  sort_map :: "MemoryDescriptor list \<Rightarrow> MemoryDescriptor list"

record ProgramHeader =
  is_load :: bool
  virtual_addr :: u64
  mem_size :: u64
  file_size :: u64
  ph_offset :: u64

record xmas_elf =
  elf_new :: "u8 list \<Rightarrow> bool"
  program_iter :: "u8 list \<Rightarrow> ProgramHeader list"
  entry_point :: "u8 list \<Rightarrow> u64"

section \<open>The loader's state and results\<close>

record loader_state =
  b_mem :: memory
  b_stdout :: "u8 list list"

datatype Status = LOAD_ERROR | OUT_OF_RESOURCES

datatype boot_result = Return Status | Jump u64 u64

definition unwrap :: "'a option \<Rightarrow> 'a outcome" where
  "unwrap r = expect ''called `Result::unwrap()` on an `Err` value'' r"

definition unwrap_ok :: "bool \<Rightarrow> unit outcome" where
  "unwrap_ok b = unwrap (if b then Some () else None)"

text \<open>\<open>writeln!(..).unwrap()\<close> and \<open>writeln!(..).ok()\<close>.\<close>

definition say :: "u8 list \<Rightarrow> loader_state \<Rightarrow> loader_state" where
  "say msg s = s\<lparr>b_stdout := b_stdout s @ [msg]\<rparr>"

definition say_unwrap :: "uefi \<Rightarrow> u8 list \<Rightarrow> loader_state \<Rightarrow> loader_state outcome" where
  "say_unwrap u msg s = and_then (unwrap_ok (stdout_ok u msg)) (\<lambda>_. Inr (say msg s))"

definition say_ok :: "uefi \<Rightarrow> u8 list \<Rightarrow> loader_state \<Rightarrow> loader_state" where
  "say_ok u msg s = (if stdout_ok u msg then say msg s else s)"

text \<open>A stage either goes on with a value or makes \<open>main\<close> return a status.\<close>

type_synonym 'a stage = "(Status + 'a) \<times> loader_state"

definition stage_then ::
  "'a stage outcome \<Rightarrow> ('a \<Rightarrow> loader_state \<Rightarrow> (boot_result \<times> loader_state) outcome)
    \<Rightarrow> (boot_result \<times> loader_state) outcome" where
  "stage_then m f = and_then m (\<lambda>(r, s). case r of Inl st \<Rightarrow> Inr (Return st, s) | Inr x \<Rightarrow> f x s)"

section \<open>Framebuffer and file\<close>

fun boot_format :: "UefiPixelFormat \<Rightarrow> PixelFormat" where
  "boot_format UefiRgb = PixRgb"
| "boot_format UefiBgr = PixBgr"
| "boot_format _ = PixUnknown"

record fb_info =
  fbi_base :: u64
  fbi_size :: u64
  fbi_w :: u32
  fbi_h :: u32
  fbi_stride :: u32
  fbi_format :: u32

definition boot_fb_info :: "uefi \<Rightarrow> fb_info outcome" where
  "boot_fb_info u =
     and_then (unwrap (gop_handles u)) (\<lambda>handles.
     and_then (aget handles 0) (\<lambda>h.
     and_then (unwrap (open_gop u h)) (\<lambda>mode.
       Inr \<lparr>fbi_base = gm_fb_ptr mode, fbi_size = gm_fb_size mode, fbi_w = ucast (gm_width mode),
            fbi_h = ucast (gm_height mode), fbi_stride = ucast (gm_stride mode),
            fbi_format = pixel_as_u32 (boot_format (gm_format mode))\<rparr>)))"

definition read_kernel :: "uefi \<Rightarrow> loader_state \<Rightarrow> (u64 \<times> usize) stage outcome" where
  "read_kernel u s =
     and_then (unwrap (fs_handles u)) (\<lambda>handles.
     and_then (aget handles 0) (\<lambda>h.
     and_then (unwrap_ok (open_fs u h)) (\<lambda>_.
     and_then (unwrap_ok (open_volume u)) (\<lambda>_.
     and_then (unwrap_ok (open_kernel u)) (\<lambda>_.
     and_then (unwrap (into_type u)) (\<lambda>ty.
       if ty \<noteq> Regular then Inr (Inl LOAD_ERROR, s)
       else and_then (unwrap (file_info u)) (\<lambda>size.
            and_then (add_chk size 4095) (\<lambda>t. let pages = t div 4096 in
            and_then (unwrap (alloc_any u 0 pages)) (\<lambda>addr.
            and_then (mul_chk pages 4096) (\<lambda>len.
            if len < size then Inl SliceOutOfRange
            else and_then (unwrap (read_file u)) (\<lambda>bs.
              Inr (Inr (addr, size), s\<lparr>b_mem := store_bytes addr (take (unat size) bs) (b_mem s)\<rparr>))))))))))))"

section \<open>Loading the segments\<close>

definition elf_span :: "ProgramHeader list \<Rightarrow> u64 \<times> u64" where
  "elf_span phs = fold (\<lambda>ph (min_addr, max_addr).
     if \<not> is_load ph then (min_addr, max_addr)
     else let start = virtual_addr ph; e = saturating_add start (mem_size ph) in
       (min min_addr start, max max_addr e)) phs (u64_max, 0)"

text \<open>\<open>x & !0xfff\<close>.\<close>

definition page_floor :: "u64 \<Rightarrow> u64" where
  "page_floor x = x AND NOT 0xfff"

definition zero_load_mem :: "u64 \<Rightarrow> u64 \<Rightarrow> memory \<Rightarrow> memory" where
  "zero_load_mem a n m = (\<lambda>x. if x - a < n then 0 else m x)"

definition slice :: "'a list \<Rightarrow> usize \<Rightarrow> usize \<Rightarrow> 'a list outcome" where
  "slice xs a b = (if a \<le> b \<and> unat b \<le> length xs then Inr (take (unat (b - a)) (drop (unat a) xs))
     else Inl SliceOutOfRange)"

definition boot_load_segment ::
  "uefi \<Rightarrow> u64 \<Rightarrow> u64 \<Rightarrow> u64 \<Rightarrow> u64 \<Rightarrow> ProgramHeader \<Rightarrow> loader_state \<Rightarrow> unit stage outcome" where
  "boot_load_segment u file len load_base load_len ph s =
     (if \<not> is_load ph then Inr (Inr (), s)
      else let vaddr = virtual_addr ph; memsz = mem_size ph; filesz = file_size ph; off = ph_offset ph;
               kernel_file_bytes = load_bytes file len (b_mem s) in
        if memsz < filesz
        then Inr (Inl LOAD_ERROR, say_ok u (bytes_of ''Kernel segment filesz > memsz'') s)
        else if len < saturating_add off filesz
        then Inr (Inl LOAD_ERROR, say_ok u (bytes_of ''Kernel segment out of file bounds'') s)
        else and_then (sub_chk vaddr load_base) (\<lambda>dst_off.
          if load_len < saturating_add dst_off memsz
          then Inr (Inl LOAD_ERROR, say_ok u (bytes_of ''Kernel segment out of load bounds'') s)
          else and_then (add_chk dst_off filesz) (\<lambda>dst_end.
               and_then (add_chk off filesz) (\<lambda>src_end.
               and_then (slice kernel_file_bytes off src_end) (\<lambda>src.
               if load_len < dst_end then Inl SliceOutOfRange
               else Inr (Inr (), s\<lparr>b_mem := store_bytes (load_base + dst_off) src (b_mem s)\<rparr>))))))"

fun boot_load_segments ::
  "uefi \<Rightarrow> u64 \<Rightarrow> u64 \<Rightarrow> u64 \<Rightarrow> u64 \<Rightarrow> ProgramHeader list \<Rightarrow> loader_state \<Rightarrow> unit stage outcome" where
  "boot_load_segments u file len load_base load_len [] s = Inr (Inr (), s)"
| "boot_load_segments u file len load_base load_len (ph # phs) s =
     and_then (boot_load_segment u file len load_base load_len ph s) (\<lambda>(r, s1).
       case r of Inl st \<Rightarrow> Inr (Inl st, s1)
       | Inr _ \<Rightarrow> boot_load_segments u file len load_base load_len phs s1)"

definition load_kernel ::
  "uefi \<Rightarrow> xmas_elf \<Rightarrow> u64 \<Rightarrow> usize \<Rightarrow> loader_state \<Rightarrow> (u64 \<times> u64 \<times> u64) stage outcome" where
  "load_kernel u elf file len s =
     (let kernel_file_bytes = load_bytes file len (b_mem s) in
      if \<not> elf_new elf kernel_file_bytes
      then Inr (Inl LOAD_ERROR, say_ok u (bytes_of ''Kernel ELF parse failed'') s)
      else let (min_addr, max_addr) = elf_span (program_iter elf kernel_file_bytes) in
        if min_addr = u64_max \<or> max_addr \<le> min_addr
        then Inr (Inl LOAD_ERROR, say_ok u (bytes_of ''Kernel ELF had no PT_LOAD segments'') s)
        else let load_base = page_floor min_addr in
          and_then (add_chk max_addr 0xfff) (\<lambda>t. let load_end = page_floor t in
          and_then (sub_chk load_end load_base) (\<lambda>d. let pages = d div 4096 in
          case alloc_at u load_base pages of
            None \<Rightarrow> Inr (Inl OUT_OF_RESOURCES,
                      say_ok u (bytes_of ''Kernel alloc at '' @ fmt_hex load_base @ bytes_of '' failed'') s)
          | Some addr \<Rightarrow>
              if addr \<noteq> load_base
              then Inr (Inl LOAD_ERROR, say_ok u (bytes_of ''Kernel alloc returned unexpected address'') s)
              else and_then (mul_chk pages 4096) (\<lambda>load_len.
                   let s1 = s\<lparr>b_mem := zero_load_mem load_base load_len (b_mem s)\<rparr> in
                   and_then (boot_load_segments u file len load_base load_len
                       (program_iter elf (load_bytes file len (b_mem s1))) s1) (\<lambda>(r, s2).
                     case r of Inl st \<Rightarrow> Inr (Inl st, s2)
                     | Inr _ \<Rightarrow> Inr (Inr (entry_point elf (load_bytes file len (b_mem s2)), load_base, load_end), s2))))))"

section \<open>Boot information and memory map\<close>

definition regions_pages :: usize where
  "regions_pages = 8"

definition regions_cap :: nat where
  "regions_cap = unat (regions_pages * 4096 div 24)"

definition boot_info_of :: "fb_info \<Rightarrow> u64 \<Rightarrow> u64 \<Rightarrow> u64 \<Rightarrow> BootInfo" where
  "boot_info_of fb regions_addr load_base load_end =
     \<lparr>bi_magic = BOOTINFO_MAGIC, bi_version = BOOTINFO_VERSION, fb_base = fbi_base fb, fb_size = fbi_size fb,
      fb_width = fbi_w fb, fb_height = fbi_h fb, fb_stride = fbi_stride fb, fb_format = fbi_format fb,
      regions_ptr = regions_addr, regions_len = 0, kernel_phys_base = load_base, kernel_phys_end = load_end\<rparr>"

definition alloc_boot_info ::
  "uefi \<Rightarrow> fb_info \<Rightarrow> u64 \<Rightarrow> u64 \<Rightarrow> loader_state \<Rightarrow> ((u64 \<times> u64) \<times> loader_state) outcome" where
  "alloc_boot_info u fb load_base load_end s =
     and_then (unwrap (alloc_any u 1 1)) (\<lambda>boot_info_addr.
     and_then (unwrap (alloc_any u 2 regions_pages)) (\<lambda>regions_addr.
       Inr ((boot_info_addr, regions_addr),
         s\<lparr>b_mem := store_bytes boot_info_addr
             (bootinfo_bytes (boot_info_of fb regions_addr load_base load_end)) (b_mem s)\<rparr>)))"

text \<open>The closure \<open>push\<close>, with the count and the array it captures.\<close>

definition push :: "u64 \<Rightarrow> u64 \<Rightarrow> u64 \<Rightarrow> RegionKind \<Rightarrow> nat \<times> memory \<Rightarrow> nat \<times> memory" where
  "push regions_addr b len kind st = (case st of (out_len, m) \<Rightarrow>
     if len = 0 \<or> regions_cap \<le> out_len then (out_len, m)
     else (out_len + 1, store_bytes (regions_addr + of_nat (24 * out_len))
             (region_bytes \<lparr>mr_base = b, mr_len = len, mr_kind = kind_as_u32 kind\<rparr>) m))"

fun region_kind :: "MemoryType \<Rightarrow> RegionKind" where
  "region_kind CONVENTIONAL = KUsable"
| "region_kind ACPI_RECLAIM = KAcpiReclaim"
| "region_kind ACPI_NON_VOLATILE = KAcpiNvs"
| "region_kind MMIO = KMmio"
| "region_kind MMIO_PORT_SPACE = KMmio"
| "region_kind (OtherMemory t) = KReserved"

definition push_desc :: "u64 \<Rightarrow> MemoryDescriptor \<Rightarrow> nat \<times> memory \<Rightarrow> nat \<times> memory" where
  "push_desc regions_addr d = push regions_addr (phys_start d) (saturating_mul (page_count d) 4096) (region_kind (md_ty d))"

definition translate_map ::
  "uefi \<Rightarrow> fb_info \<Rightarrow> u64 \<Rightarrow> u64 \<Rightarrow> u64 \<Rightarrow> u64 \<Rightarrow> memory \<Rightarrow> nat \<times> memory" where
  "translate_map u fb load_base load_end boot_info_ptr regions_addr m =
     (let st = fold (push_desc regions_addr) (sort_map u (exit_map u)) (0, m);
          st = push regions_addr load_base (saturating_sub load_end load_base) KKernel st;
          st = push regions_addr (fbi_base fb) (fbi_size fb) KFramebuffer st;
          st = push regions_addr boot_info_ptr 4096 KBoot st in
      push regions_addr regions_addr (regions_pages * 4096) KBoot st)"

section \<open>The whole loader\<close>

definition boot_main :: "uefi \<Rightarrow> xmas_elf \<Rightarrow> loader_state \<Rightarrow> (boot_result \<times> loader_state) outcome" where
  "boot_main u elf s =
     and_then (unwrap_ok (services_init u)) (\<lambda>_.
     and_then (say_unwrap u (bytes_of ''MantraBoot: UEFI started'') s) (\<lambda>s.
     and_then (boot_fb_info u) (\<lambda>fb.
     stage_then (read_kernel u s) (\<lambda>(file, size) s.
     and_then (say_unwrap u (bytes_of ''Kernel size: '' @ dec_bytes size) s) (\<lambda>s.
     stage_then (load_kernel u elf file size s) (\<lambda>(entry, load_base, load_end) s.
     and_then (say_unwrap u (bytes_of ''Kernel loaded at base '' @ fmt_hex load_base) s) (\<lambda>s.
     and_then (say_unwrap u (bytes_of ''Kernel entry point '' @ fmt_hex entry) s) (\<lambda>s.
     and_then (alloc_boot_info u fb load_base load_end s) (\<lambda>((boot_info_ptr, regions_addr), s).
       let (out_len, m) = translate_map u fb load_base load_end boot_info_ptr regions_addr (b_mem s);
           m = wr32 m (boot_info_ptr + 48) (of_nat out_len) in
       Inr (Jump entry boot_info_ptr, s\<lparr>b_mem := m\<rparr>))))))))))"

end
