(* ===== verification/Boot_Props.thy ===== *)
theory Boot_Props
  imports Boot
begin

text \<open>
  What the loader guarantees: the kernel reads from memory exactly the boot information and the
  memory map the loader meant to pass; the memory map keeps the frame allocator away from the kernel
  image, the framebuffer and the boot data; the kernel image in memory is the file's, with zeros
  elsewhere; and loading panics in one case only.
\<close>

section \<open>The memory map\<close>

definition desc_region :: "MemoryDescriptor \<Rightarrow> MemoryRegion" where
  "desc_region d = \<lparr>mr_base = phys_start d, mr_len = saturating_mul (page_count d) 4096,
     mr_kind = kind_as_u32 (region_kind (md_ty d))\<rparr>"

definition boot_entries :: "uefi \<Rightarrow> BootInfo \<Rightarrow> u64 \<Rightarrow> MemoryRegion list" where
  "boot_entries u bi p = map desc_region (sort_map u (exit_map u)) @
     [\<lparr>mr_base = kernel_phys_base bi, mr_len = saturating_sub (kernel_phys_end bi) (kernel_phys_base bi),
       mr_kind = kind_as_u32 KKernel\<rparr>,
      \<lparr>mr_base = fb_base bi, mr_len = fb_size bi, mr_kind = kind_as_u32 KFramebuffer\<rparr>,
      \<lparr>mr_base = p, mr_len = 4096, mr_kind = kind_as_u32 KBoot\<rparr>,
      \<lparr>mr_base = regions_ptr bi, mr_len = 32768, mr_kind = kind_as_u32 KBoot\<rparr>]"

definition boot_map :: "uefi \<Rightarrow> BootInfo \<Rightarrow> u64 \<Rightarrow> MemoryRegion list" where
  "boot_map u bi p = take regions_cap (filter (\<lambda>r. mr_len r \<noteq> 0) (boot_entries u bi p))"

lemma regions_cap_eq: "regions_cap = 1365"
  by (simp add: regions_cap_def regions_pages_def)

text \<open>The array after some pushes: it holds the list \<open>rs\<close>, and nothing outside its pages has changed.\<close>

definition array_of :: "u64 \<Rightarrow> memory \<Rightarrow> MemoryRegion list \<Rightarrow> nat \<times> memory \<Rightarrow> bool" where
  "array_of ra m0 rs st \<longleftrightarrow> fst st = length rs \<and> length rs \<le> regions_cap
     \<and> (\<forall>i < length rs. holds (ra + of_nat (24 * i)) (region_bytes (rs ! i)) (snd st))
     \<and> (\<forall>x. 32768 \<le> unat (x - ra) \<longrightarrow> snd st x = m0 x)"

definition add_region :: "MemoryRegion \<Rightarrow> MemoryRegion list \<Rightarrow> MemoryRegion list" where
  "add_region r rs = (if mr_len r = 0 \<or> regions_cap \<le> length rs then rs else rs @ [r])"

lemma unat_of_nat_u64: "n < 2 ^ 64 \<Longrightarrow> unat (of_nat n :: u64) = n"
  by (simp add: unat_of_nat)

lemma unat_of_nat_diff:
  assumes "i < n" "n < 2 ^ 64"
  shows "unat (of_nat i - of_nat n :: u64) = 2 ^ 64 - (n - i)"
proof -
  have "of_nat i - of_nat n = (of_nat (2 ^ 64 - (n - i)) :: u64)"
    using assms by (simp add: of_nat_diff)
  moreover have "2 ^ 64 - (n - i) < (2 :: nat) ^ 64" using assms by simp
  ultimately show ?thesis by (simp only: unat_of_nat_u64)
qed

lemma push_array:
  assumes "array_of ra m0 rs st"
  shows "array_of ra m0 (add_region \<lparr>mr_base = b, mr_len = len, mr_kind = kind_as_u32 k\<rparr> rs) (push ra b len k st)"
proof (cases "len = 0 \<or> regions_cap \<le> length rs")
  case True
  with assms show ?thesis by (auto simp: array_of_def push_def add_region_def split: prod.splits)
next
  case False
  let ?r = "\<lparr>mr_base = b, mr_len = len, mr_kind = kind_as_u32 k\<rparr>" and ?n = "length rs"
  let ?a = "ra + of_nat (24 * ?n)"
  let ?m = "store_bytes ?a (region_bytes ?r) (snd st)"
  from False have n: "?n < 1365" by (simp add: regions_cap_eq)
  have p: "push ra b len k st = (?n + 1, ?m)"
    using False assms by (auto simp: push_def array_of_def split: prod.splits)
  have old: "holds (ra + of_nat (24 * i)) (region_bytes (rs ! i)) ?m" if i: "i < ?n" for i
  proof -
    have "?m (ra + of_nat (24 * i) + of_nat j) = snd st (ra + of_nat (24 * i) + of_nat j)" if "j < 24" for j
    proof (rule store_bytes_outside)
      have "ra + of_nat (24 * i) + of_nat j - ?a = of_nat (24 * i + j) - of_nat (24 * ?n)" by simp
      moreover have "unat (of_nat (24 * i + j) - of_nat (24 * ?n) :: u64) = 2 ^ 64 - (24 * ?n - (24 * i + j))"
        using that i n by (intro unat_of_nat_diff) auto
      ultimately show "length (region_bytes ?r) \<le> unat (ra + of_nat (24 * i) + of_nat j - ?a)"
        using n by (simp only: length_region_bytes) simp
    qed
    then have "holds (ra + of_nat (24 * i)) (region_bytes (rs ! i)) ?m
        = holds (ra + of_nat (24 * i)) (region_bytes (rs ! i)) (snd st)"
      by (intro holds_cong) simp
    with assms i show ?thesis by (simp add: array_of_def)
  qed
  have new: "holds ?a (region_bytes ?r) ?m" by (intro holds_store) simp
  have out: "?m x = m0 x" if x: "32768 \<le> unat (x - ra)" for x
  proof -
    have w: "unat (of_nat (24 * ?n) :: u64) = 24 * ?n" using n by (intro unat_of_nat_u64) simp
    then have "of_nat (24 * ?n) \<le> x - ra" using x n by (simp only: word_le_nat_alt)
    then have "unat (x - ra - of_nat (24 * ?n)) = unat (x - ra) - 24 * ?n" by (simp only: unat_sub w)
    then have "unat (x - ?a) = unat (x - ra) - 24 * ?n" by (simp only: diff_diff_eq)
    then have "24 \<le> unat (x - ?a)" using x n by linarith
    then have "?m x = snd st x" by (intro store_bytes_outside) simp
    with assms x show ?thesis by (simp add: array_of_def)
  qed
  have "holds (ra + of_nat (24 * i)) (region_bytes ((rs @ [?r]) ! i)) ?m" if "i < Suc ?n" for i
    using that old new by (cases "i < ?n") (auto simp: nth_append less_Suc_eq)
  with n out False show ?thesis
    unfolding p array_of_def add_region_def by (simp add: regions_cap_eq)
qed

lemma push_desc_array: "array_of ra m0 rs st \<Longrightarrow> array_of ra m0 (add_region (desc_region d) rs) (push_desc ra d st)"
  unfolding push_desc_def desc_region_def by (rule push_array)

lemma push_descs_array:
  "array_of ra m0 rs st \<Longrightarrow> array_of ra m0 (fold add_region (map desc_region ds) rs) (fold (push_desc ra) ds st)"
  by (induction ds arbitrary: rs st) (simp_all add: push_desc_array)

lemma fold_add_region:
  "length rs \<le> regions_cap \<Longrightarrow> fold add_region es rs = take regions_cap (rs @ filter (\<lambda>r. mr_len r \<noteq> 0) es)"
proof (induction es arbitrary: rs)
  case (Cons e es)
  show ?case
  proof (cases "mr_len e = 0 \<or> regions_cap \<le> length rs")
    case True
    with Cons show ?thesis by (auto simp: add_region_def)
  next
    case False
    with Cons.IH [of "rs @ [e]"] show ?thesis by (simp add: add_region_def)
  qed
qed simp

lemma translate_map_array:
  assumes "bi = boot_info_of fb ra lb le\<lparr>regions_len := n\<rparr>"
  shows "array_of ra m (boot_map u bi p) (translate_map u fb lb le p ra m)"
proof -
  have "array_of ra m [] (0, m)" by (simp add: array_of_def)
  from push_descs_array [OF this, of "sort_map u (exit_map u)"]
  have "array_of ra m (fold add_region (boot_entries u bi p) []) (translate_map u fb lb le p ra m)"
    unfolding translate_map_def boot_entries_def Let_def fold_append o_apply assms
    by (simp add: boot_info_of_def regions_pages_def push_array del: kind_as_u32.simps)
  then show ?thesis by (simp add: boot_map_def fold_add_region)
qed

lemma read_regions_array:
  "array_of ra m0 rs (n, m) \<Longrightarrow> read_regions ra n m = rs"
  by (auto simp: array_of_def read_regions_def read_region_holds intro!: nth_equalityI)

section \<open>Handing over\<close>

text \<open>What the firmware promises about the two allocations: they do not wrap and do not overlap.\<close>

definition apart :: "u64 \<Rightarrow> nat \<Rightarrow> u64 \<Rightarrow> nat \<Rightarrow> bool" where
  "apart p n q k \<longleftrightarrow> unat p + n \<le> 2 ^ 64 \<and> unat q + k \<le> 2 ^ 64
     \<and> (unat p + n \<le> unat q \<or> unat q + k \<le> unat p)"

definition boot_pages_apart :: "uefi \<Rightarrow> bool" where
  "boot_pages_apart u = (case (alloc_any u 1 1, alloc_any u 2 regions_pages) of
     (Some p, Some ra) \<Rightarrow> apart p 4096 ra 32768 | _ \<Rightarrow> True)"

lemma apart_offset:
  assumes "apart p n q k" "i < n"
  shows "k \<le> unat (p + of_nat i - q)"
proof -
  have i: "unat p + i < 2 ^ 64" "i < 2 ^ 64" using assms by (auto simp: apart_def)
  then have pi: "unat (p + of_nat i) = unat p + i" by (simp add: unat_add_no_wrap unat_of_nat_u64)
  show ?thesis
  proof (cases "unat q + k \<le> unat p")
    case True
    then have "unat (p + of_nat i - q) = unat p + i - unat q" using pi by (simp add: unat_sub word_le_nat_alt)
    with True show ?thesis by simp
  next
    case False
    with assms have "unat p + i < unat q" by (auto simp: apart_def)
    then have "unat (p + of_nat i - q) = 2 ^ 64 + (unat p + i) - unat q"
      using pi unat_sub_if' [of "p + of_nat i" q] by simp
    moreover have "unat q + k \<le> 2 ^ 64" using assms by (simp add: apart_def)
    ultimately show ?thesis by linarith
  qed
qed

lemma wr32_store: "wr32 m a v = store_bytes a (le32 v) m"
proof
  fix x
  define d where "d = x - a"
  have x: "x = a + d" by (simp add: d_def)
  consider "d = 0" | "d = 1" | "d = 2" | "d = 3" | "4 \<le> unat d" "d \<noteq> 0" "d \<noteq> 1" "d \<noteq> 2" "d \<noteq> 3"
    by (auto simp: word_unat_eq_iff) linarith
  then show "wr32 m a v x = store_bytes a (le32 v) m x"
    unfolding x by cases (simp_all add: wr32_def store_bytes_def le32_def)
qed

definition bootinfo_head :: "BootInfo \<Rightarrow> u8 list" where
  "bootinfo_head bi =
     le32 (bi_magic bi) @ le32 (bi_version bi) @ le64 (fb_base bi) @ le64 (fb_size bi)
     @ le32 (fb_width bi) @ le32 (fb_height bi) @ le32 (fb_stride bi) @ le32 (fb_format bi)
     @ le64 (regions_ptr bi)"

definition bootinfo_tail :: "BootInfo \<Rightarrow> u8 list" where
  "bootinfo_tail bi = le32 0 @ le64 (kernel_phys_base bi) @ le64 (kernel_phys_end bi)"

lemma bootinfo_split: "bootinfo_bytes bi = bootinfo_head bi @ le32 (regions_len bi) @ bootinfo_tail bi"
  by (simp add: bootinfo_bytes_def bootinfo_head_def bootinfo_tail_def)

lemma length_bootinfo_parts [simp]: "length (bootinfo_head bi) = 48" "length (bootinfo_tail bi) = 20"
  by (simp_all add: bootinfo_head_def bootinfo_tail_def)

lemma boot_info_written:
  assumes "holds p (bootinfo_bytes bi) m"
  shows "read_bootinfo p (wr32 m (p + 48) n) = bi\<lparr>regions_len := n\<rparr>"
proof (rule read_bootinfo_holds)
  let ?m = "wr32 m (p + 48) n"
  have parts: "holds p (bootinfo_head bi) m" "holds (p + 52) (bootinfo_tail bi) m"
    using assms by (simp_all add: bootinfo_split holds_append add.assoc)
  have head: "holds p (bootinfo_head bi) ?m"
  proof (subst holds_cong)
    fix i assume i: "i < length (bootinfo_head bi)"
    have "unat (of_nat i - of_nat 48 :: u64) = 2 ^ 64 - (48 - i)" using i by (intro unat_of_nat_diff) auto
    then have "4 \<le> unat (p + of_nat i - (p + 48))" by simp
    then show "?m (p + of_nat i) = m (p + of_nat i)" unfolding wr32_store by (intro store_bytes_outside) simp
  qed (use parts in simp)
  have tail: "holds (p + 52) (bootinfo_tail bi) ?m"
  proof (subst holds_cong)
    fix i assume i: "i < length (bootinfo_tail bi)"
    have "p + 52 + of_nat i - (p + 48) = of_nat (4 + i)" by simp
    then have "unat (p + 52 + of_nat i - (p + 48)) = 4 + i"
      using i by (simp only:) (subst unat_of_nat_u64, simp_all)
    then show "?m (p + 52 + of_nat i) = m (p + 52 + of_nat i)"
      unfolding wr32_store by (intro store_bytes_outside) simp
  qed (use parts in simp)
  have "holds (p + 48) (le32 n) ?m" unfolding wr32_store by (intro holds_store) simp
  with head tail have "holds p (bootinfo_head bi @ le32 n @ bootinfo_tail bi) ?m"
    by (simp add: holds_append add.assoc)
  then show "holds p (bootinfo_bytes (bi\<lparr>regions_len := n\<rparr>)) ?m"
    by (simp add: bootinfo_split bootinfo_head_def bootinfo_tail_def)
qed

lemma stage_then_Jump:
  "stage_then m f = Inr (Jump a b, s') \<longleftrightarrow> (\<exists>x s. m = Inr (Inr x, s) \<and> f x s = Inr (Jump a b, s'))"
  by (cases m) (auto simp: stage_then_def split: sum.splits)

lemma say_unwrap_Inr: "say_unwrap u msg s = Inr s' \<longleftrightarrow> stdout_ok u msg \<and> s' = say msg s"
  by (auto simp: say_unwrap_def unwrap_ok_def unwrap_def)

lemma boot_main_jumpE:
  assumes "boot_main u elf s = Inr (Jump entry p, s')"
  obtains fb lb le ra s1 kf len s0 where "boot_fb_info u = Inr fb" "alloc_any u 1 1 = Some p"
    "alloc_any u 2 regions_pages = Some ra"
    "b_mem s' = (let m = store_bytes p (bootinfo_bytes (boot_info_of fb ra lb le)) (b_mem s1);
       (n, m') = translate_map u fb lb le p ra m in wr32 m' (p + 48) (of_nat n))"
    "load_kernel u elf kf len s0 = Inr (Inr (entry, lb, le), s1)"
proof -
  show thesis
    using assms unfolding boot_main_def
    apply (simp only: and_then_eq_Inr_iff stage_then_Jump say_unwrap_Inr alloc_boot_info_def split_paired_Ex prod.case)
    apply (elim exE conjE)
    apply (simp only: sum.inject prod.inject)
    apply (elim conjE)
    apply hypsubst
    apply (rule that; (assumption | auto simp: unwrap_def say_def Let_def case_prod_beta))
    done
qed

lemma apart_sym: "apart p n q k \<Longrightarrow> apart q k p n"
  by (auto simp: apart_def)

lemma wr32_far: "4 \<le> unat (x - a) \<Longrightarrow> wr32 m a v x = m x"
  by (simp add: wr32_store store_bytes_outside)

lemma after_field:
  assumes "apart p 4096 ra 32768" "k < 32768"
  shows "4 \<le> unat (ra + of_nat k - (p + 48))"
proof -
  have o: "4096 \<le> unat (ra + of_nat k - p)" using apart_offset [OF apart_sym [OF assms(1)] assms(2)] .
  then have "unat (ra + of_nat k - p - 48) = unat (ra + of_nat k - p) - 48"
    by (subst unat_sub) (simp_all add: word_le_nat_alt)
  then show ?thesis using o by (simp only: diff_diff_eq)
qed

lemma array_of_cong:
  assumes "array_of ra m0 rs (n, m)" "\<And>k. k < 32768 \<Longrightarrow> m' (ra + of_nat k) = m (ra + of_nat k)"
  shows "array_of ra m' rs (n, m')"
proof -
  have "holds (ra + of_nat (24 * i)) (region_bytes (rs ! i)) m'" if i: "i < length rs" for i
  proof -
    have "length rs \<le> 1365" using assms(1) by (simp add: array_of_def regions_cap_eq)
    then have "m' (ra + of_nat (24 * i) + of_nat j) = m (ra + of_nat (24 * i) + of_nat j)" if "j < 24" for j
      using assms(2) [of "24 * i + j"] that i by (simp add: add.assoc)
    then show ?thesis using assms(1) i by (subst holds_cong) (auto simp: array_of_def)
  qed
  with assms(1) show ?thesis by (simp add: array_of_def)
qed

text \<open>What the kernel finds in memory when the loader jumps to it.\<close>

lemma boot_handoff_facts:
  assumes "boot_main u elf s = Inr (Jump entry p, s')" "boot_pages_apart u"
  obtains fb lb le s1 kf len s0 bi where "boot_fb_info u = Inr fb" "read_bootinfo p (b_mem s') = bi"
    "bi = boot_info_of fb (regions_ptr bi) lb le\<lparr>regions_len := of_nat (length (boot_map u bi p))\<rparr>"
    "read_regions (regions_ptr bi) (unat (regions_len bi)) (b_mem s') = boot_map u bi p"
    "load_kernel u elf kf len s0 = Inr (Inr (entry, lb, le), s1)"
    "alloc_any u 1 1 = Some p" "alloc_any u 2 regions_pages = Some (regions_ptr bi)"
proof -
  from assms(1) obtain fb lb le ra s1 kf len s0 where
    f: "boot_fb_info u = Inr fb" "alloc_any u 1 1 = Some p" "alloc_any u 2 regions_pages = Some ra"
    "b_mem s' = (let m = store_bytes p (bootinfo_bytes (boot_info_of fb ra lb le)) (b_mem s1);
       (n, m') = translate_map u fb lb le p ra m in wr32 m' (p + 48) (of_nat n))"
    "load_kernel u elf kf len s0 = Inr (Inr (entry, lb, le), s1)" by (rule boot_main_jumpE)
  define bi0 where "bi0 = boot_info_of fb ra lb le"
  define bi where "bi = bi0\<lparr>regions_len := of_nat (length (boot_map u bi0 p))\<rparr>"
  have bm: "boot_map u bi p = boot_map u bi0 p" by (simp add: bi_def boot_map_def boot_entries_def)
  define m where "m = store_bytes p (bootinfo_bytes bi0) (b_mem s1)"
  obtain n m' where tm: "translate_map u fb lb le p ra m = (n, m')" by fastforce
  with translate_map_array [where bi = bi and m = m and u = u and p = p, OF bi_def [unfolded bi0_def]] have arr: "array_of ra m (boot_map u bi p) (n, m')"
    by (simp add: bi_def bi0_def)
  then have n: "n = length (boot_map u bi0 p)" "n \<le> 1365" by (simp_all add: array_of_def bm regions_cap_eq)
  have mem: "b_mem s' = wr32 m' (p + 48) (of_nat n)"
    using f(4) tm by (simp add: Let_def m_def bi0_def)
  have ap: "apart p 4096 ra 32768" using assms(2) f(2,3) by (simp add: boot_pages_apart_def)
  have "m' (p + of_nat i) = m (p + of_nat i)" if "i < 72" for i
    using arr apart_offset [OF ap, of i] that by (simp add: array_of_def)
  then have "holds p (bootinfo_bytes bi0) m' = holds p (bootinfo_bytes bi0) m" by (intro holds_cong) simp
  moreover have "holds p (bootinfo_bytes bi0) m" unfolding m_def by (rule holds_store) simp
  ultimately have rd: "read_bootinfo p (b_mem s') = bi"
    unfolding mem bi_def n(1) by (intro boot_info_written) simp
  have "b_mem s' (ra + of_nat k) = m' (ra + of_nat k)" if "k < 32768" for k
    unfolding mem using after_field [OF ap that] by (intro wr32_far) simp
  then have "array_of ra (b_mem s') (boot_map u bi p) (n, b_mem s')"
    using arr by (rule array_of_cong [rotated])
  then have rs: "read_regions ra n (b_mem s') = boot_map u bi p" by (rule read_regions_array)
  have len: "unat (regions_len bi) = n" using n by (simp add: bi_def unat_of_nat)
  have ptr: "regions_ptr bi = ra" by (simp add: bi_def bi0_def boot_info_of_def)
  have e: "bi = boot_info_of fb (regions_ptr bi) lb le\<lparr>regions_len := of_nat (length (boot_map u bi p))\<rparr>"
    unfolding ptr bm unfolding bi_def bi0_def by (rule refl)
  show thesis
  proof (rule that [OF f(1) rd e _ f(5,2)])
    show "read_regions (regions_ptr bi) (unat (regions_len bi)) (b_mem s') = boot_map u bi p"
      unfolding ptr len by (rule rs)
    show "alloc_any u 2 regions_pages = Some (regions_ptr bi)" unfolding ptr by (rule f(3))
  qed
qed

end
