(* ===== verification/Boot_Image.thy ===== *)
theory Boot_Image
  imports Boot_Props
begin

text \<open>
  The kernel image: the span of the loadable segments, the area reserved for it, and what is in that
  area after loading, against a reference that says byte by byte where each one comes from.
\<close>

section \<open>The span of the segments\<close>

definition span_step :: "ProgramHeader \<Rightarrow> u64 \<times> u64 \<Rightarrow> u64 \<times> u64" where
  "span_step ph = (\<lambda>(min_addr, max_addr).
     if \<not> is_load ph then (min_addr, max_addr)
     else let start = virtual_addr ph; e = saturating_add start (mem_size ph) in
       (min min_addr start, max max_addr e))"

lemma elf_span_fold: "elf_span phs = fold span_step phs (u64_max, 0)"
  by (simp add: elf_span_def span_step_def [abs_def])

lemma span_fold:
  "fold span_step phs (a, b) = (mn, mx) \<Longrightarrow> mn \<le> a \<and> b \<le> mx
    \<and> (\<forall>ph \<in> set phs. is_load ph \<longrightarrow> mn \<le> virtual_addr ph \<and> saturating_add (virtual_addr ph) (mem_size ph) \<le> mx)"
proof (induction phs arbitrary: a b)
  case (Cons ph phs)
  obtain a' b' where s: "span_step ph (a, b) = (a', b')" by fastforce
  with Cons have "mn \<le> a' \<and> b' \<le> mx
    \<and> (\<forall>ph \<in> set phs. is_load ph \<longrightarrow> mn \<le> virtual_addr ph \<and> saturating_add (virtual_addr ph) (mem_size ph) \<le> mx)"
    by simp
  moreover have "a' \<le> a" "b \<le> b'"
    "is_load ph \<Longrightarrow> a' \<le> virtual_addr ph \<and> saturating_add (virtual_addr ph) (mem_size ph) \<le> b'"
    using s by (auto simp: span_step_def Let_def split: if_splits)
  ultimately show ?case by (auto intro: order_trans)
qed simp

lemma elf_span_bounds:
  assumes "elf_span phs = (mn, mx)" "ph \<in> set phs" "is_load ph"
  shows "mn \<le> virtual_addr ph" "saturating_add (virtual_addr ph) (mem_size ph) \<le> mx"
  using span_fold [of phs u64_max 0 mn mx] assms by (auto simp: elf_span_fold)

section \<open>The area\<close>

lemma not_fff: "(x :: u64) AND NOT 0xfff = x AND NOT (mask 12)"
  by (simp add: mask_eq_exp_minus_1)

lemma unat_page_floor: "unat (page_floor x) = unat x div 4096 * 4096"
  unfolding page_floor_def not_fff by (simp add: unat_and_not_mask minus_mod_eq_div_mult)

text \<open>\<open>lb\<close> and \<open>le\<close> are the bounds of the area for the span from \<open>mn\<close> to \<open>mx\<close>, \<open>ll\<close> its length.\<close>

definition area :: "u64 \<Rightarrow> u64 \<Rightarrow> u64 \<Rightarrow> u64 \<Rightarrow> u64 \<Rightarrow> bool" where
  "area mn mx lb le ll \<longleftrightarrow> unat lb = unat mn div 4096 * 4096 \<and> unat le = (unat mx + 4095) div 4096 * 4096
     \<and> unat mx + 4095 < 2 ^ 64 \<and> unat lb + unat ll = unat le \<and> unat mn < unat mx"

lemma area_facts:
  assumes "area mn mx lb le ll"
  shows "unat lb \<le> unat mn" "unat mx \<le> unat le" "4096 dvd unat lb" "4096 dvd unat le"
    "unat ll < 2 ^ 64 - 1" "lb \<le> le" "le = lb + ll"
proof -
  note a = assms [unfolded area_def]
  show "unat lb \<le> unat mn" and d: "4096 dvd unat lb" "4096 dvd unat le" using a by simp_all
  have "(unat mx + 4095) div 4096 * 4096 + (unat mx + 4095) mod 4096 = unat mx + 4095" by (rule div_mult_mod_eq)
  moreover have "(unat mx + 4095) mod 4096 < 4096" by simp
  ultimately show "unat mx \<le> unat le" using a by linarith
  have "\<not> 4096 dvd (2 ^ 64 - 1 :: nat)" by simp
  then have "unat le \<noteq> 2 ^ 64 - 1" using d by metis
  then show "unat ll < 2 ^ 64 - 1" using a unat_u64_lt [of le] by linarith
  show "lb \<le> le" using a by (simp add: word_le_nat_alt)
  have "unat (lb + ll) = unat lb + unat ll" using a unat_u64_lt [of le] by (intro unat_add_no_wrap) simp
  then show "le = lb + ll" using a by (simp add: word_unat_eq_iff)
qed

lemma area_pages:
  assumes "\<not> mx \<le> mn" "add_chk mx 0xfff = Inr t" "lb = page_floor mn" "le = page_floor t"
  shows "sub_chk le lb = Inr (le - lb)" "mul_chk ((le - lb) div 4096) 4096 = Inr (le - lb)"
    "area mn mx lb le (le - lb)"
proof -
  have t: "unat t = unat mx + 4095" "unat mx + 4095 < 2 ^ 64"
    using assms(2) by (auto simp: add_chk_eq_Inr unat_add_no_wrap)
  have u: "unat lb = unat mn div 4096 * 4096" "unat le = (unat mx + 4095) div 4096 * 4096"
    unfolding assms(3,4) unat_page_floor t by (rule refl)+
  have lt: "unat mn < unat mx" using assms(1) by (simp add: word_le_nat_alt)
  have le: "lb \<le> le" using u lt by (simp add: word_le_nat_alt)
  then show "sub_chk le lb = Inr (le - lb)" by (simp add: sub_chk_def)
  have d: "unat (le - lb) = unat le - unat lb" using le by (rule unat_sub)
  then show "area mn mx lb le (le - lb)" using u t lt le by (simp add: area_def word_le_nat_alt)
  have "4096 dvd unat (le - lb)" unfolding d u by (intro dvd_diff_nat) simp_all
  then have m: "unat (le - lb) div 4096 * 4096 = unat (le - lb)" by simp
  have "unat ((le - lb) div 4096) = unat (le - lb) div 4096" by (simp add: unat_div)
  then have "unat ((le - lb) div 4096) * 4096 = unat (le - lb)" using m by simp
  then show "mul_chk ((le - lb) div 4096) 4096 = Inr (le - lb)"
    using unat_u64_lt [of "le - lb"] unat_mul_no_wrap [of "(le - lb) div 4096" 4096]
    by (simp add: mul_chk_nat word_unat_eq_iff)
qed

section \<open>One segment\<close>

definition covers :: "u64 \<Rightarrow> ProgramHeader \<Rightarrow> bool" where
  "covers x ph \<longleftrightarrow> is_load ph \<and> unat (x - virtual_addr ph) < unat (file_size ph)"

definition seg_byte :: "u8 list \<Rightarrow> u64 \<Rightarrow> ProgramHeader \<Rightarrow> u8 \<Rightarrow> u8" where
  "seg_byte bytes x ph old =
     (if covers x ph then bytes ! (unat (ph_offset ph) + unat (x - virtual_addr ph)) else old)"

text \<open>The segment lies in the file and in the area.\<close>

definition seg_fits :: "u64 \<Rightarrow> u64 \<Rightarrow> u64 \<Rightarrow> ProgramHeader \<Rightarrow> bool" where
  "seg_fits len lb ll ph \<longleftrightarrow> is_load ph \<longrightarrow> unat (file_size ph) \<le> unat (mem_size ph)
     \<and> unat (ph_offset ph) + unat (file_size ph) \<le> unat len
     \<and> unat lb \<le> unat (virtual_addr ph)
     \<and> unat (virtual_addr ph) + unat (mem_size ph) \<le> unat lb + unat ll"

lemma segment_cases:
  assumes "lb \<le> virtual_addr ph" "unat ll < 2 ^ 64 - 1" "unat len < 2 ^ 64 - 1" "unat lb + unat ll < 2 ^ 64"
  shows "boot_load_segment u kf len lb ll ph s =
    (if \<not> is_load ph then Inr (Inr (), s)
     else if seg_fits len lb ll ph
     then Inr (Inr (), s\<lparr>b_mem := store_bytes (virtual_addr ph) (take (unat (file_size ph))
            (drop (unat (ph_offset ph)) (load_bytes kf len (b_mem s)))) (b_mem s)\<rparr>)
     else Inr (Inl LOAD_ERROR, say_ok u (bytes_of (
       if mem_size ph < file_size ph then ''Kernel segment filesz > memsz''
       else if unat len < unat (ph_offset ph) + unat (file_size ph) then ''Kernel segment out of file bounds''
       else ''Kernel segment out of load bounds'')) s))"
proof (cases "is_load ph")
  case True
  let ?v = "virtual_addr ph" and ?f = "file_size ph" and ?m = "mem_size ph" and ?o = "ph_offset ph"
  have d: "unat (?v - lb) = unat ?v - unat lb" using assms(1) by (rule unat_sub)
  have v: "lb + (?v - lb) = ?v" "unat lb \<le> unat ?v" using assms(1) by (simp_all add: word_le_nat_alt)
  have o: "len < saturating_add ?o ?f \<longleftrightarrow> unat len < unat ?o + unat ?f"
    using assms(3) by (auto simp: word_less_nat_alt word_nat)
  have m: "ll < saturating_add (?v - lb) ?m \<longleftrightarrow> \<not> unat ?v + unat ?m \<le> unat lb + unat ll"
    using assms(2) d v(2) by (auto simp: word_less_nat_alt word_nat)
  show ?thesis
  proof (cases "seg_fits len lb ll ph")
    case fits: True
    then have f: "unat ?f \<le> unat ?m" "unat ?o + unat ?f \<le> unat len" "unat ?v + unat ?m \<le> unat lb + unat ll"
      using True by (simp_all add: seg_fits_def)
    have e: "add_chk (?v - lb) ?f = Inr (?v - lb + ?f)" "unat (?v - lb + ?f) = unat ?v - unat lb + unat ?f"
      using f d v(2) assms(4) by (simp_all add: add_chk_nat unat_add_no_wrap)
    have g: "add_chk ?o ?f = Inr (?o + ?f)" "unat (?o + ?f) = unat ?o + unat ?f"
      using f unat_u64_lt [of len] by (simp_all add: add_chk_nat unat_add_no_wrap)
    have "slice (load_bytes kf len (b_mem s)) ?o (?o + ?f)
        = Inr (take (unat ?f) (drop (unat ?o) (load_bytes kf len (b_mem s))))"
      using f g by (simp add: slice_def word_le_nat_alt)
    with True fits f e g o m v d show ?thesis
      by (simp add: boot_load_segment_def Let_def sub_chk_def assms(1) word_less_nat_alt)
  next
    case False
    then have n: "\<not> (unat ?f \<le> unat ?m \<and> unat ?o + unat ?f \<le> unat len \<and> unat ?v + unat ?m \<le> unat lb + unat ll)"
      using True v(2) by (simp add: seg_fits_def)
    show ?thesis
      using True False n o m by (auto simp: boot_load_segment_def Let_def sub_chk_def assms(1) word_less_nat_alt)
  qed
qed (simp add: boot_load_segment_def)

section \<open>All segments\<close>

text \<open>A store into the area does not reach the file buffer.\<close>

lemma store_keeps_file:
  assumes "apart kf (unat len) lb (unat ll)" "unat lb \<le> unat v" "unat v + length bs \<le> unat lb + unat ll"
  shows "load_bytes kf len (store_bytes v bs m) = load_bytes kf len m"
proof -
  have "store_bytes v bs m (kf + of_nat i) = m (kf + of_nat i)" if "i < unat len" for i
  proof (rule store_bytes_outside)
    have o: "unat ll \<le> unat (kf + of_nat i - lb)" using apart_offset [OF assms(1) that] .
    have d: "unat (v - lb) = unat v - unat lb" using assms(2) by (intro unat_sub) (simp add: word_le_nat_alt)
    then have le: "v - lb \<le> kf + of_nat i - lb" using o assms(3) by (simp add: word_le_nat_alt)
    have "kf + of_nat i - v = (kf + of_nat i - lb) - (v - lb)" by simp
    then have "unat (kf + of_nat i - v) = unat (kf + of_nat i - lb) - (unat v - unat lb)"
      using unat_sub [OF le] d by (simp only:)
    then show "length bs \<le> unat (kf + of_nat i - v)" using o assms(2,3) by linarith
  qed
  then show ?thesis by (simp add: load_bytes_def)
qed

lemma seg_store:
  assumes "is_load ph" "length bytes = unat len" "seg_fits len lb ll ph"
  shows "store_bytes (virtual_addr ph) (take (unat (file_size ph)) (drop (unat (ph_offset ph)) bytes)) m x
    = seg_byte bytes x ph (m x)"
  using assms by (auto simp: store_bytes_def seg_byte_def covers_def seg_fits_def)

lemma load_segments_cases:
  assumes "unat ll < 2 ^ 64 - 1" "unat len < 2 ^ 64 - 1" "unat lb + unat ll < 2 ^ 64"
    "apart kf (unat len) lb (unat ll)" "\<forall>ph \<in> set phs. is_load ph \<longrightarrow> lb \<le> virtual_addr ph"
  shows "if \<forall>ph \<in> set phs. seg_fits len lb ll ph
    then \<exists>s'. boot_load_segments u kf len lb ll phs s = Inr (Inr (), s')
       \<and> (\<forall>x. b_mem s' x = fold (seg_byte (load_bytes kf len (b_mem s)) x) phs (b_mem s x))
       \<and> load_bytes kf len (b_mem s') = load_bytes kf len (b_mem s)
    else \<exists>s'. boot_load_segments u kf len lb ll phs s = Inr (Inl LOAD_ERROR, s')"
  using assms(5)
proof (induction phs arbitrary: s)
  case (Cons ph phs)
  let ?bytes = "load_bytes kf len (b_mem s)"
  show ?case
  proof (cases "is_load ph")
    case False
    have "boot_load_segment u kf len lb ll ph s = Inr (Inr (), s)"
      using False by (simp add: boot_load_segment_def)
    moreover have "seg_fits len lb ll ph" "seg_byte b x ph = id" for b x
      using False by (auto simp: seg_fits_def seg_byte_def covers_def fun_eq_iff)
    ultimately show ?thesis using Cons by simp
  next
    case True
    with Cons.prems have v: "lb \<le> virtual_addr ph" by simp
    note seg = segment_cases [OF v assms(1-3), of u kf s]
    show ?thesis
    proof (cases "seg_fits len lb ll ph")
      case fits: True
      define m where "m = store_bytes (virtual_addr ph)
        (take (unat (file_size ph)) (drop (unat (ph_offset ph)) ?bytes)) (b_mem s)"
      have L: "load_bytes kf len m = ?bytes"
        unfolding m_def using fits True by (intro store_keeps_file [OF assms(4)]) (auto simp: seg_fits_def)
      have M: "m x = seg_byte ?bytes x ph (b_mem s x)" for x
        unfolding m_def using True fits by (intro seg_store) simp_all
      have S: "boot_load_segment u kf len lb ll ph s = Inr (Inr (), s\<lparr>b_mem := m\<rparr>)"
        using seg True fits by (simp add: m_def)
      show ?thesis
        using Cons.IH [of "s\<lparr>b_mem := m\<rparr>"] Cons.prems fits
        by (cases "\<forall>ph \<in> set phs. seg_fits len lb ll ph") (auto simp: L M S)
    qed (use seg True in auto)
  qed
qed simp

section \<open>The image\<close>

text \<open>What the firmware promises: the area it grants for the kernel does not overlap the file buffer.\<close>

definition image_apart :: "uefi \<Rightarrow> u64 \<Rightarrow> u64 \<Rightarrow> bool" where
  "image_apart u kf len \<longleftrightarrow>
     (\<forall>lb pages. alloc_at u lb pages = Some lb \<longrightarrow> apart kf (unat len) lb (unat pages * 4096))"

lemma zero_load_mem_keeps_file:
  assumes "apart kf (unat len) lb (unat ll)"
  shows "load_bytes kf len (zero_load_mem lb ll m) = load_bytes kf len m"
proof -
  have "\<not> kf + of_nat i - lb < ll" if "i < unat len" for i
    using apart_offset [OF assms that] by (simp add: word_less_nat_alt)
  then show ?thesis by (simp add: load_bytes_def zero_load_mem_def)
qed

text \<open>Everything \<open>load_kernel\<close> does once the file parses and has a segment.\<close>

lemma load_kernel_cases:
  assumes "image_apart u kf len" "unat len < 2 ^ 64 - 1" "elf_new elf (load_bytes kf len (b_mem s))"
    "elf_span (program_iter elf (load_bytes kf len (b_mem s))) = (mn, mx)" "mn \<noteq> u64_max" "\<not> mx \<le> mn"
    "unat mx + 4095 < 2 ^ 64"
  defines "bytes \<equiv> load_bytes kf len (b_mem s)" and "lb \<equiv> page_floor mn" and "le \<equiv> page_floor (mx + 0xfff)"
  shows "area mn mx lb le (le - lb)"
    "case alloc_at u lb ((le - lb) div 4096) of
      None \<Rightarrow> \<exists>s'. load_kernel u elf kf len s = Inr (Inl OUT_OF_RESOURCES, s')
    | Some a \<Rightarrow>
        if a = lb \<and> (\<forall>ph \<in> set (program_iter elf bytes). seg_fits len lb (le - lb) ph)
        then \<exists>s'. load_kernel u elf kf len s = Inr (Inr (entry_point elf bytes, lb, le), s')
           \<and> (\<forall>x. b_mem s' x = fold (seg_byte bytes x) (program_iter elf bytes) (zero_load_mem lb (le - lb) (b_mem s) x))
        else \<exists>s'. load_kernel u elf kf len s = Inr (Inl LOAD_ERROR, s')"
proof -
  have add: "add_chk mx 0xfff = Inr (mx + 0xfff)" using assms(7) by (simp add: add_chk_nat)
  note ar = area_pages [OF assms(6) add lb_def [THEN meta_eq_to_obj_eq] le_def [THEN meta_eq_to_obj_eq]]
  show a: "area mn mx lb le (le - lb)" by (rule ar(3))
  have unf: "load_kernel u elf kf len s = (case alloc_at u lb ((le - lb) div 4096) of
      None \<Rightarrow> Inr (Inl OUT_OF_RESOURCES,
                say_ok u (bytes_of ''Kernel alloc at '' @ fmt_hex lb @ bytes_of '' failed'') s)
    | Some addr \<Rightarrow>
        if addr \<noteq> lb
        then Inr (Inl LOAD_ERROR, say_ok u (bytes_of ''Kernel alloc returned unexpected address'') s)
        else let s1 = s\<lparr>b_mem := zero_load_mem lb (le - lb) (b_mem s)\<rparr> in
             and_then (boot_load_segments u kf len lb (le - lb) (program_iter elf (load_bytes kf len (b_mem s1))) s1)
               (\<lambda>(r, s2). case r of Inl st \<Rightarrow> Inr (Inl st, s2)
                | Inr _ \<Rightarrow> Inr (Inr (entry_point elf (load_bytes kf len (b_mem s2)), lb, le), s2)))"
    using assms(3-6) add ar(1,2)
    unfolding load_kernel_def Let_def
    by (simp add: lb_def [symmetric] le_def [symmetric] split: option.split) (unfold lb_def le_def, simp)
  show "case alloc_at u lb ((le - lb) div 4096) of
      None \<Rightarrow> \<exists>s'. load_kernel u elf kf len s = Inr (Inl OUT_OF_RESOURCES, s')
    | Some a \<Rightarrow>
        if a = lb \<and> (\<forall>ph \<in> set (program_iter elf bytes). seg_fits len lb (le - lb) ph)
        then \<exists>s'. load_kernel u elf kf len s = Inr (Inr (entry_point elf bytes, lb, le), s')
           \<and> (\<forall>x. b_mem s' x = fold (seg_byte bytes x) (program_iter elf bytes) (zero_load_mem lb (le - lb) (b_mem s) x))
        else \<exists>s'. load_kernel u elf kf len s = Inr (Inl LOAD_ERROR, s')"
  proof (cases "alloc_at u lb ((le - lb) div 4096) = Some lb")
    case True
    have "unat ((le - lb) div 4096) * 4096 = unat (le - lb)"
      using ar(2) by (simp add: mul_chk_nat word_unat_eq_iff unat_mul_no_wrap split: if_splits)
    then have ap: "apart kf (unat len) lb (unat (le - lb))" using assms(1) True by (metis image_apart_def)
    note f = area_facts [OF a]
    define m where "m = zero_load_mem lb (le - lb) (b_mem s)"
    have keep: "load_bytes kf len m = bytes" unfolding m_def bytes_def by (rule zero_load_mem_keeps_file [OF ap])
    have lo: "\<forall>ph \<in> set (program_iter elf bytes). is_load ph \<longrightarrow> lb \<le> virtual_addr ph"
      using elf_span_bounds(1) [OF assms(4)] f(1) unfolding bytes_def by (auto simp: word_le_nat_alt intro: order_trans)
    have "unat lb + unat (le - lb) < 2 ^ 64" using a unat_u64_lt [of le] by (simp add: area_def)
    from load_segments_cases [OF f(5) assms(2) this ap lo, of u "s\<lparr>b_mem := m\<rparr>"] show ?thesis
      unfolding unf Let_def
      by (cases "\<forall>ph \<in> set (program_iter elf bytes). seg_fits len lb (le - lb) ph")
        (auto simp: True keep m_def [symmetric])
  next
    case False
    then show ?thesis unfolding unf by (auto split: option.splits)
  qed
qed

lemma load_kernel_early:
  assumes "load_kernel u elf kf len s = Inr (Inr r, s') \<or> load_kernel u elf kf len s = Inl e"
  obtains mn mx where "elf_new elf (load_bytes kf len (b_mem s))"
    "elf_span (program_iter elf (load_bytes kf len (b_mem s))) = (mn, mx)" "mn \<noteq> u64_max" "\<not> mx \<le> mn"
proof -
  obtain mn mx where sp: "elf_span (program_iter elf (load_bytes kf len (b_mem s))) = (mn, mx)" by fastforce
  have "elf_new elf (load_bytes kf len (b_mem s)) \<and> mn \<noteq> u64_max \<and> \<not> mx \<le> mn"
    using assms by (auto simp: load_kernel_def Let_def sp split: if_splits)
  with sp that show thesis by blast
qed

lemma load_kernel_overflow:
  assumes "elf_new elf (load_bytes kf len (b_mem s))"
    "elf_span (program_iter elf (load_bytes kf len (b_mem s))) = (mn, mx)" "mn \<noteq> u64_max" "\<not> mx \<le> mn"
    "\<not> unat mx + 4095 < 2 ^ 64"
  shows "load_kernel u elf kf len s = Inl ArithOverflow"
  using assms by (simp add: load_kernel_def Let_def add_chk_nat)

lemma in_area:
  assumes "area mn mx lb le ll"
  shows "x - lb < ll \<longleftrightarrow> lb \<le> x \<and> x < le"
proof -
  have u: "unat lb + unat ll = unat le" using assms by (simp add: area_def)
  show ?thesis
  proof (cases "lb \<le> x")
    case True
    then show ?thesis using u by (auto simp: word_less_nat_alt word_le_nat_alt unat_sub)
  next
    case False
    then have "unat (x - lb) = 2 ^ 64 + unat x - unat lb"
      using unat_sub_if' [of x lb] by (simp add: word_le_nat_alt)
    then show ?thesis
      using False u unat_u64_lt [of le] by (auto simp: word_less_nat_alt word_le_nat_alt)
  qed
qed

lemma covers_area:
  assumes "area mn mx lb le ll" "seg_fits len lb ll ph" "covers x ph"
  shows "lb \<le> x \<and> x < le"
proof -
  let ?v = "virtual_addr ph"
  have f: "unat lb \<le> unat ?v" "unat ?v + unat (file_size ph) \<le> unat le" "unat (x - ?v) < unat (file_size ph)"
    using assms by (auto simp: seg_fits_def covers_def area_def)
  have "x = ?v + (x - ?v)" by simp
  then have "unat x = unat ?v + unat (x - ?v)"
    using f unat_u64_lt [of le] unat_add_no_wrap [of ?v "x - ?v"] by simp
  with f show ?thesis by (simp add: word_less_nat_alt word_le_nat_alt)
qed

lemma fold_uncovered: "\<forall>ph \<in> set phs. \<not> covers x ph \<Longrightarrow> fold (seg_byte bytes x) phs b = b"
  by (induction phs) (simp_all add: seg_byte_def)

text \<open>C28: the kernel image in memory is the file's. When loading succeeds, the image area is page-aligned and
  contains every loadable segment; each byte of it comes from the last segment in the file whose file
  part covers it and is zero if there is none, and no byte outside the area has changed.\<close>

theorem kernel_image_loaded:
  assumes "load_kernel u elf kf len s = Inr (Inr (entry, lb, le), s')" "image_apart u kf len" "unat len < 2 ^ 64 - 1"
  shows "let bytes = load_bytes kf len (b_mem s); phs = program_iter elf bytes in
     entry = entry_point elf bytes \<and> 4096 dvd unat lb \<and> 4096 dvd unat le
     \<and> (\<forall>ph \<in> set phs. is_load ph \<longrightarrow>
          unat lb \<le> unat (virtual_addr ph) \<and> unat (virtual_addr ph) + unat (mem_size ph) \<le> unat le)
     \<and> (\<forall>x. b_mem s' x = (if lb \<le> x \<and> x < le then fold (seg_byte bytes x) phs 0 else b_mem s x))"
proof -
  let ?bytes = "load_bytes kf len (b_mem s)"
  let ?phs = "program_iter elf ?bytes"
  obtain mn mx where e: "elf_new elf ?bytes" "elf_span ?phs = (mn, mx)" "mn \<noteq> u64_max" "\<not> mx \<le> mn"
    using load_kernel_early [OF disjI1 [OF assms(1)]] by metis
  have ov: "unat mx + 4095 < 2 ^ 64" using load_kernel_overflow [OF e, of u] assms(1) by fastforce
  note c = load_kernel_cases [OF assms(2,3) e ov]
  have r: "lb = page_floor mn" "le = page_floor (mx + 0xfff)" "entry = entry_point elf ?bytes"
    and fits: "\<forall>ph \<in> set ?phs. seg_fits len lb (le - lb) ph"
    and m: "\<forall>x. b_mem s' x = fold (seg_byte ?bytes x) ?phs (zero_load_mem lb (le - lb) (b_mem s) x)"
    using c(2) assms(1) by (auto split: option.splits if_splits)
  have a: "area mn mx lb le (le - lb)" unfolding r by (rule c(1))
  have "b_mem s' x = (if lb \<le> x \<and> x < le then fold (seg_byte ?bytes x) ?phs 0 else b_mem s x)" for x
  proof (cases "lb \<le> x \<and> x < le")
    case True
    then show ?thesis using m in_area [OF a] by (simp add: zero_load_mem_def)
  next
    case False
    then have "\<forall>ph \<in> set ?phs. \<not> covers x ph" using covers_area [OF a] fits by blast
    then show ?thesis using False m in_area [OF a, of x] by (auto simp: zero_load_mem_def fold_uncovered)
  qed
  moreover have "unat lb + unat (le - lb) = unat le" using a by (simp add: area_def)
  ultimately show ?thesis using r area_facts(3,4) [OF a] fits by (auto simp: Let_def seg_fits_def)
qed


section \<open>Handing over to the kernel\<close>


lemma reserved_covers:
  assumes "r \<in> set rs" "\<not> is_usable r" "x \<in> {unat (mr_base r)..<unat (mr_base r) + unat (mr_len r)}" "x < 2 ^ 64 - 1"
  shows "x \<in> reserved_addrs rs"
proof -
  have "mr_len r \<noteq> 0" using assms(3) by auto
  have "x < region_end r" using assms(3,4) by (simp add: region_end_def)
  moreover have "region_end r \<le> (region_end r + 4095) div 4096 * 4096" by simp
  moreover have "unat (mr_base r) div 4096 * 4096 \<le> unat (mr_base r)" by simp
  ultimately have "x \<in> reserved_span r" using assms(3) by (auto simp: reserved_span_def)
  with assms(1,2) \<open>mr_len r \<noteq> 0\<close> show ?thesis by (auto simp: reserved_addrs_def)
qed

lemma usable_conventional:
  assumes "x \<in> usable_addrs (boot_map u bi p)" "set (sort_map u (exit_map u)) = set (exit_map u)"
  shows "x < 2 ^ 64 - 1" "\<exists>d \<in> set (exit_map u). md_ty d = CONVENTIONAL
    \<and> x \<in> {unat (phys_start d)..<unat (phys_start d) + unat (page_count d) * 4096}"
proof -
  from assms(1) obtain r where r: "r \<in> set (boot_entries u bi p)" "is_usable r" "x \<in> usable_span r"
    unfolding usable_addrs_def boot_map_def by (blast dest: in_set_takeD set_mp [OF filter_is_subset])
  have "region_end r div 4096 * 4096 \<le> region_end r" by simp
  then have x: "x < region_end r" "unat (mr_base r) \<le> x"
    using r(3) by (auto simp: usable_span_def)
  then show "x < 2 ^ 64 - 1" by (simp add: region_end_def)
  from r(1,2) obtain d where d: "d \<in> set (exit_map u)" "r = desc_region d"
    unfolding boot_entries_def using assms(2) by (auto simp: is_usable_def)
  then have "region_kind (md_ty d) = KUsable" using r(2) by (simp add: is_usable_def desc_region_def del: kind_as_u32.simps)
  then have "md_ty d = CONVENTIONAL" by (cases "md_ty d") simp_all
  moreover have "unat (mr_len r) \<le> unat (page_count d) * 4096"
    by (simp add: d desc_region_def word_nat)
  ultimately show "\<exists>d \<in> set (exit_map u). md_ty d = CONVENTIONAL
    \<and> x \<in> {unat (phys_start d)..<unat (phys_start d) + unat (page_count d) * 4096}"
    using d x by (auto simp: desc_region_def region_end_def intro!: bexI [of _ d])
qed

text \<open>Free memory, as the kernel computes it from the map passed by the loader, contains nothing the loader set up.\<close>

lemma boot_map_apart:
  assumes "mset (sort_map u (exit_map u)) = mset (exit_map u)" "length (exit_map u) \<le> 1361"
    "x \<in> usable_addrs (boot_map u bi p) - reserved_addrs (boot_map u bi p)"
  shows "x \<notin> {unat (kernel_phys_base bi)..<unat (kernel_phys_end bi)}"
    "x \<notin> {unat (fb_base bi)..<unat (fb_base bi) + unat (fb_size bi)}"
    "x \<notin> {unat p..<unat p + 4096}" "x \<notin> {unat (regions_ptr bi)..<unat (regions_ptr bi) + 32768}"
proof -
  note sets = mset_eq_setD [OF assms(1)] mset_eq_length [OF assms(1)]
  have "length (boot_entries u bi p) \<le> 1365" using assms(2) sets(2) by (simp add: boot_entries_def)
  then have map: "boot_map u bi p = filter (\<lambda>r. mr_len r \<noteq> 0) (boot_entries u bi p)"
    unfolding boot_map_def regions_cap_eq by (intro take_all order_trans [OF length_filter_le])
  have res: "x \<in> reserved_addrs (boot_map u bi p)"
    if "r \<in> set (boot_entries u bi p)" "\<not> is_usable r" "x < 2 ^ 64 - 1"
      "x \<in> {unat (mr_base r)..<unat (mr_base r) + unat (mr_len r)}" for r
    using that by (intro reserved_covers [of r]) (auto simp: map)
  note own = res [of "\<lparr>mr_base = kernel_phys_base bi, mr_len = saturating_sub (kernel_phys_end bi) (kernel_phys_base bi),
       mr_kind = kind_as_u32 KKernel\<rparr>"]
    res [of "\<lparr>mr_base = fb_base bi, mr_len = fb_size bi, mr_kind = kind_as_u32 KFramebuffer\<rparr>"]
    res [of "\<lparr>mr_base = p, mr_len = 4096, mr_kind = kind_as_u32 KBoot\<rparr>"]
    res [of "\<lparr>mr_base = regions_ptr bi, mr_len = 32768, mr_kind = kind_as_u32 KBoot\<rparr>"]
  show "x \<notin> {unat (kernel_phys_base bi)..<unat (kernel_phys_end bi)}"
    "x \<notin> {unat (fb_base bi)..<unat (fb_base bi) + unat (fb_size bi)}"
    "x \<notin> {unat p..<unat p + 4096}" "x \<notin> {unat (regions_ptr bi)..<unat (regions_ptr bi) + 32768}"
    using own usable_conventional(1) [of x u bi p] assms(3) sets(1)
    by (auto simp: boot_entries_def is_usable_def word_nat)
qed


section \<open>A concrete boot\<close>

text \<open>A firmware with a framebuffer of 1024 by 768 pixels, 112 MiB of conventional memory and a page of loader
  data, and a kernel file of eight bytes with one segment.\<close>

definition demo_uefi :: uefi where
  "demo_uefi = \<lparr>services_init = True, stdout_ok = (\<lambda>_. True), gop_handles = Some [1],
     open_gop = (\<lambda>_. Some \<lparr>gm_width = 1024, gm_height = 768, gm_stride = 1024, gm_format = UefiBgr,
        gm_fb_ptr = 0x80000000, gm_fb_size = 0x300000\<rparr>),
     fs_handles = Some [2], open_fs = (\<lambda>_. True), open_volume = True, open_kernel = True,
     into_type = Some Regular, file_info = Some 8, read_file = Some [1, 2, 3, 4, 5, 6, 7, 8],
     alloc_any = (\<lambda>k n. Some (if k = 0 then 0x7000000 else if k = 1 then 0x7001000 else 0x7002000)),
     alloc_at = (\<lambda>a n. if a = 0x200000 \<and> n = 3 then Some a else None),
     exit_map = [\<lparr>phys_start = 0x100000, page_count = 0x6f00, md_ty = CONVENTIONAL\<rparr>,
        \<lparr>phys_start = 0x7000000, page_count = 16, md_ty = OtherMemory 2\<rparr>],
     sort_map = (\<lambda>ds. ds)\<rparr>"

definition demo_elf :: xmas_elf where
  "demo_elf = \<lparr>elf_new = (\<lambda>_. True),
     program_iter = (\<lambda>_. [\<lparr>is_load = True, virtual_addr = 0x200000, mem_size = 0x2100, file_size = 4, ph_offset = 2\<rparr>]),
     entry_point = (\<lambda>_. 0x200000)\<rparr>"

definition demo_loader :: loader_state where
  "demo_loader = \<lparr>b_mem = (\<lambda>_. 0xcc), b_stdout = []\<rparr>"

lemma demo_load: "case load_kernel demo_uefi demo_elf 0x7000000 8 demo_loader of
    Inr (Inr (entry, lb, le), s') \<Rightarrow> entry = 0x200000 \<and> lb = 0x200000 \<and> le = 0x203000 | _ \<Rightarrow> False"
  by code_simp

lemma demo_jump: "case boot_main demo_uefi demo_elf demo_loader of
    Inr (Jump entry p, s') \<Rightarrow> entry = 0x200000 \<and> p = 0x7001000 | _ \<Rightarrow> False"
  by code_simp

lemma demo_apart: "image_apart demo_uefi 0x7000000 8" "boot_pages_apart demo_uefi"
  by (simp_all add: image_apart_def boot_pages_apart_def apart_def demo_uefi_def regions_pages_def)

lemma load_caseE:
  assumes "case x of Inr (Inr (e, lb, le), s') \<Rightarrow> e = e0 \<and> lb = lb0 \<and> le = le0 | _ \<Rightarrow> False"
  obtains s' where "x = Inr (Inr (e0, lb0, le0), s')"
  using assms by (auto split: sum.splits prod.splits)

lemma jump_caseE:
  assumes "case x of Inr (Jump e p, s') \<Rightarrow> P e p s' | _ \<Rightarrow> False"
  obtains e p s' where "x = Inr (Jump e p, s')" "P e p s'"
  using assms by (auto split: sum.splits prod.splits boot_result.splits)

lemma demo_jumps: obtains s' where "boot_main demo_uefi demo_elf demo_loader = Inr (Jump 0x200000 0x7001000, s')"
  by (rule jump_caseE [OF demo_jump]) blast

theorem kernel_image_loaded_witness:
  "\<exists>s'. load_kernel demo_uefi demo_elf 0x7000000 8 demo_loader = Inr (Inr (0x200000, 0x200000, 0x203000), s')
     \<and> b_mem s' 0x200001 = b_mem demo_loader 0x7000003 \<and> b_mem s' 0x202fff = 0"
proof -
  obtain s' where s': "load_kernel demo_uefi demo_elf 0x7000000 8 demo_loader = Inr (Inr (0x200000, 0x200000, 0x203000), s')"
    by (rule load_caseE [OF demo_load])
  from kernel_image_loaded [OF this demo_apart(1)]
  have "\<forall>x. b_mem s' x = (if 0x200000 \<le> x \<and> x < 0x203000
      then fold (seg_byte (load_bytes 0x7000000 8 (b_mem demo_loader)) x)
        (program_iter demo_elf (load_bytes 0x7000000 8 (b_mem demo_loader))) 0 else b_mem demo_loader x)"
    by (simp add: Let_def)
  then have "b_mem s' 0x200001 = b_mem demo_loader 0x7000003 \<and> b_mem s' 0x202fff = 0"
    by (simp add: demo_elf_def seg_byte_def covers_def load_bytes_def)
  with s' show ?thesis by blast
qed



lemma demo_area:
  "load_kernel demo_uefi demo_elf kf len s = Inr (Inr (entry, lb, le), s') \<Longrightarrow> lb = 0x200000 \<and> le = 0x203000"
  by (auto simp: load_kernel_def Let_def demo_elf_def elf_span_def saturating_add_def page_floor_def add_chk_def
      elim!: and_then_InrE split: if_split_asm option.split_asm sum.split_asm prod.split_asm)

definition demo_regions :: "MemoryRegion list" where
  "demo_regions = [\<lparr>mr_base = 0x100000, mr_len = 0x6f00000, mr_kind = 1\<rparr>, \<lparr>mr_base = 0x7000000, mr_len = 0x10000, mr_kind = 2\<rparr>,
     \<lparr>mr_base = 0x200000, mr_len = 0x3000, mr_kind = 6\<rparr>, \<lparr>mr_base = 0x80000000, mr_len = 0x300000, mr_kind = 8\<rparr>,
     \<lparr>mr_base = 0x7001000, mr_len = 4096, mr_kind = 7\<rparr>, \<lparr>mr_base = 0x7002000, mr_len = 32768, mr_kind = 7\<rparr>]"

lemma demo_read_regions:
  assumes "boot_main demo_uefi demo_elf demo_loader = Inr (Jump e p, s')" "bi = read_bootinfo p (b_mem s')"
  shows "read_regions (regions_ptr bi) (unat (regions_len bi)) (b_mem s') = demo_regions"
proof -
  obtain fb lb le s1 kf len s0 where f: "boot_fb_info demo_uefi = Inr fb"
    "bi = boot_info_of fb (regions_ptr bi) lb le\<lparr>regions_len := of_nat (length (boot_map demo_uefi bi p))\<rparr>"
    "read_regions (regions_ptr bi) (unat (regions_len bi)) (b_mem s') = boot_map demo_uefi bi p"
    "load_kernel demo_uefi demo_elf kf len s0 = Inr (Inr (e, lb, le), s1)"
    "alloc_any demo_uefi 1 1 = Some p" "alloc_any demo_uefi 2 regions_pages = Some (regions_ptr bi)"
    unfolding assms(2) by (rule boot_handoff_facts [OF assms(1) demo_apart(2)]) blast
  have "fbi_base fb = 0x80000000" "fbi_size fb = 0x300000"
    using f(1) by (auto simp: boot_fb_info_def demo_uefi_def unwrap_def)
  then have b: "kernel_phys_base bi = 0x200000" "kernel_phys_end bi = 0x203000" "fb_base bi = 0x80000000" "fb_size bi = 0x300000"
    using demo_area [OF f(4)] by (subst f(2), simp add: boot_info_of_def)+
  have "p = 0x7001000" "regions_ptr bi = 0x7002000" using f(5,6) by (simp_all add: demo_uefi_def)
  with b show ?thesis
    unfolding f(3) boot_map_def boot_entries_def regions_cap_eq demo_regions_def
    by (simp add: demo_uefi_def desc_region_def saturating_mul_def saturating_sub_def)
qed

lemma demo_pmm_ok: "case pmm_init demo_regions demo_boot of
    Inl e \<Rightarrow> False | Inr (r, t1) \<Rightarrow> (case r of None \<Rightarrow> False | Some st \<Rightarrow> True)"
  by code_simp


end
