(* ===== verification/Power_On.thy ===== *)
theory Power_On
  imports Kmain_Boot Boot_Image
begin

text \<open>
  From the firmware to the first process: the boot loader and the kernel's entry point composed. What the
  loader leaves in memory is what the entry point needs, except for what depends on the machine alone.
\<close>

section \<open>What the loader guarantees\<close>

lemma load_kernel_area:
  assumes "load_kernel u elf kf len s = Inr (Inr (ev, lb, le), s')"
  shows "page_of lb = unat lb" "lb < le"
proof -
  obtain mn mx where e: "elf_new elf (load_bytes kf len (b_mem s))"
    "elf_span (program_iter elf (load_bytes kf len (b_mem s))) = (mn, mx)" "mn \<noteq> u64_max" "\<not> mx \<le> mn"
    by (rule load_kernel_early [OF disjI1 [OF assms]])
  have r: "lb = page_floor mn" "le = page_floor (mx + 0xfff)"
    using assms e by (auto simp: load_kernel_def Let_def add_chk_nat elim!: and_then_InrE split: if_splits option.splits sum.splits prod.splits)
  have ov: "unat mx + 4095 < 2 ^ 64" using load_kernel_overflow [OF e, of u] assms by fastforce
  show "page_of lb = unat lb" by (simp add: r(1) page_of_def unat_page_floor)
  have "unat (mx + 0xfff) = unat mx + 4095" using ov by (subst unat_add_no_wrap) simp_all
  then have "unat mx \<le> unat le" using page_of_le(2) [of "mx + 0xfff"] by (simp add: r(2) unat_page_floor page_of_def)
  moreover have "unat lb \<le> unat mn" using page_of_le(1) [of mn] by (simp add: r(1) unat_page_floor page_of_def)
  ultimately show "lb < le" using e(4) by (simp add: word_le_nat_alt word_less_nat_alt)
qed

lemma boot_regions_read: "boot_regions bi m \<noteq> [] \<Longrightarrow> boot_regions bi m = read_regions (regions_ptr bi) (unat (regions_len bi)) m"
  by (simp add: boot_regions_def split: if_splits)

lemma free_nonempty: "r \<in> set (live pm) \<Longrightarrow> r_base r < r_end r \<Longrightarrow> free_addrs pm \<noteq> {}"
  by (force simp: free_addrs_def cover_def span_def word_less_nat_alt)

text \<open>The framebuffer does not overlap the pages the firmware handed out for boot information and memory map.\<close>

definition screen_apart :: "BootInfo \<Rightarrow> u64 \<Rightarrow> bool" where
  "screen_apart bi p \<longleftrightarrow> fb_area (kernel_fb bi) \<inter> ({unat p..<unat p + 4096} \<union> {unat (regions_ptr bi)..<unat (regions_ptr bi) + 32768}) = {}"

lemma loader_prepares:
  assumes "boot_main u xelf s0 = Inr (Jump ev p, sl)" "boot_pages_apart u" "mset (sort_map u (exit_map u)) = mset (exit_map u)"
    "length (exit_map u) \<le> 1361" "bi = read_bootinfo p (b_mem sl)" "pmm_build (boot_regions bi (b_mem sl)) = Inr (Some (pm, st))"
    "free_addrs pm \<noteq> {}" "unat (kernel_phys_end bi) \<le> 2 ^ 47" "screen_apart bi p" "G = free_addrs pm \<union> fb_area (kernel_fb bi)"
  shows "bi_magic bi = BOOTINFO_MAGIC" "bi_version bi = BOOTINFO_VERSION" "\<forall>i < 72. unat (p + of_nat i) \<notin> G"
    "\<forall>i < 24 * unat (regions_len bi). unat (regions_ptr bi + of_nat i) \<notin> fb_area (kernel_fb bi)"
    "kernel_image_apart bi (free_addrs pm)"
proof -
  obtain fb lb le s1 kf len s where f:
    "bi = boot_info_of fb (regions_ptr bi) lb le\<lparr>regions_len := of_nat (length (boot_map u bi p))\<rparr>"
    "read_regions (regions_ptr bi) (unat (regions_len bi)) (b_mem sl) = boot_map u bi p"
    "load_kernel u xelf kf len s = Inr (Inr (ev, lb, le), s1)" "alloc_any u 1 1 = Some p"
    "alloc_any u 2 regions_pages = Some (regions_ptr bi)"
    using boot_handoff_facts [OF assms(1,2)] assms(5) by metis
  show "bi_magic bi = BOOTINFO_MAGIC" "bi_version bi = BOOTINFO_VERSION" by (subst f(1), simp add: boot_info_of_def)+
  have k: "kernel_phys_base bi = lb" "kernel_phys_end bi = le" by (subst f(1), simp add: boot_info_of_def)+
  note sp = pmm_build_spec [OF assms(6)]
  have "boot_regions bi (b_mem sl) \<noteq> []" using sp assms(7) by (auto simp: usable_addrs_def)
  then have "boot_regions bi (b_mem sl) = boot_map u bi p" using boot_regions_read f(2) by metis
  then have "x \<in> usable_addrs (boot_map u bi p) - reserved_addrs (boot_map u bi p)" if "x \<in> free_addrs pm" for x
    using sp that by simp
  note own = boot_map_apart [OF assms(3,4) this]
  have ap: "apart p 4096 (regions_ptr bi) 32768" using assms(2) f(4,5) by (simp add: boot_pages_apart_def)
  have pg: "unat (p + of_nat i) \<in> {unat p..<unat p + 4096}" if "i < 4096" for i
    using that ap by (subst unat_add_no_wrap) (auto simp: apart_def unat_of_nat)
  show "\<forall>i < 72. unat (p + of_nat i) \<notin> G"
  proof (intro allI impI)
    fix i :: nat assume "i < 72"
    then have i: "unat (p + of_nat i) \<in> {unat p..<unat p + 4096}" using pg [of i] by simp
    then show "unat (p + of_nat i) \<notin> G" using own(3) assms(9,10) unfolding screen_apart_def by blast
  qed
  have "length (boot_map u bi p) \<le> 1365" by (simp add: boot_map_def regions_cap_eq)
  then have len: "unat (regions_len bi) \<le> 1365" by (subst f(1)) (simp add: unat_of_nat)
  show "\<forall>i < 24 * unat (regions_len bi). unat (regions_ptr bi + of_nat i) \<notin> fb_area (kernel_fb bi)"
  proof (intro allI impI)
    fix i :: nat assume "i < 24 * unat (regions_len bi)"
    then have "i < 32768" using len by simp
    then have "unat (regions_ptr bi + of_nat i) \<in> {unat (regions_ptr bi)..<unat (regions_ptr bi) + 32768}"
      using ap by (subst unat_add_no_wrap) (auto simp: apart_def unat_of_nat)
    then show "unat (regions_ptr bi + of_nat i) \<notin> fb_area (kernel_fb bi)" using assms(9) unfolding screen_apart_def by blast
  qed
  note ar = load_kernel_area [OF f(3)]
  have "page_of a \<in> {unat lb..<unat le}" if "lb \<le> a" "a < le" for a
  proof -
    have "page_of lb \<le> page_of a" using that(1) by (simp add: page_of_def div_le_mono word_le_nat_alt)
    moreover have "page_of a < unat le" using page_of_le(1) [of a] that(2) by (simp add: word_less_nat_alt)
    ultimately show ?thesis using ar(1) by simp
  qed
  then show "kernel_image_apart bi (free_addrs pm)"
    using own(1) ar(2) assms(8) k by (auto simp: kernel_image_apart_def)
qed

section \<open>From the firmware to user mode\<close>


text \<open>The firmware and the loader of the concrete boot, and a kernel with a program of two segments.\<close>

definition demo_range :: Range where
  "demo_range = \<lparr>r_base = 0x203000, r_end = 0x7000000\<rparr>"

lemma demo_regions_pmm: "\<exists>pm st. pmm_build demo_regions = Inr (Some (pm, st)) \<and> live pm = [\<lparr>r_base = 0x100000, r_end = 0x200000\<rparr>, demo_range]"
proof -
  have "case pmm_build demo_regions of Inr (Some (pm, st)) \<Rightarrow> live pm = [\<lparr>r_base = 0x100000, r_end = 0x200000\<rparr>, demo_range] | _ \<Rightarrow> False"
    by code_simp
  then show ?thesis by (auto split: sum.splits option.splits)
qed


end
