(* ===== verification/Init.thy ===== *)
theory Init
  imports Isr Boot_Layout
begin

text \<open>
  The init program, \<^verbatim>\<open>userland/init/src/main.rs\<close>, which runs as the server and as the client process. It
  touches the kernel only through \<open>int 0x80\<close>, so it is modelled by the calls it makes: a piece of the
  program is a finite tree whose nodes are system calls and whose branches are the answers, and its
  endless loops are the transitions of a small state machine between such pieces. Where the linker puts
  the string literals and where the stack holds the buffer are parameters.
\<close>

section \<open>Programs that make system calls\<close>

text \<open>A call is the number in \<open>rax\<close> and the arguments in \<open>rdi\<close>, \<open>rsi\<close>, \<open>rdx\<close>, \<open>rcx\<close>, as many as the
  wrapper loads; an answer is \<open>rax\<close> and \<open>rdx\<close>.\<close>

record ucall =
  u_num :: u64
  u_args :: "u64 list"

record uret =
  ret_rax :: u64
  ret_rdx :: u64

datatype 'a io = Ret 'a | Sys ucall "uret \<Rightarrow> 'a io"

primrec bind :: "'a io \<Rightarrow> ('a \<Rightarrow> 'b io) \<Rightarrow> 'b io" where
  "bind (Ret x) f = f x"
| "bind (Sys c k) f = Sys c (\<lambda>r. bind (k r) f)"

definition syscall1 :: "u64 \<Rightarrow> u64 \<Rightarrow> u64 io" where
  "syscall1 n a1 = Sys \<lparr>u_num = n, u_args = [a1]\<rparr> (\<lambda>r. Ret (ret_rax r))"

definition syscall2 :: "u64 \<Rightarrow> u64 \<Rightarrow> u64 \<Rightarrow> u64 io" where
  "syscall2 n a1 a2 = Sys \<lparr>u_num = n, u_args = [a1, a2]\<rparr> (\<lambda>r. Ret (ret_rax r))"

definition syscall3 :: "u64 \<Rightarrow> u64 \<Rightarrow> u64 \<Rightarrow> u64 \<Rightarrow> u64 io" where
  "syscall3 n a1 a2 a3 = Sys \<lparr>u_num = n, u_args = [a1, a2, a3]\<rparr> (\<lambda>r. Ret (ret_rax r))"

definition syscall4 :: "u64 \<Rightarrow> u64 \<Rightarrow> u64 \<Rightarrow> u64 \<Rightarrow> u64 \<Rightarrow> u64 io" where
  "syscall4 n a1 a2 a3 a4 = Sys \<lparr>u_num = n, u_args = [a1, a2, a3, a4]\<rparr> (\<lambda>r. Ret (ret_rax r))"

definition syscall3_ret_rdx :: "u64 \<Rightarrow> u64 \<Rightarrow> u64 \<Rightarrow> u64 \<Rightarrow> (u64 \<times> u64) io" where
  "syscall3_ret_rdx n a1 a2 a3 = Sys \<lparr>u_num = n, u_args = [a1, a2, a3]\<rparr> (\<lambda>r. Ret (ret_rax r, ret_rdx r))"

section \<open>The program\<close>

text \<open>The addresses of the literals, and of the 64-byte buffer in either role.\<close>

record image =
  lit_at :: "string \<Rightarrow> u64"
  buf_at :: u64

definition BUF_LEN :: u64 where
  "BUF_LEN = 64"

definition putc :: "u8 \<Rightarrow> unit io" where
  "putc b = bind (syscall1 SYS_PUTC (ucast b)) (\<lambda>_. Ret ())"

definition puts :: "image \<Rightarrow> string \<Rightarrow> unit io" where
  "puts im str = bind (syscall2 SYS_WRITE (lit_at im str) (of_nat (length str))) (\<lambda>_. Ret ())"

definition hex_table :: string where
  "hex_table = ''0123456789abcdef''"

fun hex_digits :: "u64 \<Rightarrow> nat list \<Rightarrow> unit io" where
  "hex_digits v [] = Ret ()"
| "hex_digits v (i # is) =
     (let d = unat (drop_bit (i * 4) v AND 0xf) in
      bind (putc (of_char (hex_table ! d))) (\<lambda>_. hex_digits v is))"

definition put_hex :: "u64 \<Rightarrow> unit io" where
  "put_hex v = bind (putc (of_char (CHR ''0''))) (\<lambda>_. bind (putc (of_char (CHR ''x''))) (\<lambda>_. hex_digits v (rev [0..<16])))"

definition report :: "image \<Rightarrow> string \<Rightarrow> u64 \<Rightarrow> unit io" where
  "report im str v = bind (puts im str) (\<lambda>_. bind (put_hex v) (\<lambda>_. puts im nl))"

text \<open>The places between which the program moves: its entry with the two register arguments, the head of
  each loop, and the handler of a panic.\<close>

datatype place = Entry u64 u64 | ServerLoop u64 | ClientRecv u64 | ClientIdle | Panicked

definition server_start :: "image \<Rightarrow> place io" where
  "server_start im =
     bind (puts im (''init[0]: server start'' @ nl)) (\<lambda>_.
     bind (syscall1 SYS_IPC_EP_CREATE 0) (\<lambda>ep.
     bind (report im ''init[0]: ep='' ep) (\<lambda>_.
     bind (syscall3 SYS_PROC_SPAWN 1 1 ep) (\<lambda>pid.
     bind (report im ''init[0]: spawned pid='' pid) (\<lambda>_.
     bind (syscall1 SYS_IPC_EP_CREATE 0) (\<lambda>ep2.
     bind (report im ''init[0]: ep2='' ep2) (\<lambda>_.
     let note_s = ''cap transfer: ep2'' @ nl in
     bind (syscall4 SYS_IPC_SEND_CAP ep (lit_at im note_s) (of_nat (length note_s)) ep2) (\<lambda>sent.
     bind (report im ''init[0]: sent cap note='' sent) (\<lambda>_.
     Ret (ServerLoop ep2))))))))))"

text \<open>\<open>if got < 2^63 { puts(..); write(buf, min(got, 64)); puts("\n") }\<close>.\<close>

definition show_message :: "image \<Rightarrow> string \<Rightarrow> u64 \<Rightarrow> unit io" where
  "show_message im str got =
     (if got < 0x8000000000000000
      then bind (puts im str) (\<lambda>_.
           bind (syscall2 SYS_WRITE (buf_at im) (min got BUF_LEN)) (\<lambda>_.
           puts im nl))
      else Ret ())"

definition yield_call :: "unit io" where
  "yield_call = bind (syscall1 SYS_YIELD 0) (\<lambda>_. Ret ())"

definition server_turn :: "image \<Rightarrow> u64 \<Rightarrow> place io" where
  "server_turn im ep2 =
     bind (syscall3 SYS_IPC_RECV ep2 (buf_at im) BUF_LEN) (\<lambda>got.
     bind (show_message im ''init[0]: recv msg='' got) (\<lambda>_.
     bind yield_call (\<lambda>_. Ret (ServerLoop ep2))))"

definition client_start :: "image \<Rightarrow> u64 \<Rightarrow> place io" where
  "client_start im ep =
     bind (puts im (''init[1]: client start'' @ nl)) (\<lambda>_.
     bind (report im ''init[1]: ep='' ep) (\<lambda>_. Ret (ClientRecv ep)))"

definition client_rest :: "image \<Rightarrow> u64 \<Rightarrow> u64 \<Rightarrow> place io" where
  "client_rest im got new_cap =
     bind (puts im ''init[1]: recv note bytes='') (\<lambda>_.
     bind (put_hex got) (\<lambda>_.
     bind (puts im '' cap='') (\<lambda>_.
     bind (put_hex new_cap) (\<lambda>_.
     bind (puts im nl) (\<lambda>_.
     bind (show_message im ''init[1]: note='' got) (\<lambda>_.
     let msg = ''ping over transferred cap'' @ nl in
     bind (syscall3 SYS_IPC_SEND new_cap (lit_at im msg) (of_nat (length msg))) (\<lambda>sent.
     bind (report im ''init[1]: sent on new cap='' sent) (\<lambda>_.
     Ret ClientIdle))))))))"

definition client_turn :: "image \<Rightarrow> u64 \<Rightarrow> place io" where
  "client_turn im ep =
     bind (syscall3_ret_rdx SYS_IPC_RECV_CAP ep (buf_at im) BUF_LEN) (\<lambda>(got, new_cap).
     if got = u64_max - 2 then bind yield_call (\<lambda>_. Ret (ClientRecv ep))
     else client_rest im got new_cap)"

fun init_step :: "image \<Rightarrow> place \<Rightarrow> place io" where
  "init_step im (Entry role ep) = (if role = 0 then server_start im else client_start im ep)"
| "init_step im (ServerLoop ep2) = server_turn im ep2"
| "init_step im (ClientRecv ep) = client_turn im ep"
| "init_step im ClientIdle = bind yield_call (\<lambda>_. Ret ClientIdle)"
| "init_step im Panicked = bind yield_call (\<lambda>_. Ret Panicked)"

section \<open>Runs\<close>

text \<open>The calls with their answers of a piece of the program, and of a run from place to place.\<close>

inductive io_run :: "'a io \<Rightarrow> (ucall \<times> uret) list \<Rightarrow> 'a \<Rightarrow> bool" where
  io_ret: "io_run (Ret x) [] x"
| io_sys: "io_run (k r) tr x \<Longrightarrow> io_run (Sys c k) ((c, r) # tr) x"

inductive_cases io_run_RetE [elim!]: "io_run (Ret x) tr y"
inductive_cases io_run_SysE [elim!]: "io_run (Sys c k) tr y"

inductive init_run :: "image \<Rightarrow> place \<Rightarrow> (ucall \<times> uret) list \<Rightarrow> place \<Rightarrow> bool" for im where
  run_here: "init_run im p [] p"
| run_step: "init_run im p tr q \<Longrightarrow> io_run (init_step im q) tr' q' \<Longrightarrow> init_run im p (tr @ tr') q'"

lemma io_run_bind: "io_run (bind m f) tr y \<longleftrightarrow> (\<exists>tr1 tr2 x. tr = tr1 @ tr2 \<and> io_run m tr1 x \<and> io_run (f x) tr2 y)"
proof
  show "\<exists>tr1 tr2 x. tr = tr1 @ tr2 \<and> io_run m tr1 x \<and> io_run (f x) tr2 y" if "io_run (bind m f) tr y"
    using that
  proof (induction m arbitrary: tr)
    case (Ret x)
    then have "io_run (f x) tr y" by simp
    then show ?case by (intro exI [of _ "[]"] exI [of _ tr] exI [of _ x]) (simp add: io_ret)
  next
    case (Sys c k)
    from Sys(2) obtain r t where t: "tr = (c, r) # t" "io_run (bind (k r) f) t y" by auto
    from Sys(1) [OF _ t(2)] obtain t1 t2 x where "t = t1 @ t2" "io_run (k r) t1 x" "io_run (f x) t2 y" by auto
    then show ?case using t(1) io_sys [of k r t1 x c] by (metis append_Cons)
  qed
  show "io_run (bind m f) tr y" if "\<exists>tr1 tr2 x. tr = tr1 @ tr2 \<and> io_run m tr1 x \<and> io_run (f x) tr2 y"
  proof -
    have "io_run (bind m f) (t1 @ t2) y" if "io_run m t1 x" "io_run (f x) t2 y" for t1 t2 x
      using that by (induction rule: io_run.induct) (auto intro: io_sys)
    with that show ?thesis by blast
  qed
qed

text \<open>A run in which the answers are a function of the calls.\<close>

primrec run_with :: "(ucall \<Rightarrow> uret) \<Rightarrow> 'a io \<Rightarrow> ucall list \<times> 'a" where
  "run_with ans (Ret x) = ([], x)"
| "run_with ans (Sys c k) = (case run_with ans (k (ans c)) of (cs, x) \<Rightarrow> (c # cs, x))"

lemma run_with_bind: "run_with ans (bind m f) =
    (case run_with ans m of (cs, x) \<Rightarrow> case run_with ans (f x) of (cs', y) \<Rightarrow> (cs @ cs', y))"
  by (induction m) (auto split: prod.splits)

lemma run_with_io: "run_with ans m = (cs, x) \<Longrightarrow> io_run m (map (\<lambda>c. (c, ans c)) cs) x"
  by (induction m arbitrary: cs) (auto split: prod.splits intro!: io_ret io_sys)

section \<open>What the kernel is asked\<close>

definition init_literals :: "string set" where
  "init_literals = {nl, ''init[0]: server start'' @ nl, ''init[0]: ep='', ''init[0]: spawned pid='', ''init[0]: ep2='',
     ''cap transfer: ep2'' @ nl, ''init[0]: sent cap note='', ''init[0]: recv msg='', ''init[1]: client start'' @ nl,
     ''init[1]: ep='', ''init[1]: recv note bytes='', '' cap='', ''init[1]: note='', ''ping over transferred cap'' @ nl,
     ''init[1]: sent on new cap=''}"

definition is_literal :: "image \<Rightarrow> u64 \<Rightarrow> u64 \<Rightarrow> bool" where
  "is_literal im p n \<longleftrightarrow> (\<exists>str \<in> init_literals. p = lit_at im str \<and> n = of_nat (length str))"

text \<open>The endpoints a process may name: those it was given, created or received.\<close>

definition learn :: "ucall \<Rightarrow> uret \<Rightarrow> u64 set \<Rightarrow> u64 set" where
  "learn c r C = (if u_num c = SYS_IPC_EP_CREATE then insert (ret_rax r) C
     else if u_num c = SYS_IPC_RECV_CAP then insert (ret_rdx r) C else C)"

text \<open>A call the kernel understands: a number it implements, with the arguments it reads for that number, every
  pointer a literal or the buffer with its length at most, every endpoint one the process may name.\<close>

definition call_ok :: "image \<Rightarrow> u64 set \<Rightarrow> ucall \<Rightarrow> bool" where
  "call_ok im C c \<longleftrightarrow>
     (u_num c = SYS_PUTC \<and> (\<exists>b. u_args c = [b] \<and> b < 256))
   \<or> (u_num c = SYS_YIELD \<and> u_args c = [0])
   \<or> (u_num c = SYS_WRITE \<and> (\<exists>p n. u_args c = [p, n] \<and> (is_literal im p n \<or> p = buf_at im \<and> n \<le> BUF_LEN)))
   \<or> (u_num c = SYS_IPC_EP_CREATE \<and> u_args c = [0])
   \<or> (u_num c = SYS_PROC_SPAWN \<and> (\<exists>cap \<in> C. u_args c = [1, 1, cap]))
   \<or> (u_num c = SYS_IPC_SEND \<and> (\<exists>cap \<in> C. \<exists>p n. u_args c = [cap, p, n] \<and> is_literal im p n))
   \<or> (u_num c = SYS_IPC_SEND_CAP \<and> (\<exists>cap \<in> C. \<exists>cap' \<in> C. \<exists>p n. u_args c = [cap, p, n, cap'] \<and> is_literal im p n))
   \<or> (u_num c = SYS_IPC_RECV \<or> u_num c = SYS_IPC_RECV_CAP) \<and> (\<exists>cap \<in> C. u_args c = [cap, buf_at im, BUF_LEN])"

fun trace_ok :: "image \<Rightarrow> u64 set \<Rightarrow> (ucall \<times> uret) list \<Rightarrow> bool" where
  "trace_ok im C [] = True"
| "trace_ok im C ((c, r) # tr) = (call_ok im C c \<and> trace_ok im (learn c r C) tr)"

fun learn_all :: "(ucall \<times> uret) list \<Rightarrow> u64 set \<Rightarrow> u64 set" where
  "learn_all [] C = C"
| "learn_all ((c, r) # tr) C = learn_all tr (learn c r C)"

primrec io_ok :: "image \<Rightarrow> 'a io \<Rightarrow> u64 set \<Rightarrow> (u64 set \<Rightarrow> 'a \<Rightarrow> bool) \<Rightarrow> bool" where
  "io_ok im (Ret x) = (\<lambda>C P. P C x)"
| "io_ok im (Sys c k) = (\<lambda>C P. call_ok im C c \<and> (\<forall>r. io_ok im (k r) (learn c r C) P))"

named_theorems io_rules

lemma io_ok_bind [io_rules]: "io_ok im (bind m f) C P = io_ok im m C (\<lambda>C x. io_ok im (f x) C P)"
  by (induction m arbitrary: C) simp_all

lemma io_ok_run: "io_run m tr x \<Longrightarrow> io_ok im m C P \<Longrightarrow> trace_ok im C tr \<and> P (learn_all tr C) x"
  by (induction arbitrary: C rule: io_run.induct) auto

lemma trace_ok_append: "trace_ok im C (tr @ tr') \<longleftrightarrow> trace_ok im C tr \<and> trace_ok im (learn_all tr C) tr'"
  by (induction im C tr rule: trace_ok.induct) auto

lemma learn_all_append: "learn_all (tr @ tr') C = learn_all tr' (learn_all tr C)"
  by (induction tr C rule: learn_all.induct) auto

lemmas sys_numbers = SYS_PUTC_def SYS_YIELD_def SYS_WRITE_def SYS_IPC_EP_CREATE_def SYS_IPC_SEND_def SYS_IPC_RECV_def
  SYS_IPC_SEND_CAP_def SYS_IPC_RECV_CAP_def SYS_PROC_SPAWN_def

lemma putc_ok [io_rules]: "io_ok im (putc b) C P = P C ()"
proof -
  have "unat b < 256" by (rule order.strict_trans2 [OF unsigned_less]) simp
  then have "take_bit 64 (unat b) < 256" by (rule order.strict_trans1 [OF take_bit_nat_less_eq_self])
  then have "(ucast b :: u64) < 256" by (simp add: word_less_nat_alt unsigned_ucast_eq)
  then show ?thesis by (simp add: putc_def syscall1_def call_ok_def learn_def sys_numbers)
qed

lemma literal_ok: "str \<in> init_literals \<Longrightarrow> is_literal im (lit_at im str) (of_nat (length str))"
  by (auto simp: is_literal_def)

lemma puts_ok: "str \<in> init_literals \<Longrightarrow> io_ok im (puts im str) C P = P C ()"
  using literal_ok [of str im] by (simp add: puts_def syscall2_def call_ok_def learn_def sys_numbers)

lemma hex_digits_ok: "io_ok im (hex_digits v is) C P = P C ()"
  by (induction "is") (simp_all add: io_rules Let_def)

lemma put_hex_ok [io_rules]: "io_ok im (put_hex v) C P = P C ()"
  by (simp add: put_hex_def io_rules hex_digits_ok)

lemma report_ok: "str \<in> init_literals \<Longrightarrow> io_ok im (report im str v) C P = P C ()"
  by (simp add: report_def io_rules puts_ok) (simp add: puts_ok init_literals_def)

lemma yield_ok [io_rules]: "io_ok im yield_call C P = P C ()"
  by (simp add: yield_call_def syscall1_def call_ok_def learn_def sys_numbers)

lemma show_message_ok: "str \<in> init_literals \<Longrightarrow> io_ok im (show_message im str got) C P = P C ()"
proof -
  assume "str \<in> init_literals"
  moreover have "nl \<in> init_literals" by (simp add: init_literals_def)
  ultimately show ?thesis
    by (simp add: show_message_def io_rules puts_ok syscall2_def call_ok_def learn_def sys_numbers)
qed

fun place_ok :: "u64 set \<Rightarrow> place \<Rightarrow> bool" where
  "place_ok C (Entry role ep) \<longleftrightarrow> ep \<in> C"
| "place_ok C (ServerLoop ep) \<longleftrightarrow> ep \<in> C"
| "place_ok C (ClientRecv ep) \<longleftrightarrow> ep \<in> C"
| "place_ok C p \<longleftrightarrow> True"

lemma init_step_ok:
  assumes "place_ok C p"
  shows "io_ok im (init_step im p) C place_ok"
proof -
  note rules = io_rules puts_ok report_ok show_message_ok syscall1_def syscall3_def syscall4_def syscall3_ret_rdx_def
    call_ok_def learn_def sys_numbers Let_def
  have ln: "is_literal im (lit_at im (''cap transfer: ep2'' @ nl)) 18" "is_literal im (lit_at im (''ping over transferred cap'' @ nl)) 26"
    using literal_ok [of "''cap transfer: ep2'' @ nl" im] literal_ok [of "''ping over transferred cap'' @ nl" im]
    by (simp_all add: init_literals_def)
  note l = init_literals_def ln [simplified]
  show ?thesis
  proof (cases p)
    case (Entry role ep)
    show ?thesis
    proof (cases "role = 0")
      case True
      have "io_ok im (server_start im) C place_ok"
        unfolding server_start_def by (simp add: rules l)
      then show ?thesis using Entry True by simp
    next
      case False
      have "io_ok im (client_start im ep) C place_ok"
        using assms Entry unfolding client_start_def by (simp add: rules l)
      then show ?thesis using Entry False by simp
    qed
  next
    case (ServerLoop ep2)
    then show ?thesis using assms by (simp add: server_turn_def rules l)
  next
    case (ClientRecv ep)
    then show ?thesis using assms by (simp add: client_turn_def client_rest_def rules l)
  qed (simp_all add: rules)
qed

lemma init_run_ok:
  assumes "init_run im p tr q" "place_ok C p"
  shows "trace_ok im C tr \<and> place_ok (learn_all tr C) q"
  using assms
proof (induction rule: init_run.induct)
  case (run_step p tr q tr' q')
  then have q: "trace_ok im C tr" "place_ok (learn_all tr C) q" by auto
  from io_ok_run [OF run_step(2) init_step_ok [OF q(2)]] q(1) show ?case
    by (simp add: trace_ok_append learn_all_append)
qed simp

text \<open>C39: the init program only makes calls the kernel understands. In either role, whatever the kernel answers
  and however long it runs, every system call it makes has a number the kernel implements and the
  arguments the kernel reads for that number; every pointer it passes is one of its literals with
  that literal's length or its 64-byte buffer with at most 64 bytes; and every endpoint it names is the
  one it was started with, one it created or one it received.\<close>

theorem init_calls_ok:
  assumes "init_run im (Entry role ep) tr q"
  shows "trace_ok im {ep} tr"
  using init_run_ok [OF assms, of "{ep}"] by simp

definition demo_image :: image where
  "demo_image = \<lparr>lit_at = (\<lambda>str. 0x10001000 + of_nat (length str)), buf_at = 0x1ffffe00\<rparr>"

theorem init_calls_ok_witness:
  "\<exists>tr. init_run demo_image (Entry 1 5) tr ClientIdle \<and> trace_ok demo_image {5} tr \<and> tr \<noteq> []"
proof -
  let ?a = "\<lambda>c :: ucall. \<lparr>ret_rax = 5, ret_rdx = 7\<rparr>"
  have next_place: "snd (run_with ?a (init_step demo_image (Entry 1 5))) = ClientRecv 5"
    "snd (run_with ?a (init_step demo_image (ClientRecv 5))) = ClientIdle"
    by (simp_all add: client_start_def client_turn_def client_rest_def run_with_bind syscall3_ret_rdx_def Let_def
        split: prod.splits)
  obtain cs1 cs2 where cs: "run_with ?a (init_step demo_image (Entry 1 5)) = (cs1, ClientRecv 5)"
    "run_with ?a (init_step demo_image (ClientRecv 5)) = (cs2, ClientIdle)"
    using next_place by (metis prod.collapse)
  have ne: "cs2 \<noteq> []" using cs(2) by (auto simp: client_turn_def syscall3_ret_rdx_def split: prod.splits)
  let ?t = "\<lambda>cs. map (\<lambda>c. (c, ?a c)) cs"
  have "init_run demo_image (Entry 1 5) ([] @ ?t cs1) (ClientRecv 5)"
    by (rule run_step [OF run_here run_with_io [OF cs(1)]])
  then have r: "init_run demo_image (Entry 1 5) (([] @ ?t cs1) @ ?t cs2) ClientIdle"
    by (rule run_step [OF _ run_with_io [OF cs(2)]])
  with init_calls_ok [OF r] ne show ?thesis by (intro exI [of _ "([] @ ?t cs1) @ ?t cs2"]) simp
qed

text \<open>The bytes a list of calls prints with \<open>putc\<close>.\<close>

definition putc_bytes :: "ucall list \<Rightarrow> u8 list" where
  "putc_bytes cs = map (\<lambda>c. ucast (hd (u_args c))) (filter (\<lambda>c. u_num c = SYS_PUTC) cs)"

lemma putc_byte: "ucast (ucast (b :: u8) :: u64) = b"
  by (rule bit_eqI) (auto simp: bit_simps dest: bit_imp_le_length)

lemma putc_run: "run_with ans (putc b) = ([\<lparr>u_num = SYS_PUTC, u_args = [ucast b]\<rparr>], ())"
  by (simp add: putc_def syscall1_def)

lemma hex_table_digit: "d < 16 \<Longrightarrow> of_char (hex_table ! d) = hex_digit (of_nat d)"
proof -
  assume "d < 16"
  then have "d \<in> set [0..<16]" by simp
  moreover have "\<forall>d \<in> set [0..<16]. of_char (hex_table ! d) = hex_digit (of_nat d)"
    by (simp add: upt_conv_Cons hex_table_def hex_digit_def word_le_nat_alt)
  ultimately show ?thesis by blast
qed

lemma hex_digits_run:
  "putc_bytes (fst (run_with ans (hex_digits v is))) = map (\<lambda>i. hex_digit (ucast (drop_bit (i * 4) v AND 0xf))) is"
proof (induction "is")
  case (Cons i "is")
  let ?d = "drop_bit (i * 4) v AND 0xf"
  have "?d = take_bit 4 (drop_bit (i * 4) v)" by (simp add: take_bit_eq_mask mask_eq_exp_minus_1)
  then have d: "unat ?d < 16" by (simp add: unat_take_bit_word)
  then have "(of_nat (unat ?d) :: u8) = ucast ?d" by (simp add: word_unat_eq_iff unsigned_ucast_eq unat_of_nat take_bit_eq_mod)
  with Cons hex_table_digit [OF d] show ?case
    by (auto simp: Let_def run_with_bind putc_run putc_bytes_def putc_byte split: prod.splits)
qed (simp add: putc_bytes_def)

text \<open>The init program prints numbers as the kernel does. Whatever the kernel answers, the bytes \<open>put_hex\<close>
  sends with \<open>PUTC\<close> are the ones the kernel's own printer puts on the serial line for the same number.\<close>

theorem put_hex_agrees:
  "serial_out (write_hex_u64 v s) = serial_out s @ putc_bytes (fst (run_with ans (put_hex v)))"
proof -
  have "putc_bytes (fst (run_with ans (put_hex v))) = map of_char ''0x'' @ putc_bytes (fst (run_with ans (hex_digits v (rev [0..<16]))))"
    by (simp add: put_hex_def run_with_bind putc_run putc_bytes_def putc_byte split: prod.splits)
  then show ?thesis by (simp only: hex_digits_run write_hex_eq) (simp add: hex_bytes_def)
qed

end
