(* ===== verification/Build_Script.thy ===== *)
theory Build_Script
  imports Rust_Prelude
begin

text \<open>
  The build script \<^verbatim>\<open>kernel/build.rs\<close>, which embeds the init program in the kernel as a generated Rust source file.
  The environment and the file system are parameters: what \<open>env::var\<close> and \<open>fs::read\<close> return.
\<close>

section \<open>The generated file\<close>

definition hex_char :: "nat \<Rightarrow> char" where
  "hex_char d = (if d < 10 then char_of (48 + d) else char_of (87 + d))"

text \<open>\<open>format!("0x{:02x},", b)\<close>.\<close>

definition byte_text :: "u8 \<Rightarrow> string" where
  "byte_text b = ''0x'' @ [hex_char (unat b div 16), hex_char (unat b mod 16), CHR '','']"

function chunks :: "nat \<Rightarrow> 'a list \<Rightarrow> 'a list list" where
  "chunks n xs = (if xs = [] \<or> n = 0 then [] else take n xs # chunks n (drop n xs))"
  by pat_completeness auto
termination by (relation "measure (\<lambda>(n, xs). length xs)") auto

declare chunks.simps [simp del]

definition newline_text :: string where
  "newline_text = [CHR 0x0A]"

definition chunk_text :: "u8 list \<Rightarrow> string" where
  "chunk_text bs = ''    '' @ concat (map byte_text bs) @ newline_text"

definition init_elf_source :: "u8 list \<Rightarrow> string" where
  "init_elf_source bs =
     ''// @generated by build.rs'' @ newline_text @
     ''pub static INIT_ELF: &[u8] = &['' @ newline_text @
     concat (map chunk_text (chunks 12 bs)) @ ''];'' @ newline_text"

text \<open>The script: what it prints for cargo, and the file it writes in the output directory; a missing output
  directory and a failing write panic.\<close>

definition build_main ::
  "(string \<Rightarrow> string option) \<Rightarrow> (string \<Rightarrow> u8 list option) \<Rightarrow> (string \<Rightarrow> string \<Rightarrow> bool)
     \<Rightarrow> (string list \<times> string \<times> string) outcome" where
  "build_main env_var fs_read fs_write_ok =
     and_then (expect ''OUT_DIR missing'' (env_var ''OUT_DIR'')) (\<lambda>out_dir.
       let out_path = out_dir @ ''/init_elf.rs'';
           init_path = env_var ''MANTRA_INIT_ELF'';
           bytes = (case init_path of None \<Rightarrow> [] | Some p \<Rightarrow> (case fs_read p of None \<Rightarrow> [] | Some bs \<Rightarrow> bs));
           said = (case init_path of None \<Rightarrow> [] | Some p \<Rightarrow> [''cargo:rerun-if-changed='' @ p]) in
       if fs_write_ok out_path (init_elf_source bytes) then Inr (said, out_path, init_elf_source bytes)
       else Inl (Explicit ''write init_elf.rs''))"

section \<open>Reading the array back\<close>

definition hex_value_of :: "char \<Rightarrow> nat" where
  "hex_value_of c = (let n = of_char c in if n < 58 then n - 48 else n - 87)"

text \<open>The elements of the array literal: the hexadecimal tokens of the text.\<close>

fun byte_tokens :: "string \<Rightarrow> u8 list" where
  "byte_tokens (z # x # a # b # c # rest) =
     (if z = CHR ''0'' \<and> x = CHR ''x'' \<and> c = CHR '',''
      then of_nat (16 * hex_value_of a + hex_value_of b) # byte_tokens rest
      else byte_tokens (x # a # b # c # rest))"
| "byte_tokens _ = []"

lemma hex_char_value: "d < 16 \<Longrightarrow> hex_value_of (hex_char d) = d"
proof -
  assume "d < 16"
  then have "d \<in> set [0..<16]" by simp
  moreover have "\<forall>d \<in> set [0..<16]. hex_value_of (hex_char d) = d"
    by (simp add: upt_conv_Cons hex_value_of_def hex_char_def)
  ultimately show ?thesis by blast
qed

lemma byte_tokens_text: "byte_tokens (byte_text b @ rest) = b # byte_tokens rest"
proof -
  have b: "unat b < 256" by (rule order.strict_trans2 [OF unsigned_less]) simp
  then have "16 * hex_value_of (hex_char (unat b div 16)) + hex_value_of (hex_char (unat b mod 16)) = unat b"
    by (simp add: hex_char_value)
  then show ?thesis by (simp add: byte_text_def)
qed

text \<open>Text without a zero digit holds no token.\<close>

lemma byte_tokens_skip:
  assumes "CHR ''0'' \<notin> set xs"
  shows "byte_tokens (xs @ ys) = byte_tokens ys"
  using assms
proof (induction xs)
  case (Cons c xs)
  have "byte_tokens (c # zs) = byte_tokens zs" if "c \<noteq> CHR ''0''" for zs
    using that by (cases "c # zs" rule: byte_tokens.cases) (auto split: list.splits)
  with Cons show ?case by auto
qed simp

lemma byte_tokens_bytes: "byte_tokens (concat (map byte_text bs) @ rest) = bs @ byte_tokens rest"
  by (induction bs) (simp_all add: byte_tokens_text)

lemma chunks_concat: "n \<noteq> 0 \<Longrightarrow> concat (chunks n xs) = xs"
  by (induction n xs rule: chunks.induct) (subst chunks.simps, simp)

lemma byte_tokens_chunks: "byte_tokens (concat (map chunk_text css) @ rest) = concat css @ byte_tokens rest"
proof (induction css)
  case (Cons bs css)
  have "byte_tokens (''    '' @ concat (map byte_text bs) @ newline_text @ ys) = bs @ byte_tokens ys" for ys
    using byte_tokens_skip [of "''    ''" "concat (map byte_text bs) @ newline_text @ ys"] byte_tokens_skip [of newline_text ys]
    by (simp add: byte_tokens_bytes newline_text_def)
  with Cons show ?case by (simp add: chunk_text_def)
qed simp

lemma init_elf_source_tokens: "byte_tokens (init_elf_source bs) = bs"
proof -
  let ?h = "''// @generated by build.rs'' @ newline_text @ ''pub static INIT_ELF: &[u8] = &['' @ newline_text"
  have "CHR ''0'' \<notin> set ?h" by (simp add: newline_text_def)
  from byte_tokens_skip [OF this, of "concat (map chunk_text (chunks 12 bs)) @ ''];'' @ newline_text"]
  show ?thesis by (simp add: init_elf_source_def byte_tokens_chunks chunks_concat newline_text_def)
qed

text \<open>C40: the build embeds the init program unchanged. When the script succeeds and the program named by the
  environment can be read, the hexadecimal literals of the generated array are exactly the bytes of that
  program, in order; without a readable program the array is empty.\<close>

theorem build_embeds_init:
  assumes "build_main env_var fs_read fs_write_ok = Inr (said, path, src)"
  shows "byte_tokens src = (case env_var ''MANTRA_INIT_ELF'' of None \<Rightarrow> [] | Some p \<Rightarrow>
    (case fs_read p of None \<Rightarrow> [] | Some bs \<Rightarrow> bs))"
proof -
  have "src = init_elf_source (case env_var ''MANTRA_INIT_ELF'' of None \<Rightarrow> [] | Some p \<Rightarrow>
      (case fs_read p of None \<Rightarrow> [] | Some bs \<Rightarrow> bs))"
    using assms by (auto simp: build_main_def Let_def split: if_splits elim!: and_then_InrE)
  then show ?thesis by (simp only: init_elf_source_tokens)
qed

theorem build_embeds_init_witness:
  "\<exists>said path src. build_main (\<lambda>v. Some (if v = ''OUT_DIR'' then ''/out'' else ''init''))
      (\<lambda>p. if p = ''init'' then Some [0x7f, 0x45, 0x00, 0xff] else None) (\<lambda>_ _. True) = Inr (said, path, src)
    \<and> byte_tokens src = [0x7f, 0x45, 0x00, 0xff]"
proof -
  let ?e = "\<lambda>v. Some (if v = ''OUT_DIR'' then ''/out'' else ''init'')"
  let ?r = "\<lambda>p. if p = ''init'' then Some [0x7f, 0x45, 0x00, 0xff :: u8] else None"
  obtain said path src where b: "build_main ?e ?r (\<lambda>_ _. True) = Inr (said, path, src)"
    by (simp add: build_main_def Let_def)
  from build_embeds_init [OF b] b show ?thesis by auto
qed

end
